(* ===== verification/Prelude.thy ===== *)
theory Prelude
  imports Main "HOL-Library.Word" "HOL-Library.Monad_Syntax" "HOL-Library.Sublist"
begin

text \<open>
  The part of C that every component of the server shares: memory objects, C strings and
  the handful of C library functions the source calls.

  A memory object (an array, a \<^verbatim>\<open>malloc\<close> block) is a list; an access outside it is
  undefined behaviour and is the value \<^term>\<open>None\<close>, called a \<^emph>\<open>trap\<close> below. Every
  operation that can trap returns an \<^verbatim>\<open>option\<close>, composed with the option monad, so
  a theorem that a call returns \<^verbatim>\<open>Some\<close> value is a memory-safety theorem. Error
  codes of the program (such as \<^verbatim>\<open>-1\<close>) are values, never traps.
  A \<^verbatim>\<open>char\<close> is one byte. The list and string lemmas at the end are the ones the
  components share.
\<close>

named_theorems mem_simps \<open>rewriting of memory accesses that stay in bounds\<close>
named_theorems cstr_simps \<open>rewriting of C string operations on terminated strings\<close>

section \<open>Bytes and memory objects\<close>

type_synonym bytes = "char list"

abbreviation NUL :: char where "NUL \<equiv> CHR 0x00"
abbreviation CR :: char where "CR \<equiv> CHR 0x0D"
abbreviation LF :: char where "LF \<equiv> CHR 0x0A"
abbreviation SP :: char where "SP \<equiv> CHR 0x20"
abbreviation QUOTE :: char where "QUOTE \<equiv> CHR 0x27"
abbreviation DQUOTE :: char where "DQUOTE \<equiv> CHR 0x22"

abbreviation CRLF :: string where "CRLF \<equiv> [CR, LF]"

definition rd :: "'a list \<Rightarrow> nat \<Rightarrow> 'a option" where
  "rd b i = (if i < length b then Some (b ! i) else None)"

definition wr :: "'a list \<Rightarrow> nat \<Rightarrow> 'a \<Rightarrow> 'a list option" where
  "wr b i x = (if i < length b then Some (b[i := x]) else None)"

text \<open>
  \<^verbatim>\<open>memcpy(dst + d, src + s, n)\<close>; a negative \<open>n\<close> is converted to a huge
  \<^verbatim>\<open>size_t\<close> and is out of bounds of every object.
\<close>

definition c_memcpy :: "'a list \<Rightarrow> nat \<Rightarrow> 'a list \<Rightarrow> nat \<Rightarrow> int \<Rightarrow> 'a list option" where
  "c_memcpy dst d src s n =
     (if 0 \<le> n \<and> d + nat n \<le> length dst \<and> s + nat n \<le> length src
      then Some (take d dst @ take (nat n) (drop s src) @ drop (d + nat n) dst)
      else None)"

lemma rd_eq_Some [simp]: "rd b i = Some x \<longleftrightarrow> i < length b \<and> b ! i = x"
  by (auto simp: rd_def)

lemma rd_eq_None [simp]: "rd b i = None \<longleftrightarrow> length b \<le> i"
  by (auto simp: rd_def)

lemma wr_eq_Some [simp]: "wr b i x = Some b' \<longleftrightarrow> i < length b \<and> b' = b[i := x]"
  by (auto simp: wr_def)

lemma wr_eq_None [simp]: "wr b i x = None \<longleftrightarrow> length b \<le> i"
  by (auto simp: wr_def)

lemma rd_in [simp, mem_simps]: "i < length b \<Longrightarrow> rd b i = Some (b ! i)"
  by simp

lemma wr_in [simp, mem_simps]: "i < length b \<Longrightarrow> wr b i x = Some (b[i := x])"
  by simp

lemma rd_append_right [mem_simps]: "rd (xs @ y # ys) (length xs) = Some y"
  by simp

lemma c_memcpy_eq_Some:
  "c_memcpy dst d src s n = Some b \<longleftrightarrow>
     0 \<le> n \<and> d + nat n \<le> length dst \<and> s + nat n \<le> length src \<and>
     b = take d dst @ take (nat n) (drop s src) @ drop (d + nat n) dst"
  by (auto simp: c_memcpy_def)

lemma c_memcpy_length: "c_memcpy dst d src s n = Some b \<Longrightarrow> length b = length dst"
  by (auto simp: c_memcpy_eq_Some)

text \<open>A call that may end the process: \<^verbatim>\<open>exit(code)\<close> or a returned value.\<close>

datatype 'a outcome = Exit int | Ret 'a

section \<open>C strings\<close>

text \<open>
  \<^term>\<open>zt s\<close> is the object that holds the C string with characters \<open>s\<close>;
  \<open>cstr b\<close> are the characters of the C string that starts a buffer \<open>b\<close>.
\<close>

definition zt :: "string \<Rightarrow> bytes" where
  "zt s = s @ [NUL]"

definition cstr :: "bytes \<Rightarrow> string" where
  "cstr b = takeWhile (\<lambda>c. c \<noteq> NUL) b"

definition c_string :: "string \<Rightarrow> bool" where
  "c_string s \<longleftrightarrow> NUL \<notin> set s"

definition c_strlen :: "bytes \<Rightarrow> nat option" where
  "c_strlen b = (if NUL \<in> set b then Some (length (cstr b)) else None)"

fun c_strcmp :: "bytes \<Rightarrow> bytes \<Rightarrow> int option" where
  "c_strcmp (a # as) (b # bs) =
     (if a \<noteq> b then Some (of_char a - of_char b)
      else if a = NUL then Some 0
      else c_strcmp as bs)"
| "c_strcmp _ _ = None"

fun c_strncmp :: "bytes \<Rightarrow> bytes \<Rightarrow> nat \<Rightarrow> int option" where
  "c_strncmp as bs 0 = Some 0"
| "c_strncmp (a # as) (b # bs) (Suc n) =
     (if a \<noteq> b then Some (of_char a - of_char b)
      else if a = NUL then Some 0
      else c_strncmp as bs n)"
| "c_strncmp _ _ (Suc n) = None"

text \<open>\<^verbatim>\<open>snprintf(buf, size, ...)\<close>: the characters stored, at most \<open>size - 1\<close>.\<close>

definition c_snprintf :: "nat \<Rightarrow> string \<Rightarrow> string" where
  "c_snprintf sz s = take (sz - 1) s"

definition c_tolower :: "char \<Rightarrow> char" where
  "c_tolower c = (if 65 \<le> (of_char c :: nat) \<and> (of_char c :: nat) \<le> 90
                  then char_of ((of_char c :: nat) + 32) else c)"

lemma zt_simps [simp]: "length (zt s) = Suc (length s)" "set (zt s) = insert NUL (set s)"
  by (auto simp: zt_def)

lemma cstr_append_NUL [cstr_simps]: "c_string s \<Longrightarrow> cstr (s @ NUL # r) = s"
  by (simp add: cstr_def c_string_def takeWhile_append takeWhile_eq_all_conv[THEN iffD2])

lemma cstr_zt [cstr_simps]: "c_string s \<Longrightarrow> cstr (zt s) = s"
  by (simp add: zt_def cstr_append_NUL)

lemma c_string_cstr [simp, intro]: "c_string (cstr b)"
  by (auto simp: c_string_def cstr_def dest: set_takeWhileD)

lemma c_string_append [simp]: "c_string (s @ t) \<longleftrightarrow> c_string s \<and> c_string t"
  by (auto simp: c_string_def)

lemma c_string_Cons [simp]: "c_string (c # t) \<longleftrightarrow> c \<noteq> NUL \<and> c_string t"
  by (auto simp: c_string_def)

lemma c_string_Nil [simp]: "c_string []"
  by (simp add: c_string_def)

lemma cstr_split: "NUL \<in> set b \<Longrightarrow> \<exists>r. b = cstr b @ NUL # r"
proof (induction b)
  case Nil
  then show ?case by simp
next
  case (Cons c b)
  then show ?case by (cases "c = NUL") (auto simp: cstr_def)
qed

lemma c_strlen_zt [cstr_simps]: "c_string s \<Longrightarrow> c_strlen (zt s) = Some (length s)"
  by (simp add: c_strlen_def cstr_zt)

lemma of_char_eq_0 [simp]: "(of_char a = (0::int)) \<longleftrightarrow> a = NUL"
proof -
  have "(of_char NUL :: int) = 0" by simp
  then show ?thesis by (metis of_char_eq_iff)
qed

lemma c_strcmp_refl: "c_string s \<Longrightarrow> c_strcmp (s @ NUL # r) (s @ NUL # r') = Some 0"
  by (induction s) auto

lemma c_strcmp_eq_0:
  "c_string s \<Longrightarrow> c_string t \<Longrightarrow>
   (c_strcmp (s @ NUL # r) (t @ NUL # r') = Some 0) = (s = t)"
proof (induction s arbitrary: t)
  case Nil
  then show ?case by (cases t) auto
next
  case (Cons a s)
  then show ?case by (cases t) auto
qed

lemma c_strcmp_defined:
  "c_string s \<Longrightarrow> c_string t \<Longrightarrow> \<exists>v. c_strcmp (s @ NUL # r) (t @ NUL # r') = Some v"
proof (induction s arbitrary: t)
  case Nil
  then show ?case by (cases t) auto
next
  case (Cons a s)
  then show ?case by (cases t) auto
qed

lemma c_strcmp_zt [cstr_simps]:
  "c_string s \<Longrightarrow> c_string t \<Longrightarrow> (c_strcmp (zt s) (zt t) = Some 0) = (s = t)"
  using c_strcmp_eq_0 [of s t "[]" "[]"] by (simp add: zt_def)

lemma c_strncmp_prefix:
  "c_string s \<Longrightarrow> c_string p \<Longrightarrow>
   (c_strncmp (s @ NUL # r) (p @ NUL # r') (length p) = Some 0) = prefix p s"
proof (induction p arbitrary: s)
  case Nil
  then show ?case by simp
next
  case (Cons a p)
  then show ?case by (cases s) auto
qed

lemma c_strncmp_defined:
  "c_string s \<Longrightarrow> c_string p \<Longrightarrow>
   \<exists>v. c_strncmp (s @ NUL # r) (p @ NUL # r') (length p) = Some v"
proof (induction p arbitrary: s)
  case Nil
  then show ?case by simp
next
  case (Cons a p)
  then show ?case by (cases s) auto
qed

lemma c_snprintf_id [cstr_simps]: "length s < sz \<Longrightarrow> c_snprintf sz s = s"
  by (simp add: c_snprintf_def)

section \<open>Decimal numbers\<close>

text \<open>\<^verbatim>\<open>%d\<close> of \<^verbatim>\<open>printf\<close>, and \<^verbatim>\<open>atoi\<close> as a scan that never reads
  past the first character that is not part of the number. A value that does not fit an
  \<^verbatim>\<open>int\<close> is undefined behaviour of \<^verbatim>\<open>atoi\<close>, hence a trap.\<close>

definition digit_char :: "nat \<Rightarrow> char" where
  "digit_char d = char_of (48 + d)"

definition is_digit :: "char \<Rightarrow> bool" where
  "is_digit c \<longleftrightarrow> 48 \<le> (of_char c :: nat) \<and> (of_char c :: nat) \<le> 57"

definition digit_val :: "char \<Rightarrow> nat" where
  "digit_val c = of_char c - 48"

definition is_space :: "char \<Rightarrow> bool" where
  "is_space c \<longleftrightarrow> (of_char c :: nat) = 32 \<or> (9 \<le> (of_char c :: nat) \<and> (of_char c :: nat) \<le> 13)"

fun show_nat :: "nat \<Rightarrow> string" where
  "show_nat n = (if n < 10 then [digit_char n] else show_nat (n div 10) @ [digit_char (n mod 10)])"

declare show_nat.simps [simp del]

definition show_int :: "int \<Rightarrow> string" where
  "show_int i = (if i < 0 then CHR ''-'' # show_nat (nat (- i)) else show_nat (nat i))"

definition in_int :: "int \<Rightarrow> bool" where
  "in_int v \<longleftrightarrow> - (2 ^ 31) \<le> v \<and> v < 2 ^ 31"

fun skip_space :: "bytes \<Rightarrow> bytes option" where
  "skip_space [] = None"
| "skip_space (c # cs) = (if is_space c then skip_space cs else Some (c # cs))"

fun scan_digits :: "nat \<Rightarrow> bytes \<Rightarrow> nat option" where
  "scan_digits n [] = None"
| "scan_digits n (c # cs) =
     (if is_digit c then scan_digits (10 * n + digit_val c) cs else Some n)"

definition c_atoi :: "bytes \<Rightarrow> int option" where
  "c_atoi b = do {
     r \<leftarrow> skip_space b;
     c \<leftarrow> rd r 0;
     v \<leftarrow> (if c = CHR ''-'' then map_option (\<lambda>n. - int n) (scan_digits 0 (tl r))
          else if c = CHR ''+'' then map_option int (scan_digits 0 (tl r))
          else map_option int (scan_digits 0 r));
     if in_int v then Some v else None }"

lemma of_char_digit: "d < 10 \<Longrightarrow> (of_char (digit_char d) :: nat) = 48 + d"
  by (simp add: digit_char_def)

lemma is_digit_digit_char [simp]: "d < 10 \<Longrightarrow> is_digit (digit_char d)"
  by (simp add: is_digit_def of_char_digit)

lemma digit_val_digit_char [simp]: "d < 10 \<Longrightarrow> digit_val (digit_char d) = d"
  by (simp add: digit_val_def of_char_digit)

lemma show_nat_digits: "list_all is_digit (show_nat n)"
proof (induction n rule: show_nat.induct)
  case (1 n)
  then show ?case by (subst show_nat.simps) auto
qed

lemma show_nat_nonempty [simp]: "show_nat n \<noteq> []"
  by (subst show_nat.simps) simp

lemma is_digit_facts:
  "is_digit c \<Longrightarrow> c \<noteq> NUL" "is_digit c \<Longrightarrow> \<not> is_space c" "is_digit c \<Longrightarrow> c \<noteq> CHR ''-''"
  "is_digit c \<Longrightarrow> c \<noteq> CHR ''+''" "is_digit c \<Longrightarrow> c \<noteq> CR" "is_digit c \<Longrightarrow> c \<noteq> SP"
  "is_digit c \<Longrightarrow> c \<noteq> QUOTE"
  by (auto simp: is_digit_def is_space_def)

lemma c_string_show_nat [simp]: "c_string (show_nat n)"
  using show_nat_digits [of n] by (auto simp: c_string_def list_all_iff dest: is_digit_facts)

lemma c_string_show_int [simp]: "c_string (show_int i)"
  by (simp add: show_int_def)

lemma scan_digits_append:
  "list_all is_digit ds \<Longrightarrow>
   scan_digits n (ds @ r) = scan_digits (foldl (\<lambda>a c. 10 * a + digit_val c) n ds) r"
  by (induction ds arbitrary: n) auto

lemma foldl_show_nat: "foldl (\<lambda>a c. 10 * a + digit_val c) 0 (show_nat n) = n"
proof (induction n rule: show_nat.induct)
  case (1 n)
  then show ?case by (subst show_nat.simps) auto
qed

lemma scan_digits_show_nat: "\<not> is_digit c \<Longrightarrow> scan_digits 0 (show_nat n @ c # r) = Some n"
  by (simp add: scan_digits_append show_nat_digits foldl_show_nat)

lemma show_nat_hd: "\<exists>d ds. show_nat n = d # ds \<and> is_digit d"
  using show_nat_digits [of n] by (cases "show_nat n") auto

text \<open>Reading back what \<^verbatim>\<open>%d\<close> printed.\<close>

lemma c_atoi_show_int:
  assumes "in_int i" and "\<not> is_digit c"
  shows "c_atoi (show_int i @ c # r) = Some i"
proof (cases "i < 0")
  case True
  then show ?thesis
    using assms by (simp add: c_atoi_def show_int_def scan_digits_show_nat is_space_def rd_def)
next
  case False
  obtain d ds where d: "show_nat (nat i) = d # ds" "is_digit d"
    using show_nat_hd by blast
  have s: "scan_digits 0 (d # ds @ c # r) = Some (nat i)"
    using scan_digits_show_nat [OF assms(2), of "nat i" r] d(1) by simp
  show ?thesis
    using False assms d s by (auto simp: c_atoi_def show_int_def rd_def is_digit_facts)
qed

lemma show_nat_length_bound: "n < 10 ^ k \<Longrightarrow> 0 < k \<Longrightarrow> length (show_nat n) \<le> k"
proof (induction n arbitrary: k rule: show_nat.induct)
  case (1 n)
  show ?case
  proof (cases "n < 10")
    case True
    then show ?thesis using 1(3) by (subst show_nat.simps) simp
  next
    case False
    then obtain j where j: "k = Suc j" "0 < j"
      using "1.prems" by (cases k; cases "k = 1") auto
    have "n div 10 < 10 ^ j"
      using "1.prems"(1) j(1) by (simp add: less_mult_imp_div_less mult.commute)
    then have "length (show_nat (n div 10)) \<le> j"
      using "1.IH" False j(2) by blast
    then show ?thesis using False j(1) by (subst show_nat.simps) simp
  qed
qed

section \<open>Block writes\<close>

definition put_at :: "'a list \<Rightarrow> nat \<Rightarrow> 'a list \<Rightarrow> 'a list" where
  "put_at b pos xs = take pos b @ xs @ drop (pos + length xs) b"

lemma put_at_length [simp]: "pos + length xs \<le> length b \<Longrightarrow> length (put_at b pos xs) = length b"
  by (simp add: put_at_def)

lemma put_at_Nil [simp]: "put_at b pos [] = b"
  by (simp add: put_at_def)

lemma put_at_Cons:
  "pos < length b \<Longrightarrow> put_at (b[pos := x]) (Suc pos) xs = put_at b pos (x # xs)"
  by (simp add: put_at_def take_Suc_conv_app_nth)

lemma put_at_append:
  "pos + length xs + length ys \<le> length b \<Longrightarrow>
   put_at (put_at b pos xs) (pos + length xs) ys = put_at b pos (xs @ ys)"
  by (simp add: put_at_def ac_simps)

lemma put_at_snoc:
  "pos + length xs < length b \<Longrightarrow>
   (put_at b pos xs)[pos + length xs := y] = put_at b pos (xs @ [y])"
  by (simp add: put_at_def list_update_append Cons_nth_drop_Suc [symmetric])

lemma put_at_beyond:
  "pos + length xs \<le> k \<Longrightarrow> k < length b \<Longrightarrow> put_at b pos xs ! k = b ! k"
proof -
  assume k: "pos + length xs \<le> k" "k < length b"
  then have "\<not> k - pos < length xs" by arith
  then show "put_at b pos xs ! k = b ! k" using k by (simp add: put_at_def nth_append)
qed

lemma put_at_inside:
  "k < length xs \<Longrightarrow> pos + length xs \<le> length b \<Longrightarrow> put_at b pos xs ! (pos + k) = xs ! k"
  by (simp add: put_at_def nth_append)

lemma cstr_put_zeros:
  "c_string s \<Longrightarrow> length s < n \<Longrightarrow> cstr (put_at (replicate n NUL) 0 s) = s"
proof -
  assume s: "c_string s" and n: "length s < n"
  then obtain m where "n - length s = Suc m" by (cases "n - length s") auto
  then have "put_at (replicate n NUL) 0 s = s @ NUL # replicate m NUL"
    by (simp add: put_at_def)
  then show ?thesis using s by (simp add: cstr_append_NUL)
qed

lemma c_memcpy_put_at:
  "0 \<le> n \<Longrightarrow> d + nat n \<le> length dst \<Longrightarrow> s + nat n \<le> length src \<Longrightarrow>
   c_memcpy dst d src s n = Some (put_at dst d (take (nat n) (drop s src)))"
  by (simp add: c_memcpy_def put_at_def)

section \<open>Shared list lemmas\<close>

lemma drop_length_append [simp]: "drop (length xs) (xs @ ys) = ys"
  by simp

lemma take_length_append [simp]: "take (length xs) (xs @ ys) = xs"
  by simp

lemma nth_append_right: "(xs @ y # ys) ! length xs = y"
  by simp

lemma bind_eq_SomeI: "m = Some x \<Longrightarrow> f x = r \<Longrightarrow> Option.bind m f = r"
  by simp

end
