(* ===== verification/Query_Parser.thy ===== *)
theory Query_Parser
  imports Prelude
begin

text \<open>
  \<^verbatim>\<open>server/libs/queryparser.c\<close>: the parser of a URL's query string into fixed arrays of
  keys (64 bytes) and values (1024 bytes), and the lookup of a key. The C function walks the
  URL with a state, two write indices and the number of finished queries; each character is
  one step of \<^verbatim>\<open>qp_char\<close>. A write outside an array traps. The messages it
  prints are the constructors of \<^verbatim>\<open>qp_end\<close>.
\<close>

section \<open>Data\<close>

datatype qstate =
    QUERY_NONE
  | QUERY_ON_KEY
  | QUERY_ON_KEY_VALUE_END
  | QUERY_ON_VALUE
  | QUERY_ON_VALUE_KEY_END

record qparser_query =
  qkey :: bytes
  qvalue :: bytes

record qparser_info =
  qlength :: nat
  queries_length :: nat
  queries :: "qparser_query list"

datatype qp_end = QP_Done | QP_LengthExceeded | QP_KeyLimit | QP_ValueLimit | QP_QueriesLimit

datatype qp_step =
    Go qparser_info nat nat qstate
  | Stop qparser_info qp_end

definition zero_query :: qparser_query where
  "zero_query = \<lparr>qkey = replicate 64 NUL, qvalue = replicate 1024 NUL\<rparr>"

section \<open>Operations\<close>

definition qparser_init :: "qparser_query list \<Rightarrow> nat \<Rightarrow> qparser_info option" where
  "qparser_init buffer n =
     (if n \<le> length buffer
      then Some \<lparr>qlength = n, queries_length = 0, queries = replicate n zero_query @ drop n buffer\<rparr>
      else None)"

definition put_key :: "qparser_info \<Rightarrow> nat \<Rightarrow> nat \<Rightarrow> char \<Rightarrow> qparser_info option" where
  "put_key info qi k c = do {
     q \<leftarrow> rd (queries info) qi;
     b \<leftarrow> wr (qkey q) k c;
     Some (info\<lparr>queries := (queries info)[qi := q\<lparr>qkey := b\<rparr>]\<rparr>) }"

definition put_value :: "qparser_info \<Rightarrow> nat \<Rightarrow> nat \<Rightarrow> char \<Rightarrow> qparser_info option" where
  "put_value info qi k c = do {
     q \<leftarrow> rd (queries info) qi;
     b \<leftarrow> wr (qvalue q) k c;
     Some (info\<lparr>queries := (queries info)[qi := q\<lparr>qvalue := b\<rparr>]\<rparr>) }"

definition on_key_char :: "qparser_info \<Rightarrow> nat \<Rightarrow> nat \<Rightarrow> qstate \<Rightarrow> char \<Rightarrow> qp_step option" where
  "on_key_char info ki vi st c =
     (if st = QUERY_ON_KEY_VALUE_END then
        (if 64 \<le> ki then Some (Stop info QP_KeyLimit)
         else do {
           info1 \<leftarrow> put_value info (queries_length info) vi NUL;
           let info2 = info1\<lparr>queries_length := queries_length info1 + 1\<rparr>;
           if qlength info2 \<le> queries_length info2 then Some (Stop info2 QP_QueriesLimit)
           else do {
             info3 \<leftarrow> put_key info2 (queries_length info2) ki c;
             Some (Go info3 (ki + 1) 0 QUERY_ON_KEY) } })
      else if 64 \<le> ki then Some (Stop info QP_KeyLimit)
      else do {
        info1 \<leftarrow> put_key info (queries_length info) ki c;
        Some (Go info1 (ki + 1) vi st) })"

definition on_value_char :: "qparser_info \<Rightarrow> nat \<Rightarrow> nat \<Rightarrow> qstate \<Rightarrow> char \<Rightarrow> qp_step option" where
  "on_value_char info ki vi st c =
     (if 1024 \<le> vi then Some (Stop info QP_ValueLimit)
      else if st = QUERY_ON_VALUE_KEY_END then do {
        info1 \<leftarrow> put_key info (queries_length info) ki NUL;
        info2 \<leftarrow> put_value info1 (queries_length info1) vi c;
        Some (Go info2 0 (vi + 1) QUERY_ON_VALUE) }
      else do {
        info1 \<leftarrow> put_value info (queries_length info) vi c;
        Some (Go info1 ki (vi + 1) st) })"

definition qp_char :: "qparser_info \<Rightarrow> nat \<Rightarrow> nat \<Rightarrow> qstate \<Rightarrow> char \<Rightarrow> qp_step option" where
  "qp_char info ki vi st c =
     (if qlength info \<le> queries_length info then Some (Stop info QP_LengthExceeded)
      else if c = CHR ''?'' then Some (Go info ki vi QUERY_ON_KEY)
      else if c = CHR ''='' then Some (Go info ki vi QUERY_ON_VALUE_KEY_END)
      else if c = CHR ''&'' then Some (Go info ki vi QUERY_ON_KEY_VALUE_END)
      else if st \<in> {QUERY_ON_KEY, QUERY_ON_KEY_VALUE_END} then on_key_char info ki vi st c
      else if st \<in> {QUERY_ON_VALUE, QUERY_ON_VALUE_KEY_END} then on_value_char info ki vi st c
      else Some (Go info ki vi st))"

text \<open>The code behind the loop, reached when the whole URL was read.\<close>

definition qp_finish :: "qparser_info \<Rightarrow> nat \<Rightarrow> nat \<Rightarrow> (qparser_info \<times> qp_end) option" where
  "qp_finish info ki vi = do {
     q \<leftarrow> rd (queries info) (queries_length info);
     k0 \<leftarrow> rd (qkey q) 0;
     if k0 \<noteq> NUL then
       (if 64 \<le> ki then Some (info, QP_KeyLimit)
        else do {
          info1 \<leftarrow> put_value info (queries_length info) vi NUL;
          Some (info1\<lparr>queries_length := queries_length info1 + 1\<rparr>, QP_Done) })
     else Some (info, QP_Done) }"

fun qp_loop :: "qparser_info \<Rightarrow> nat \<Rightarrow> nat \<Rightarrow> qstate \<Rightarrow> bytes \<Rightarrow> (qparser_info \<times> qp_end) option" where
  "qp_loop info ki vi st [] = None"
| "qp_loop info ki vi st (c # cs) =
     (if c = NUL then qp_finish info ki vi
      else case qp_char info ki vi st c of
        None \<Rightarrow> None
      | Some (Stop info' e) \<Rightarrow> Some (info', e)
      | Some (Go info' ki' vi' st') \<Rightarrow> qp_loop info' ki' vi' st' cs)"

definition qparser_parse :: "qparser_info \<Rightarrow> bytes \<Rightarrow> (qparser_info \<times> qp_end) option" where
  "qparser_parse info url = qp_loop info 0 0 QUERY_NONE url"

text \<open>The index of the query found, \<^verbatim>\<open>None\<close> for the null pointer.\<close>

function get_query_loop :: "qparser_info \<Rightarrow> bytes \<Rightarrow> nat \<Rightarrow> nat option option" where
  "get_query_loop info key i =
     (if i < queries_length info then do {
        q \<leftarrow> rd (queries info) i;
        k0 \<leftarrow> rd (qkey q) 0;
        if k0 \<noteq> NUL then do {
          r \<leftarrow> c_strcmp (qkey q) key;
          if r = 0 then Some (Some i) else get_query_loop info key (i + 1) }
        else get_query_loop info key (i + 1) }
      else Some None)"
  by pat_completeness auto
termination
  by (relation "measure (\<lambda>(info, key, i). queries_length info - i)") auto

declare get_query_loop.simps [simp del]

definition qparser_get_query :: "qparser_info \<Rightarrow> bytes \<Rightarrow> nat option option" where
  "qparser_get_query info key = get_query_loop info key 0"

section \<open>Well-formed queries: the parser inverts the rendering\<close>

text \<open>
  A pair is good when both parts are non-empty, free of the separators and of the
  terminator, and short enough for the arrays. \<open>filled k v\<close> is the query that holds
  the characters \<open>k\<close> and \<open>v\<close>, the rest zero; \<open>mk_info\<close> is the parser's memory
  after the pairs \<open>done\<close>, with \<open>k\<close> and \<open>v\<close> read of the current one.
\<close>

definition plain :: "string \<Rightarrow> bool" where
  "plain s \<longleftrightarrow> set s \<inter> {NUL, CHR ''?'', CHR ''='', CHR ''&''} = {}"

definition good_pair :: "string \<times> string \<Rightarrow> bool" where
  "good_pair p \<longleftrightarrow> (case p of (k, v) \<Rightarrow>
     plain k \<and> plain v \<and> k \<noteq> [] \<and> v \<noteq> [] \<and> length k < 64 \<and> length v < 1024)"

definition filled :: "string \<Rightarrow> string \<Rightarrow> qparser_query" where
  "filled k v = \<lparr>qkey = put_at (replicate 64 NUL) 0 k, qvalue = put_at (replicate 1024 NUL) 0 v\<rparr>"

definition mk_info ::
  "nat \<Rightarrow> (string \<times> string) list \<Rightarrow> string \<Rightarrow> string \<Rightarrow> nat \<Rightarrow> qparser_query list \<Rightarrow> qparser_info"
where
  "mk_info n dn k v m ex =
     \<lparr>qlength = n, queries_length = length dn,
      queries = map (\<lambda>(k, v). filled k v) dn @ filled k v # replicate m zero_query @ ex\<rparr>"

fun render_pairs :: "(string \<times> string) list \<Rightarrow> string" where
  "render_pairs [] = []"
| "render_pairs [(k, v)] = k @ ''='' @ v"
| "render_pairs ((k, v) # ps) = k @ ''='' @ v @ ''&'' @ render_pairs ps"

definition visible :: "qparser_info \<Rightarrow> (string \<times> string) list" where
  "visible info = map (\<lambda>q. (cstr (qkey q), cstr (qvalue q))) (take (queries_length info) (queries info))"

lemma plain_simps [simp]:
  "plain []" "plain (c # s) \<longleftrightarrow> c \<notin> {NUL, CHR ''?'', CHR ''='', CHR ''&''} \<and> plain s"
  by (auto simp: plain_def)

lemma plain_c_string: "plain s \<Longrightarrow> c_string s"
  by (auto simp: plain_def c_string_def)

lemma zero_query_filled: "zero_query = filled [] []"
  by (simp add: zero_query_def filled_def)

lemma put_key_mk:
  assumes "length k < 64"
  shows "put_key (mk_info n dn k v m ex) (length dn) (length k) c = Some (mk_info n dn (k @ [c]) v m ex)"
  using assms put_at_snoc [of 0 k "replicate 64 NUL" c]
  by (simp add: put_key_def mk_info_def filled_def nth_append list_update_append)

lemma put_value_mk:
  assumes "length v < 1024"
  shows "put_value (mk_info n dn k v m ex) (length dn) (length v) c = Some (mk_info n dn k (v @ [c]) m ex)"
  using assms put_at_snoc [of 0 v "replicate 1024 NUL" c]
  by (simp add: put_value_def mk_info_def filled_def nth_append list_update_append)

lemma put_at_zero_NUL:
  "length s < n \<Longrightarrow> (put_at (replicate n NUL) 0 s)[length s := NUL] = put_at (replicate n NUL) 0 s"
  using put_at_beyond [of 0 s "length s" "replicate n NUL"] by (simp add: list_update_same_conv)

lemma put_key_mk_NUL:
  assumes "length k < 64"
  shows "put_key (mk_info n dn k v m ex) (length dn) (length k) NUL = Some (mk_info n dn k v m ex)"
  using assms by (simp add: put_key_def mk_info_def filled_def nth_append list_update_append put_at_zero_NUL)

lemma put_value_mk_NUL:
  assumes "length v < 1024"
  shows "put_value (mk_info n dn k v m ex) (length dn) (length v) NUL = Some (mk_info n dn k v m ex)"
  using assms by (simp add: put_value_def mk_info_def filled_def nth_append list_update_append put_at_zero_NUL)

lemma mk_info_sel [simp]:
  "qlength (mk_info n dn k v m ex) = n" "queries_length (mk_info n dn k v m ex) = length dn"
  by (simp_all add: mk_info_def)

lemma mk_info_next:
  "0 < m \<Longrightarrow> (mk_info n dn k v m ex)\<lparr>queries_length := Suc (length dn)\<rparr> =
     mk_info n (dn @ [(k, v)]) [] [] (m - 1) ex"
  by (cases m) (auto simp: mk_info_def zero_query_filled)

lemma qp_loop_none:
  "plain s \<Longrightarrow> queries_length info < qlength info \<Longrightarrow>
   qp_loop info ki vi QUERY_NONE (s @ rest) = qp_loop info ki vi QUERY_NONE rest"
  by (induction s) (auto simp: qp_char_def)

lemma qp_loop_key:
  assumes "plain s" and "length k + length s \<le> 64" and "length dn < n"
  shows "qp_loop (mk_info n dn k v m ex) (length k) vi QUERY_ON_KEY (s @ rest) =
         qp_loop (mk_info n dn (k @ s) v m ex) (length k + length s) vi QUERY_ON_KEY rest"
  using assms
proof (induction s arbitrary: k)
  case Nil
  then show ?case by simp
next
  case (Cons c s)
  then show ?case
    using Cons.IH [of "k @ [c]"] by (simp add: qp_char_def on_key_char_def put_key_mk)
qed

lemma qp_loop_value:
  assumes "plain s" and "length v + length s \<le> 1024" and "length dn < n"
  shows "qp_loop (mk_info n dn k v m ex) ki (length v) QUERY_ON_VALUE (s @ rest) =
         qp_loop (mk_info n dn k (v @ s) m ex) ki (length v + length s) QUERY_ON_VALUE rest"
  using assms
proof (induction s arbitrary: v)
  case Nil
  then show ?case by simp
next
  case (Cons c s)
  then show ?case
    using Cons.IH [of "v @ [c]"] by (simp add: qp_char_def on_value_char_def put_value_mk)
qed

lemma qp_loop_pair:
  assumes "plain v" and "v \<noteq> []" and "length k < 64" and "length v \<le> 1024" and "length dn < n"
  shows "qp_loop (mk_info n dn k [] m ex) (length k) 0 QUERY_ON_KEY (''='' @ v @ rest) =
         qp_loop (mk_info n dn k v m ex) 0 (length v) QUERY_ON_VALUE rest"
proof -
  obtain c s where v: "v = c # s" using assms(2) by (cases v) auto
  then show ?thesis
    using assms qp_loop_value [of s "[c]" dn n k m ex 0 rest]
      put_value_mk [of "[]" n dn k m ex c]
    by (simp add: qp_char_def on_value_char_def put_key_mk_NUL)
qed

lemma qp_loop_next:
  assumes "plain k'" and "k' \<noteq> []" and "length k' \<le> 64" and "length v < 1024"
    and "Suc (length dn) < n" and "0 < m"
  shows "qp_loop (mk_info n dn k v m ex) 0 (length v) QUERY_ON_VALUE (''&'' @ k' @ rest) =
         qp_loop (mk_info n (dn @ [(k, v)]) k' [] (m - 1) ex) (length k') 0 QUERY_ON_KEY rest"
proof -
  obtain c s where k: "k' = c # s" using assms(2) by (cases k') auto
  then show ?thesis
    using assms qp_loop_key [of s "[c]" "dn @ [(k, v)]" n "[]" "m - 1" ex 0 rest]
      put_key_mk [of "[]" n "dn @ [(k, v)]" "[]" "m - 1" ex c]
    by (simp add: qp_char_def on_key_char_def put_value_mk_NUL mk_info_next)
qed

definition done_info :: "nat \<Rightarrow> (string \<times> string) list \<Rightarrow> nat \<Rightarrow> qparser_query list \<Rightarrow> qparser_info" where
  "done_info n dn m ex =
     \<lparr>qlength = n, queries_length = length dn,
      queries = map (\<lambda>(k, v). filled k v) dn @ replicate m zero_query @ ex\<rparr>"

lemma mk_info_cur [simp]:
  "queries (mk_info n dn k v m ex) ! length dn = filled k v"
  "length dn < length (queries (mk_info n dn k v m ex))"
  by (simp_all add: mk_info_def nth_append)

lemma filled_hd:
  "good_pair (k, v) \<Longrightarrow> rd (qkey (filled k v)) 0 = Some (hd k) \<and> hd k \<noteq> NUL"
  using put_at_inside [of 0 k 0 "replicate 64 NUL"]
  by (cases k) (auto simp: filled_def good_pair_def)

lemma qp_finish_mk:
  assumes "good_pair (k, v)"
  shows "qp_finish (mk_info n dn k v m ex) 0 (length v) = Some (done_info n (dn @ [(k, v)]) m ex, QP_Done)"
proof -
  have "put_value (mk_info n dn k v m ex) (length dn) (length v) NUL = Some (mk_info n dn k v m ex)"
    using assms by (simp add: good_pair_def put_value_mk_NUL)
  then have "qp_finish (mk_info n dn k v m ex) 0 (length v) =
      Some ((mk_info n dn k v m ex)\<lparr>queries_length := Suc (length dn)\<rparr>, QP_Done)"
    using filled_hd [OF assms] by (simp add: qp_finish_def)
  then show ?thesis by (simp add: mk_info_def done_info_def)
qed

text \<open>What follows the value of a pair: the remaining pairs.\<close>

definition pairs_tail :: "(string \<times> string) list \<Rightarrow> string" where
  "pairs_tail ps = (if ps = [] then [] else ''&'' @ render_pairs ps)"

lemma render_pairs_Cons: "render_pairs ((k, v) # ps) = k @ ''='' @ v @ pairs_tail ps"
  by (cases ps) (auto simp: pairs_tail_def)

lemma qp_loop_pairs:
  assumes "list_all good_pair ((k, v) # ps)" and "length dn + length ps < n" and "length ps \<le> m"
  shows "qp_loop (mk_info n dn k v m ex) 0 (length v) QUERY_ON_VALUE (pairs_tail ps @ NUL # r) =
         Some (done_info n (dn @ (k, v) # ps) (m - length ps) ex, QP_Done)"
  using assms
proof (induction ps arbitrary: dn k v m)
  case Nil
  then show ?case by (simp add: pairs_tail_def qp_finish_mk)
next
  case (Cons p ps)
  obtain k' v' where p: "p = (k', v')" by fastforce
  have g: "good_pair (k, v)" "good_pair (k', v')" using Cons.prems(1) p by auto
  have "qp_loop (mk_info n dn k v m ex) 0 (length v) QUERY_ON_VALUE
         (''&'' @ k' @ ''='' @ v' @ pairs_tail ps @ NUL # r) =
       qp_loop (mk_info n (dn @ [(k, v)]) k' [] (m - 1) ex) (length k') 0 QUERY_ON_KEY
         (''='' @ v' @ pairs_tail ps @ NUL # r)"
    by (rule qp_loop_next) (use g Cons.prems in \<open>auto simp: good_pair_def\<close>)
  also have "\<dots> = qp_loop (mk_info n (dn @ [(k, v)]) k' v' (m - 1) ex) 0 (length v') QUERY_ON_VALUE
         (pairs_tail ps @ NUL # r)"
    by (rule qp_loop_pair) (use g Cons.prems in \<open>auto simp: good_pair_def\<close>)
  also have "\<dots> = Some (done_info n ((dn @ [(k, v)]) @ (k', v') # ps) (m - 1 - length ps) ex, QP_Done)"
    by (rule Cons.IH) (use Cons.prems p in auto)
  finally have *: "qp_loop (mk_info n dn k v m ex) 0 (length v) QUERY_ON_VALUE
         (''&'' @ k' @ ''='' @ v' @ pairs_tail ps @ NUL # r) =
       Some (done_info n ((dn @ [(k, v)]) @ (k', v') # ps) (m - 1 - length ps) ex, QP_Done)" .
  have t: "pairs_tail (p # ps) @ NUL # r = ''&'' @ k' @ ''='' @ v' @ pairs_tail ps @ NUL # r"
    by (simp add: p pairs_tail_def [of "(k', v') # ps"] render_pairs_Cons del: render_pairs.simps)
  show ?case unfolding t * by (simp add: p)
qed

lemma visible_done:
  "list_all good_pair dn \<Longrightarrow> visible (done_info n dn m ex) = dn"
proof -
  assume g: "list_all good_pair dn"
  have "cstr (qkey (filled k v)) = k \<and> cstr (qvalue (filled k v)) = v" if "(k, v) \<in> set dn" for k v
    using g that
    by (auto simp: filled_def list_all_iff good_pair_def cstr_put_zeros plain_c_string dest!: bspec)
  then have "map ((\<lambda>q. (cstr (qkey q), cstr (qvalue q))) \<circ> (\<lambda>(k, v). filled k v)) dn = dn"
    by (auto intro!: map_idI)
  then show ?thesis by (simp add: visible_def done_info_def)
qed

lemma init_mk:
  "n \<le> length buffer \<Longrightarrow> 0 < n \<Longrightarrow>
   qparser_init buffer n = Some (mk_info n [] [] [] (n - 1) (drop n buffer))"
  by (cases n) (auto simp: qparser_init_def mk_info_def zero_query_filled)

section \<open>Memory invariant of the parser\<close>

text \<open>
  Finished queries are terminated; the current key is either full or still ends in a zero
  byte; later queries are untouched.
\<close>

definition query_ok :: "qparser_query \<Rightarrow> bool" where
  "query_ok q \<longleftrightarrow> length (qkey q) = 64 \<and> length (qvalue q) = 1024"

definition query_terminated :: "qparser_query \<Rightarrow> bool" where
  "query_terminated q \<longleftrightarrow> NUL \<in> set (qkey q) \<and> NUL \<in> set (qvalue q)"

definition info_ok :: "qparser_info \<Rightarrow> bool" where
  "info_ok info \<longleftrightarrow>
     qlength info \<le> length (queries info) \<and> list_all query_ok (take (qlength info) (queries info)) \<and>
     queries_length info \<le> qlength info \<and>
     list_all query_terminated (take (queries_length info) (queries info))"

definition parse_inv :: "qparser_info \<Rightarrow> nat \<Rightarrow> nat \<Rightarrow> bool" where
  "parse_inv info ki vi \<longleftrightarrow>
     info_ok info \<and> queries_length info < qlength info \<and> ki \<le> 64 \<and> vi \<le> 1024 \<and>
     (ki = 64 \<or> qkey (queries info ! queries_length info) ! 63 = NUL) \<and>
     (\<forall>i. queries_length info < i \<and> i < qlength info \<longrightarrow> qkey (queries info ! i) ! 63 = NUL)"

lemma info_okD:
  assumes "info_ok info"
  shows "i < qlength info \<Longrightarrow> i < length (queries info)"
    and "i < qlength info \<Longrightarrow> query_ok (queries info ! i)"
    and "i < queries_length info \<Longrightarrow> query_terminated (queries info ! i)"
  using assms by (auto simp: info_ok_def list_all_length)

lemma info_ok_update:
  assumes "info_ok info" and "query_ok q" and "i = queries_length info"
  shows "info_ok (info\<lparr>queries := (queries info)[i := q]\<rparr>)"
proof -
  have "query_ok ((queries info)[i := q] ! n)" if "n < qlength info" for n
    using assms that info_okD(2) [OF assms(1)] info_okD(1) [OF assms(1) that]
    by (cases "n = i") auto
  moreover have "query_terminated ((queries info)[i := q] ! n)" if "n < queries_length info" for n
    using assms that info_okD(3) [OF assms(1) that] by simp
  ultimately show ?thesis using assms(1) by (simp add: info_ok_def list_all_length)
qed

lemma put_key_inv:
  assumes "info_ok info" and "queries_length info < qlength info" and "k < 64"
  shows "\<exists>info'. put_key info (queries_length info) k c = Some info' \<and> info_ok info' \<and>
           qlength info' = qlength info \<and> queries_length info' = queries_length info \<and>
           queries info' ! queries_length info =
             (queries info ! queries_length info)\<lparr>qkey := (qkey (queries info ! queries_length info))[k := c]\<rparr> \<and>
           (\<forall>i. i \<noteq> queries_length info \<longrightarrow> queries info' ! i = queries info ! i)"
  using info_okD(1,2) [OF assms(1,2)] assms
  by (auto simp: put_key_def query_ok_def intro!: info_ok_update)

lemma put_value_inv:
  assumes "info_ok info" and "queries_length info < qlength info" and "k < 1024"
  shows "\<exists>info'. put_value info (queries_length info) k c = Some info' \<and> info_ok info' \<and>
           qlength info' = qlength info \<and> queries_length info' = queries_length info \<and>
           queries info' ! queries_length info =
             (queries info ! queries_length info)\<lparr>qvalue := (qvalue (queries info ! queries_length info))[k := c]\<rparr> \<and>
           (\<forall>i. i \<noteq> queries_length info \<longrightarrow> queries info' ! i = queries info ! i)"
  using info_okD(1,2) [OF assms(1,2)] assms
  by (auto simp: put_value_def query_ok_def intro!: info_ok_update)

lemma put_key_Some_bound:
  "put_key info i k c = Some info' \<Longrightarrow> info_ok info \<Longrightarrow> i < qlength info \<Longrightarrow> k < 64"
  using info_okD(2) [of info i] by (auto simp: put_key_def query_ok_def split: bind_splits)

lemma put_value_Some_bound:
  "put_value info i k c = Some info' \<Longrightarrow> info_ok info \<Longrightarrow> i < qlength info \<Longrightarrow> k < 1024"
  using info_okD(2) [of info i] by (auto simp: put_value_def query_ok_def split: bind_splits)

lemma info_ok_finish:
  assumes "info_ok info" and "queries_length info < qlength info"
    and "query_terminated (queries info ! queries_length info)"
  shows "info_ok (info\<lparr>queries_length := Suc (queries_length info)\<rparr>)"
  using assms by (auto simp: info_ok_def list_all_length less_Suc_eq)

text \<open>Ending the current value: the query becomes terminated and is counted.\<close>

lemma close_query:
  assumes "parse_inv info ki vi" and "ki < 64" and "vi < 1024"
  shows "\<exists>info'. put_value info (queries_length info) vi NUL = Some info' \<and>
           info_ok (info'\<lparr>queries_length := Suc (queries_length info')\<rparr>) \<and>
           qlength info' = qlength info \<and> queries_length info' = queries_length info \<and>
           (\<forall>i. i \<noteq> queries_length info \<longrightarrow> queries info' ! i = queries info ! i)"
proof -
  let ?n = "queries_length info"
  have inv: "info_ok info" "?n < qlength info" using assms(1) by (auto simp: parse_inv_def)
  obtain info' where p: "put_value info ?n vi NUL = Some info'" "info_ok info'"
    "qlength info' = qlength info" "queries_length info' = ?n"
    "queries info' ! ?n = (queries info ! ?n)\<lparr>qvalue := (qvalue (queries info ! ?n))[vi := NUL]\<rparr>"
    "\<forall>i. i \<noteq> ?n \<longrightarrow> queries info' ! i = queries info ! i"
    using put_value_inv [OF inv assms(3)] by blast
  have q: "query_ok (queries info ! ?n)" using info_okD(2) inv by blast
  have "qkey (queries info ! ?n) ! 63 = NUL" using assms(1,2) by (auto simp: parse_inv_def)
  then have "NUL \<in> set (qkey (queries info ! ?n))"
    using q nth_mem [of 63 "qkey (queries info ! ?n)"] by (auto simp: query_ok_def)
  moreover have "NUL \<in> set ((qvalue (queries info ! ?n))[vi := NUL])"
    using q assms(3) by (auto simp: query_ok_def intro!: set_update_memI)
  ultimately have "query_terminated (queries info' ! queries_length info')"
    using p by (simp add: query_terminated_def)
  then show ?thesis using p info_ok_finish [OF p(2)] inv by auto
qed

lemma on_key_char_inv:
  assumes "parse_inv info ki vi" and "on_key_char info ki vi st c = Some s"
  shows "case s of Go info' ki' vi' st' \<Rightarrow> parse_inv info' ki' vi' \<and> qlength info' = qlength info
           \<and> ki' \<le> ki + 1 \<and> vi' \<le> vi
         | Stop info' e \<Rightarrow> info_ok info'"
proof (cases "64 \<le> ki")
  case True
  then show ?thesis using assms by (auto simp: on_key_char_def parse_inv_def split: if_splits)
next
  case False
  then have ki: "ki < 64" by simp
  have inv: "info_ok info" "queries_length info < qlength info" using assms(1) by (auto simp: parse_inv_def)
  show ?thesis
  proof (cases "st = QUERY_ON_KEY_VALUE_END")
    case False
    obtain info' where p: "put_key info (queries_length info) ki c = Some info'" "info_ok info'"
      "qlength info' = qlength info" "queries_length info' = queries_length info"
      "queries info' ! queries_length info =
         (queries info ! queries_length info)\<lparr>qkey := (qkey (queries info ! queries_length info))[ki := c]\<rparr>"
      "\<forall>i. i \<noteq> queries_length info \<longrightarrow> queries info' ! i = queries info ! i"
      using put_key_inv [OF inv ki, of c] by blast
    have "s = Go info' (ki + 1) vi st" using assms(2) False ki p(1) by (simp add: on_key_char_def)
    then show ?thesis
      using p ki assms(1) by (cases "ki = 63") (auto simp: parse_inv_def)
  next
    case True
    have vi: "vi < 1024"
      using assms(2) True ki put_value_Some_bound [OF _ inv(1,2)]
      by (auto simp: on_key_char_def split: bind_splits)
    obtain info1 where p: "put_value info (queries_length info) vi NUL = Some info1"
      "info_ok (info1\<lparr>queries_length := Suc (queries_length info1)\<rparr>)"
      "qlength info1 = qlength info" "queries_length info1 = queries_length info"
      "\<forall>i. i \<noteq> queries_length info \<longrightarrow> queries info1 ! i = queries info ! i"
      using close_query [OF assms(1) _ vi] ki by auto
    let ?info2 = "info1\<lparr>queries_length := Suc (queries_length info)\<rparr>"
    show ?thesis
    proof (cases "qlength info \<le> Suc (queries_length info)")
      case True
      then have "s = Stop ?info2 QP_QueriesLimit"
        using assms(2) \<open>st = _\<close> ki p by (simp add: on_key_char_def)
      then show ?thesis using p(2,4) by simp
    next
      case False
      have ok2: "info_ok ?info2" "queries_length ?info2 < qlength ?info2" using p False by auto
      obtain info3 where r: "put_key ?info2 (Suc (queries_length info)) ki c = Some info3" "info_ok info3"
        "qlength info3 = qlength info" "queries_length info3 = Suc (queries_length info)"
        "queries info3 ! Suc (queries_length info) =
           (queries info1 ! Suc (queries_length info))\<lparr>qkey := (qkey (queries info1 ! Suc (queries_length info)))[ki := c]\<rparr>"
        "\<forall>i. i \<noteq> Suc (queries_length info) \<longrightarrow> queries info3 ! i = queries info1 ! i"
        using put_key_inv [OF ok2, of ki c] ki p(3) by auto
      have "s = Go info3 (ki + 1) 0 QUERY_ON_KEY"
        using assms(2) \<open>st = _\<close> ki p r(1) False by (simp add: on_key_char_def)
      then show ?thesis
        using r p ki False assms(1) by (cases "ki = 63") (auto simp: parse_inv_def)
    qed
  qed
qed

lemma on_value_char_inv:
  assumes "parse_inv info ki vi" and "on_value_char info ki vi st c = Some s"
  shows "case s of Go info' ki' vi' st' \<Rightarrow> parse_inv info' ki' vi' \<and> qlength info' = qlength info
           \<and> ki' \<le> ki \<and> vi' \<le> vi + 1
         | Stop info' e \<Rightarrow> info_ok info'"
proof (cases "1024 \<le> vi")
  case True
  then show ?thesis using assms by (auto simp: on_value_char_def parse_inv_def split: if_splits)
next
  case False
  then have vi: "vi < 1024" by simp
  let ?n = "queries_length info"
  have inv: "info_ok info" "?n < qlength info" using assms(1) by (auto simp: parse_inv_def)
  show ?thesis
  proof (cases "st = QUERY_ON_VALUE_KEY_END")
    case False
    obtain info' where p: "put_value info ?n vi c = Some info'" "info_ok info'"
      "qlength info' = qlength info" "queries_length info' = ?n"
      "queries info' ! ?n = (queries info ! ?n)\<lparr>qvalue := (qvalue (queries info ! ?n))[vi := c]\<rparr>"
      "\<forall>i. i \<noteq> ?n \<longrightarrow> queries info' ! i = queries info ! i"
      using put_value_inv [OF inv vi, of c] by blast
    have "s = Go info' ki (vi + 1) st" using assms(2) False vi p(1) by (simp add: on_value_char_def)
    then show ?thesis using p vi assms(1) by (auto simp: parse_inv_def)
  next
    case True
    have ki: "ki < 64"
      using assms(2) True vi put_key_Some_bound [OF _ inv(1,2)]
      by (auto simp: on_value_char_def split: bind_splits)
    obtain info1 where p: "put_key info ?n ki NUL = Some info1" "info_ok info1"
      "qlength info1 = qlength info" "queries_length info1 = ?n"
      "queries info1 ! ?n = (queries info ! ?n)\<lparr>qkey := (qkey (queries info ! ?n))[ki := NUL]\<rparr>"
      "\<forall>i. i \<noteq> ?n \<longrightarrow> queries info1 ! i = queries info ! i"
      using put_key_inv [OF inv ki, of NUL] by blast
    have inv1: "queries_length info1 < qlength info1" using p inv by simp
    obtain info2 where r: "put_value info1 ?n vi c = Some info2" "info_ok info2"
      "qlength info2 = qlength info" "queries_length info2 = ?n"
      "queries info2 ! ?n = (queries info1 ! ?n)\<lparr>qvalue := (qvalue (queries info1 ! ?n))[vi := c]\<rparr>"
      "\<forall>i. i \<noteq> ?n \<longrightarrow> queries info2 ! i = queries info1 ! i"
      using put_value_inv [OF p(2) inv1 vi, of c] p by auto
    have s: "s = Go info2 0 (vi + 1) QUERY_ON_VALUE"
      using assms(2) True vi p r(1) by (simp add: on_value_char_def)
    have "qkey (queries info2 ! ?n) ! 63 = NUL"
      using p(5) r(5) ki assms(1) info_okD(2) [OF inv]
      by (cases "ki = 63") (auto simp: parse_inv_def query_ok_def)
    then show ?thesis using s p r vi assms(1) by (auto simp: parse_inv_def)
  qed
qed

lemma qp_char_inv:
  assumes "parse_inv info ki vi" and "qp_char info ki vi st c = Some s"
  shows "case s of Go info' ki' vi' st' \<Rightarrow> parse_inv info' ki' vi' \<and> qlength info' = qlength info
           \<and> ki' \<le> ki + 1 \<and> vi' \<le> vi + 1
         | Stop info' e \<Rightarrow> info_ok info'"
proof -
  have "queries_length info < qlength info" using assms(1) by (simp add: parse_inv_def)
  then show ?thesis
    using assms on_key_char_inv [OF assms(1), of st c s] on_value_char_inv [OF assms(1), of st c s]
    by (auto simp: qp_char_def split: if_splits qp_step.splits)
qed

lemma qp_char_defined:
  assumes "parse_inv info ki vi" and "ki < 64" and "vi < 1024"
  shows "\<exists>s. qp_char info ki vi st c = Some s"
proof -
  have inv: "info_ok info" "queries_length info < qlength info" using assms(1) by (auto simp: parse_inv_def)
  obtain k1 where k1: "\<And>d. put_key info (queries_length info) ki d = Some (k1 d)"
      "\<And>d. info_ok (k1 d)" "\<And>d. qlength (k1 d) = qlength info"
      "\<And>d. queries_length (k1 d) = queries_length info"
    using put_key_inv [OF inv assms(2)] by metis
  obtain v1 where v1: "\<And>d. put_value info (queries_length info) vi d = Some (v1 d)"
    using put_value_inv [OF inv assms(3)] by metis
  obtain v2 where v2: "put_value (k1 NUL) (queries_length (k1 NUL)) vi c = Some v2"
    using put_value_inv [of "k1 NUL" vi c] k1 inv assms(3) by auto
  obtain i1 where i1: "put_value info (queries_length info) vi NUL = Some i1"
      "info_ok (i1\<lparr>queries_length := Suc (queries_length i1)\<rparr>)"
    using close_query [OF assms] by blast
  have "\<exists>s. on_key_char info ki vi st c = Some s"
    using i1 assms(2) k1(1) put_key_inv [OF i1(2), of ki c]
    by (auto simp: on_key_char_def Let_def)
  moreover have "\<exists>s. on_value_char info ki vi st c = Some s"
    using assms(3) k1(1) v1 v2 by (auto simp: on_value_char_def)
  ultimately show ?thesis by (auto simp: qp_char_def)
qed

lemma qp_finish_inv:
  assumes "parse_inv info ki vi"
  shows "qp_finish info ki vi = Some (info', e) \<Longrightarrow> info_ok info'"
    and "ki < 64 \<Longrightarrow> vi < 1024 \<Longrightarrow> \<exists>r. qp_finish info ki vi = Some r"
proof -
  have inv: "info_ok info" "queries_length info < qlength info" using assms by (auto simp: parse_inv_def)
  show "info_ok info'" if f: "qp_finish info ki vi = Some (info', e)"
  proof (cases "ki < 64 \<and> vi < 1024")
    case True
    then obtain i1 where "put_value info (queries_length info) vi NUL = Some i1"
      "info_ok (i1\<lparr>queries_length := Suc (queries_length i1)\<rparr>)"
      using close_query [OF assms] by blast
    then show ?thesis using f inv by (auto simp: qp_finish_def split: bind_splits if_splits)
  next
    case False
    then show ?thesis
      using f inv put_value_Some_bound [OF _ inv]
      by (auto simp: qp_finish_def split: bind_splits if_splits)
  qed
  show "\<exists>r. qp_finish info ki vi = Some r" if "ki < 64" "vi < 1024"
    using close_query [OF assms that] info_okD(1,2) [OF inv] that
    by (auto simp: qp_finish_def query_ok_def)
qed

lemma qp_loop_inv:
  "parse_inv info ki vi \<Longrightarrow> qp_loop info ki vi st cs = Some (info', e) \<Longrightarrow> info_ok info'"
proof (induction cs arbitrary: info ki vi st)
  case Nil
  then show ?case by simp
next
  case (Cons c cs)
  show ?case
  proof (cases "c = NUL")
    case True
    then show ?thesis using Cons.prems qp_finish_inv(1) by auto
  next
    case False
    then obtain s where s: "qp_char info ki vi st c = Some s"
      using Cons.prems(2) by (auto split: option.splits)
    show ?thesis
      using Cons.prems(2) False s qp_char_inv [OF Cons.prems(1) s] Cons.IH
      by (auto split: qp_step.splits)
  qed
qed

lemma qp_loop_defined:
  assumes "parse_inv info ki vi" and "ki + length s < 64" and "vi + length s < 1024" and "c_string s"
  shows "\<exists>r. qp_loop info ki vi st (s @ NUL # rest) = Some r"
  using assms
proof (induction s arbitrary: info ki vi st)
  case Nil
  then show ?case using qp_finish_inv(2) by simp
next
  case (Cons c s)
  obtain x where x: "qp_char info ki vi st c = Some x"
    using qp_char_defined [OF Cons.prems(1)] Cons.prems by fastforce
  show ?case
  proof (cases x)
    case (Stop info' e)
    then show ?thesis using x Cons.prems(4) by simp
  next
    case (Go info' ki' vi' st')
    have "parse_inv info' ki' vi' \<and> ki' \<le> ki + 1 \<and> vi' \<le> vi + 1"
      using qp_char_inv [OF Cons.prems(1) x] Go by simp
    then have "\<exists>r. qp_loop info' ki' vi' st' (s @ NUL # rest) = Some r"
      using Cons.prems by (intro Cons.IH) auto
    then show ?thesis using x Go Cons.prems(4) by simp
  qed
qed

lemma parse_inv_init:
  assumes "qparser_init buffer n = Some info" and "0 < n"
  shows "parse_inv info 0 0"
  using assms
  by (auto simp: qparser_init_def parse_inv_def info_ok_def list_all_length query_ok_def
      zero_query_def nth_append split: if_splits)

section \<open>Lookup\<close>

lemma strcmp_terminated:
  assumes "NUL \<in> set b" and "c_string s"
  shows "\<exists>v. c_strcmp b (zt s) = Some v \<and> (v = 0) = (cstr b = s)"
proof -
  obtain r where r: "b = cstr b @ NUL # r" using cstr_split [OF assms(1)] by blast
  have "(c_strcmp (cstr b @ NUL # r) (s @ NUL # []) = Some 0) = (cstr b = s)"
    by (rule c_strcmp_eq_0) (use assms(2) in auto)
  moreover obtain v where "c_strcmp (cstr b @ NUL # r) (s @ NUL # []) = Some v"
    using c_strcmp_defined assms(2) by blast
  ultimately show ?thesis using r by (metis zt_def option.inject)
qed

lemma cstr_empty_iff: "NUL \<in> set b \<Longrightarrow> (b ! 0 = NUL) = (cstr b = [])"
  by (cases b) (auto simp: cstr_def)

definition matches :: "qparser_info \<Rightarrow> string \<Rightarrow> nat \<Rightarrow> bool" where
  "matches info s i \<longleftrightarrow> s \<noteq> [] \<and> cstr (qkey (queries info ! i)) = s"

lemma get_query_loop_find:
  assumes "info_ok info" and "c_string s"
  shows "get_query_loop info (zt s) i = Some (find (matches info s) [i..<queries_length info])"
proof (induction "queries_length info - i" arbitrary: i)
  case 0
  then show ?case by (subst get_query_loop.simps) simp
next
  case (Suc n)
  then have i: "i < queries_length info" by simp
  let ?q = "queries info ! i"
  have q: "query_terminated ?q" "query_ok ?q" "i < length (queries info)"
    using info_okD [OF assms(1)] i assms(1) by (auto simp: info_ok_def)
  obtain v where v: "c_strcmp (qkey ?q) (zt s) = Some v" "(v = 0) = (cstr (qkey ?q) = s)"
    using strcmp_terminated [OF _ assms(2)] q(1) by (auto simp: query_terminated_def)
  have k0: "(qkey ?q ! 0 = NUL) = (cstr (qkey ?q) = [])"
    using q(1) by (intro cstr_empty_iff) (simp add: query_terminated_def)
  have IH: "get_query_loop info (zt s) (i + 1) = Some (find (matches info s) [i + 1..<queries_length info])"
    using Suc by simp
  have u: "[i..<queries_length info] = i # [i + 1..<queries_length info]"
    using i by (simp add: upt_rec)
  have "get_query_loop info (zt s) i =
      (if matches info s i then Some (Some i) else get_query_loop info (zt s) (i + 1))"
    using i q v k0 by (subst get_query_loop.simps) (auto simp: matches_def query_ok_def)
  then show ?case unfolding u IH by simp
qed

lemma get_query_find:
  "info_ok info \<Longrightarrow> c_string s \<Longrightarrow>
   qparser_get_query info (zt s) = Some (find (matches info s) [0..<queries_length info])"
  by (simp add: qparser_get_query_def get_query_loop_find)

lemma find_map_of:
  "map_option (\<lambda>i. snd (xs ! i)) (find (\<lambda>i. fst (xs ! i) = k) [0..<length xs]) = map_of xs k"
proof (induction xs)
  case Nil
  then show ?case by simp
next
  case (Cons x xs)
  have "find (\<lambda>i. fst ((x # xs) ! i) = k) [0..<length (x # xs)] =
      (if fst x = k then Some 0 else map_option Suc (find (\<lambda>i. fst (xs ! i) = k) [0..<length xs]))"
  proof -
    have "[0..<length (x # xs)] = 0 # map Suc [0..<length xs]"
      by (simp only: length_Cons upt_conv_Cons [OF zero_less_Suc] map_Suc_upt)
    moreover have "find P (map Suc ys) = map_option Suc (find (P \<circ> Suc) ys)" for P ys
      by (induction ys) auto
    ultimately show ?thesis by (simp add: comp_def)
  qed
  then show ?case using Cons.IH by (cases x) (auto simp: option.map_comp comp_def)
qed

text \<open>The value a handler reads: the characters of the query found.\<close>

definition query_value :: "qparser_info \<Rightarrow> string \<Rightarrow> string option option" where
  "query_value info s = map_option (map_option (\<lambda>i. cstr (qvalue (queries info ! i))))
     (qparser_get_query info (zt s))"

lemma find_in_set: "find P xs = Some a \<Longrightarrow> a \<in> set xs"
  by (induction xs) (auto split: if_splits)

lemma query_value_map_of:
  assumes "info_ok info" and "c_string s"
  shows "query_value info s = Some (if s = [] then None else map_of (visible info) s)"
proof (cases "s = []")
  case True
  then have "find (matches info s) [0..<queries_length info] = None"
    by (simp add: find_None_iff matches_def)
  then show ?thesis using True get_query_find [OF assms] by (simp add: query_value_def)
next
  case False
  have l: "length (visible info) = queries_length info" and le: "queries_length info \<le> length (queries info)"
    using assms(1) by (auto simp: visible_def info_ok_def)
  have n: "visible info ! i = (cstr (qkey (queries info ! i)), cstr (qvalue (queries info ! i)))"
    if "i < queries_length info" for i using that le by (simp add: visible_def)
  have "find (matches info s) [0..<queries_length info] =
      find (\<lambda>i. fst (visible info ! i) = s) [0..<length (visible info)]"
    unfolding l using False n by (intro find_cong) (auto simp: matches_def)
  moreover have "map_option (\<lambda>i. cstr (qvalue (queries info ! i))) (find P [0..<queries_length info]) =
      map_option (\<lambda>i. snd (visible info ! i)) (find P [0..<length (visible info)])" for P
    unfolding l using n by (cases "find P [0..<queries_length info]") (auto dest!: find_in_set)
  ultimately show ?thesis
    using get_query_find [OF assms] False find_map_of [of "visible info" s]
    by (simp add: query_value_def l)
qed

section \<open>Limits and lost parameters\<close>

text \<open>Bringing the parser of a fresh array to the end of the first key.\<close>

lemma qp_start:
  assumes "qparser_init buffer n = Some info" and "0 < n" and "plain path"
  shows "qparser_parse info (path @ ''?'' @ rest) =
         qp_loop (mk_info n [] [] [] (n - 1) (drop n buffer)) 0 0 QUERY_ON_KEY rest"
proof -
  have "info = mk_info n [] [] [] (n - 1) (drop n buffer)"
    using assms init_mk [of n buffer] by (auto simp: qparser_init_def split: if_splits)
  then show ?thesis using assms(2,3) by (simp add: qparser_parse_def qp_loop_none qp_char_def)
qed

lemma qp_key_overflow:
  assumes "plain s" and "s \<noteq> []" and "length k = 64" and "length dn < n"
  shows "\<exists>i. qp_loop (mk_info n dn k v m ex) 64 vi QUERY_ON_KEY (s @ rest) = Some (i, QP_KeyLimit)"
  using assms by (cases s) (auto simp: qp_char_def on_key_char_def)

lemma qp_value_overflow:
  assumes "plain s" and "s \<noteq> []" and "length v = 1024" and "length dn < n"
  shows "\<exists>i. qp_loop (mk_info n dn k v m ex) ki 1024 QUERY_ON_VALUE (s @ rest) = Some (i, QP_ValueLimit)"
  using assms by (cases s) (auto simp: qp_char_def on_value_char_def)

lemma plain_append [simp]: "plain (s @ t) \<longleftrightarrow> plain s \<and> plain t"
  by (auto simp: plain_def)

lemma plain_take_drop: "plain s \<Longrightarrow> plain (take n s) \<and> plain (drop n s)"
  using plain_append [of "take n s" "drop n s"] by simp

definition same_prefix :: "qparser_info \<Rightarrow> qparser_info \<Rightarrow> bool" where
  "same_prefix info info' \<longleftrightarrow> qlength info' = qlength info \<and> queries_length info' = queries_length info \<and>
     (\<forall>i < queries_length info. queries info' ! i = queries info ! i)"

text \<open>The current key starts with a zero byte: the query will not be counted at the end.\<close>

definition erased :: "qparser_info \<Rightarrow> nat \<Rightarrow> nat \<Rightarrow> bool" where
  "erased info ki vi \<longleftrightarrow> parse_inv info ki vi \<and> qkey (queries info ! queries_length info) ! 0 = NUL"

lemma erased_key_char:
  assumes "erased info ki vi" and "0 < ki" and "ki < 64"
  shows "\<exists>info'. put_key info (queries_length info) ki c = Some info' \<and>
           erased info' (ki + 1) vi \<and> same_prefix info info'"
proof -
  have inv: "info_ok info" "queries_length info < qlength info"
    using assms(1) by (auto simp: erased_def parse_inv_def)
  show ?thesis
    using put_key_inv [OF inv assms(3), of c] assms
    by (cases "ki = 63") (auto simp: erased_def parse_inv_def same_prefix_def)
qed

lemma erased_value_char:
  assumes "erased info ki vi" and "vi < 1024"
  shows "\<exists>info'. put_value info (queries_length info) vi c = Some info' \<and>
           erased info' ki (vi + 1) \<and> same_prefix info info'"
proof -
  have inv: "info_ok info" "queries_length info < qlength info"
    using assms(1) by (auto simp: erased_def parse_inv_def)
  show ?thesis
    using put_value_inv [OF inv assms(2), of c] assms
    by (auto simp: erased_def parse_inv_def same_prefix_def)
qed

lemma erased_key_run:
  assumes "erased info ki vi" and "0 < ki" and "ki + length s < 64" and "plain s"
  shows "\<exists>info'. qp_loop info ki vi QUERY_ON_KEY (s @ rest) =
             qp_loop info' (ki + length s) vi QUERY_ON_KEY rest \<and>
           erased info' (ki + length s) vi \<and> same_prefix info info'"
  using assms
proof (induction s arbitrary: info ki)
  case Nil
  then show ?case by (auto simp: same_prefix_def)
next
  case (Cons c s)
  have ki: "ki < 64" using Cons.prems(3) by simp
  obtain i1 where i1: "put_key info (queries_length info) ki c = Some i1"
      "erased i1 (ki + 1) vi" "same_prefix info i1"
    using erased_key_char [OF Cons.prems(1,2) ki] by blast
  obtain i2 where i2: "qp_loop i1 (ki + 1) vi QUERY_ON_KEY (s @ rest) =
        qp_loop i2 (ki + 1 + length s) vi QUERY_ON_KEY rest"
      "erased i2 (ki + 1 + length s) vi" "same_prefix i1 i2"
    using Cons.IH [OF i1(2)] Cons.prems by auto
  have "queries_length info < qlength info"
    using Cons.prems(1) by (simp add: erased_def parse_inv_def)
  then show ?case
    using Cons.prems i1 i2 by (auto simp: qp_char_def on_key_char_def same_prefix_def)
qed

lemma erased_value_run:
  assumes "erased info ki vi" and "vi + length s \<le> 1024" and "plain s"
  shows "\<exists>info'. qp_loop info ki vi QUERY_ON_VALUE (s @ NUL # rest) = Some (info', QP_Done) \<and>
           same_prefix info info'"
  using assms
proof (induction s arbitrary: info vi)
  case Nil
  then have "info_ok info" "queries_length info < qlength info"
    "qkey (queries info ! queries_length info) ! 0 = NUL"
    by (auto simp: erased_def parse_inv_def)
  then show ?case
    using info_okD(1,2) by (force simp: qp_finish_def query_ok_def same_prefix_def)
next
  case (Cons c s)
  obtain i1 where i1: "put_value info (queries_length info) vi c = Some i1"
      "erased i1 ki (vi + 1)" "same_prefix info i1"
    using erased_value_char [OF Cons.prems(1)] Cons.prems(2) by auto
  obtain i2 where i2: "qp_loop i1 ki (vi + 1) QUERY_ON_VALUE (s @ NUL # rest) = Some (i2, QP_Done)"
      "same_prefix i1 i2"
    using Cons.IH [OF i1(2)] Cons.prems by auto
  have "queries_length info < qlength info"
    using Cons.prems(1) by (simp add: erased_def parse_inv_def)
  then show ?case
    using Cons.prems i1 i2 by (auto simp: qp_char_def on_value_char_def same_prefix_def)
qed

text \<open>The first value character after an equals sign, when the key is already erased or the
  key index is 0: the key stays erased.\<close>

lemma erased_first_value:
  assumes "parse_inv info ki vi" and "ki < 64" and "vi + length v \<le> 1024" and "plain v" and "v \<noteq> []"
    and "ki = 0 \<or> qkey (queries info ! queries_length info) ! 0 = NUL"
  shows "\<exists>info'. qp_loop info ki vi QUERY_ON_VALUE_KEY_END (v @ NUL # rest) = Some (info', QP_Done) \<and>
           same_prefix info info'"
proof -
  obtain c s where v: "v = c # s" using assms(5) by (cases v) auto
  let ?n = "queries_length info"
  have inv: "info_ok info" "?n < qlength info" using assms(1) by (auto simp: parse_inv_def)
  obtain i1 where p: "put_key info ?n ki NUL = Some i1" "info_ok i1"
      "qlength i1 = qlength info" "queries_length i1 = ?n"
      "queries i1 ! ?n = (queries info ! ?n)\<lparr>qkey := (qkey (queries info ! ?n))[ki := NUL]\<rparr>"
      "\<forall>i. i \<noteq> ?n \<longrightarrow> queries i1 ! i = queries info ! i"
    using put_key_inv [OF inv assms(2), of NUL] by blast
  have l: "length (qkey (queries info ! ?n)) = 64" using info_okD(2) [OF inv] by (simp add: query_ok_def)
  have e1: "erased i1 0 vi"
    using p assms(1,2,6) l by (cases "ki = 63"; cases "ki = 0") (auto simp: erased_def parse_inv_def)
  obtain i2 where i2: "put_value i1 ?n vi c = Some i2" "erased i2 0 (vi + 1)" "same_prefix i1 i2"
    using erased_value_char [OF e1] assms(3) v p(4) by auto
  obtain i3 where i3: "qp_loop i2 0 (vi + 1) QUERY_ON_VALUE (s @ NUL # rest) = Some (i3, QP_Done)"
      "same_prefix i2 i3"
    using erased_value_run [OF i2(2), of s] assms(3,4) v by auto
  show ?thesis
    using v assms(3,4) inv p i2 i3 by (auto simp: qp_char_def on_value_char_def same_prefix_def)
qed

lemma parse_inv_mk:
  assumes "length k < 64" and "length v \<le> 1024" and "n = Suc m + length dn"
    and "list_all (\<lambda>(k, v). length k < 64 \<and> length v < 1024) dn"
    and "ki < 64" and "vi \<le> 1024"
  shows "parse_inv (mk_info n dn k v m ex) ki vi"
proof -
  have g: "query_ok (filled a b)" if "length a < 64" "length b \<le> 1024" for a b
    using that by (simp add: query_ok_def filled_def)
  have t: "query_terminated (filled a b)" if "length a < 64" "length b < 1024" for a b
    using that put_at_beyond [of 0 a 63 "replicate 64 NUL"] put_at_beyond [of 0 b 1023 "replicate 1024 NUL"]
      nth_mem [of 63 "put_at (replicate 64 NUL) 0 a"] nth_mem [of 1023 "put_at (replicate 1024 NUL) 0 b"]
    by (auto simp: query_terminated_def filled_def)
  have z: "query_ok zero_query" "qkey zero_query ! 63 = NUL" by (auto simp: zero_query_def query_ok_def)
  have "qkey (filled k v) ! 63 = NUL"
    using assms(1) put_at_beyond [of 0 k 63 "replicate 64 NUL"] by (simp add: filled_def)
  moreover have "list_all query_ok (map (\<lambda>(k, v). filled k v) dn)"
    and "list_all query_terminated (map (\<lambda>(k, v). filled k v) dn)"
    using assms(4) g t by (auto simp: list_all_iff)
  ultimately show ?thesis
    using assms g z
    by (auto simp: parse_inv_def info_ok_def mk_info_def list_all_iff nth_append nth_Cons' less_Suc_eq)
qed

section \<open>Properties\<close>

lemma parse_pairs_done:
  assumes "qparser_init buffer n = Some info" and "plain path"
    and "list_all good_pair ps" and "ps \<noteq> []" and "length ps \<le> n"
  shows "qparser_parse info (path @ ''?'' @ render_pairs ps @ NUL # r) =
    Some (done_info n ps (n - length ps) (drop n buffer), QP_Done)"
proof -
  obtain k v qs where ps: "ps = (k, v) # qs" using assms(4) by (cases ps) auto
  have g: "good_pair (k, v)" using assms(3) ps by simp
  have n: "0 < n" "n \<le> length buffer" and info: "info = mk_info n [] [] [] (n - 1) (drop n buffer)"
    using assms(1,5) ps init_mk [of n buffer] by (auto simp: qparser_init_def split: if_splits)
  have "qparser_parse info (path @ ''?'' @ render_pairs ps @ NUL # r) =
      qp_loop info 0 0 QUERY_ON_KEY (k @ ''='' @ v @ pairs_tail qs @ NUL # r)"
    using assms(2) n info
    by (simp add: qparser_parse_def qp_loop_none ps render_pairs_Cons qp_char_def del: render_pairs.simps)
  also have "\<dots> = qp_loop (mk_info n [] k [] (n - 1) (drop n buffer)) (length k) 0 QUERY_ON_KEY
      (''='' @ v @ pairs_tail qs @ NUL # r)"
    using qp_loop_key [of k "[]" "[]" n "[]" "n - 1" "drop n buffer" 0 "''='' @ v @ pairs_tail qs @ NUL # r"]
      g n info by (simp add: good_pair_def)
  also have "\<dots> = qp_loop (mk_info n [] k v (n - 1) (drop n buffer)) 0 (length v) QUERY_ON_VALUE
      (pairs_tail qs @ NUL # r)"
    by (rule qp_loop_pair) (use g n in \<open>auto simp: good_pair_def\<close>)
  also have "\<dots> = Some (done_info n ([] @ (k, v) # qs) (n - 1 - length qs) (drop n buffer), QP_Done)"
    by (rule qp_loop_pairs) (use assms(3,5) ps in auto)
  finally show ?thesis using ps by simp
qed

lemma parse_pairs:
  assumes "qparser_init buffer n = Some info" and "plain path"
    and "list_all good_pair ps" and "ps \<noteq> []" and "length ps \<le> n"
  shows "\<exists>info'. qparser_parse info (path @ ''?'' @ render_pairs ps @ NUL # r) = Some (info', QP_Done)
           \<and> visible info' = ps"
  using parse_pairs_done [OF assms] visible_done [OF assms(3)] by auto

lemma parse_no_query:
  assumes "qparser_init buffer n = Some info" and "plain path" and "0 < n"
  shows "qparser_parse info (path @ NUL # r) = Some (info, QP_Done) \<and> visible info = []"
proof -
  have "0 < n" "n \<le> length buffer" and info: "info = mk_info n [] [] [] (n - 1) (drop n buffer)"
    using assms(1,3) init_mk [of n buffer] by (auto simp: qparser_init_def split: if_splits)
  then have "queries_length info < qlength info" by simp
  then have "qparser_parse info (path @ NUL # r) = qp_finish info 0 0"
    using qp_loop_none [OF assms(2), of info 0 0 "NUL # r"] by (simp add: qparser_parse_def)
  also have "\<dots> = Some (info, QP_Done)"
    unfolding info by (simp add: qp_finish_def mk_info_def filled_def)
  finally show ?thesis unfolding info by (simp add: visible_def mk_info_def)
qed

lemma parse_info_ok:
  "qparser_init buffer n = Some info \<Longrightarrow> 0 < n \<Longrightarrow> qparser_parse info url = Some (info', e) \<Longrightarrow> info_ok info'"
  using parse_inv_init qp_loop_inv unfolding qparser_parse_def by blast

text \<open>A query that holds a pair and nothing else.\<close>

definition pair_query :: "string \<times> string \<Rightarrow> qparser_query" where
  "pair_query p = (case p of (k, v) \<Rightarrow>
     \<lparr>qkey = k @ replicate (64 - length k) NUL, qvalue = v @ replicate (1024 - length v) NUL\<rparr>)"

lemma filled_pair: "good_pair (k, v) \<Longrightarrow> filled k v = pair_query (k, v)"
  by (simp add: filled_def pair_query_def good_pair_def put_at_def)

lemma done_pairs:
  assumes "list_all good_pair ps"
  shows "done_info n ps m ex = \<lparr>qlength = n, queries_length = length ps,
    queries = map pair_query ps @ replicate m zero_query @ ex\<rparr>"
proof -
  have "map (\<lambda>(k, v). filled k v) ps = map pair_query ps"
    using assms by (auto simp: list_all_iff filled_pair)
  then show ?thesis by (simp add: done_info_def)
qed

text \<open>C20: Parsing inverts rendering, down to the last byte of the memory. For a path without separators,
  followed by \<open>?\<close> and good pairs joined by \<open>=\<close> and \<open>&\<close> if there are any, at most as many as there
  are queries, the parser finishes normally: the first queries hold exactly these pairs in
  order, padded with zeros, every other query of the parser is zero, and what the buffer has
  behind them is as it was. So the visible pairs are those that were rendered.\<close>
theorem parse_render:
  assumes "qparser_init buffer n = Some info" and "0 < n" and "plain path"
    and "list_all good_pair ps" and "length ps \<le> n"
  shows "qparser_parse info (path @ (if ps = [] then [] else ''?'' @ render_pairs ps) @ NUL # r) =
      Some (\<lparr>qlength = n, queries_length = length ps,
        queries = map pair_query ps @ replicate (n - length ps) zero_query @ drop n buffer\<rparr>, QP_Done) \<and>
    visible \<lparr>qlength = n, queries_length = length ps,
        queries = map pair_query ps @ replicate (n - length ps) zero_query @ drop n buffer\<rparr> = ps"
proof -
  have "qparser_parse info (path @ (if ps = [] then [] else ''?'' @ render_pairs ps) @ NUL # r) =
      Some (done_info n ps (n - length ps) (drop n buffer), QP_Done)"
  proof (cases "ps = []")
    case True
    have "info = done_info n [] n (drop n buffer)"
      using assms(1) by (auto simp: qparser_init_def done_info_def split: if_splits)
    then show ?thesis using parse_no_query [OF assms(1,3,2), of r] True by simp
  next
    case False
    then show ?thesis using parse_pairs_done [OF assms(1,3,4) False assms(5)] by simp
  qed
  then show ?thesis using visible_done [OF assms(4)] by (simp add: done_pairs [OF assms(4)])
qed

definition ten_queries :: qparser_info where
  "ten_queries = \<lparr>qlength = 10, queries_length = 0, queries = replicate 10 zero_query\<rparr>"

lemma ten_queries_init: "qparser_init (replicate 10 zero_query) 10 = Some ten_queries"
  by (simp add: qparser_init_def ten_queries_def)

theorem parse_render_witness:
  "\<exists>info'. qparser_parse ten_queries (''/api/login?email=a@b&password=x'' @ [NUL]) = Some (info', QP_Done)
     \<and> visible info' = [(''email'', ''a@b''), (''password'', ''x'')] \<and> drop 2 (queries info') = replicate 8 zero_query"
  using parse_render [OF ten_queries_init _, of "''/api/login''" "[(''email'', ''a@b''), (''password'', ''x'')]" "[]"]
  by (simp add: good_pair_def)

text \<open>Whatever URL was parsed, every query that a lookup can see holds a terminated key and
  a terminated value, so looking up any key afterwards never reads out of bounds and returns
  the value of the first visible query with that (non-empty) key.\<close>
theorem parse_then_lookup:
  assumes "qparser_init buffer n = Some info" and "0 < n"
    and "qparser_parse info url = Some (info', e)" and "c_string s"
  shows "info_ok info' \<and> query_value info' s = Some (if s = [] then None else map_of (visible info') s)"
proof -
  have "info_ok info'"
    using parse_inv_init [OF assms(1,2)] assms(3) qp_loop_inv unfolding qparser_parse_def by blast
  then show ?thesis using query_value_map_of assms(4) by blast
qed

theorem parse_then_lookup_witness:
  "\<exists>info'. qparser_parse ten_queries (''/a?x=1&y=2&x=3'' @ [NUL]) = Some (info', QP_Done)
     \<and> query_value info' ''x'' = Some (Some ''1'') \<and> query_value info' ''z'' = Some None"
proof -
  obtain info' where p: "qparser_parse ten_queries (''/a?x=1&y=2&x=3'' @ [NUL]) = Some (info', QP_Done)"
      "visible info' = [(''x'', ''1''), (''y'', ''2''), (''x'', ''3'')]"
    using parse_pairs [OF ten_queries_init, of "''/a''" "[(''x'', ''1''), (''y'', ''2''), (''x'', ''3'')]" "[]"]
    by (auto simp: good_pair_def)
  show ?thesis
    using parse_then_lookup [OF ten_queries_init _ p(1), of "''x''"]
      parse_then_lookup [OF ten_queries_init _ p(1), of "''z''"] p by simp
qed

text \<open>C21: A URL of fewer than 64 characters is always parsed without an access outside the
  arrays, however malformed it is.\<close>
theorem parse_short_safe:
  assumes "qparser_init buffer n = Some info" and "0 < n" and "c_string url" and "length url < 64"
  shows "\<exists>r. qparser_parse info (url @ NUL # rest) = Some r"
  unfolding qparser_parse_def
  by (rule qp_loop_defined [OF parse_inv_init [OF assms(1,2)]]) (use assms in auto)

theorem parse_short_safe_witness:
  "\<exists>r. qparser_parse ten_queries (''/a?&&==?x&y?=&z=&'' @ [NUL]) = Some r"
  using parse_short_safe [OF ten_queries_init, of "''/a?&&==?x&y?=&z=&''" "[]"] by simp

text \<open>The exact limits for one parameter. A key of at most 63 and a value of at most 1023
  characters are stored; a key of more than 64 characters and a value of more than 1024 are
  refused with a message; but a key of exactly 64 characters has its terminator written
  behind the key array, and a value of exactly 1024 characters behind the value array.\<close>
theorem parse_single_limits:
  assumes "qparser_init buffer n = Some info" and "0 < n" and "plain path"
    and "plain k" and "plain v" and "k \<noteq> []" and "v \<noteq> []"
  shows "map_option snd (qparser_parse info (path @ ''?'' @ k @ ''='' @ v @ NUL # r)) =
           (if 64 < length k then Some QP_KeyLimit
            else if length k = 64 then None
            else if length v < 1024 then Some QP_Done
            else if length v = 1024 then None
            else Some QP_ValueLimit)"
proof -
  let ?mk = "\<lambda>k v. mk_info n [] k v (n - 1) (drop n buffer)"
  have start: "qparser_parse info (path @ ''?'' @ k @ ''='' @ v @ NUL # r) =
      qp_loop (?mk [] []) 0 0 QUERY_ON_KEY (k @ ''='' @ v @ NUL # r)"
    by (rule qp_start [OF assms(1-3)])
  obtain c v' where v: "v = c # v'" using assms(7) by (cases v) auto
  have key: "qp_loop (?mk [] []) 0 0 QUERY_ON_KEY (k @ ''='' @ v @ NUL # r) =
      qp_loop (?mk k []) (length k) 0 QUERY_ON_KEY (''='' @ v @ NUL # r)" if "length k \<le> 64"
    using qp_loop_key [of k "[]" "[]" n "[]" "n - 1" "drop n buffer" 0] that assms(2,4) by simp
  have pair: "qp_loop (?mk k []) (length k) 0 QUERY_ON_KEY (''='' @ v' @ rest) =
      qp_loop (?mk k v') 0 (length v') QUERY_ON_VALUE rest"
    if "length k < 64" "v' \<noteq> []" "length v' \<le> 1024" "plain v'" for v' rest
    by (rule qp_loop_pair) (use that assms(2) in auto)
  consider "64 < length k" | "length k = 64" | "length k < 64" "length v \<le> 1024"
    | "length k < 64" "1024 < length v" by linarith
  then show ?thesis
  proof cases
    case 1
    have k: "k = take 64 k @ drop 64 k" "plain (take 64 k)" "plain (drop 64 k)" "drop 64 k \<noteq> []"
      using 1 assms(4) plain_take_drop by auto
    have "qp_loop (?mk [] []) 0 0 QUERY_ON_KEY (take 64 k @ drop 64 k @ ''='' @ v @ NUL # r) =
        qp_loop (?mk (take 64 k) []) 64 0 QUERY_ON_KEY (drop 64 k @ ''='' @ v @ NUL # r)"
      using qp_loop_key [of "take 64 k" "[]" "[]" n "[]" "n - 1" "drop n buffer" 0] 1 k(2) assms(2) by simp
    moreover obtain i where
      "qp_loop (?mk (take 64 k) []) 64 0 QUERY_ON_KEY (drop 64 k @ ''='' @ v @ NUL # r) = Some (i, QP_KeyLimit)"
      using qp_key_overflow [of "drop 64 k" "take 64 k" "[]" n "[]" "n - 1" "drop n buffer" 0] k 1 assms(2) by auto
    ultimately show ?thesis using start 1 by (metis append.assoc append_take_drop_id option.simps(9) snd_conv)
  next
    case 2
    have "put_key (?mk k []) 0 64 NUL = None"
      using 2 by (simp add: put_key_def mk_info_def filled_def wr_def)
    then have "qp_loop (?mk k []) 64 0 QUERY_ON_KEY (''='' @ v @ NUL # r) = None"
      using v assms(2,5) by (simp add: qp_char_def on_value_char_def)
    then show ?thesis using start key 2 by simp
  next
    case 3
    have e: "qparser_parse info (path @ ''?'' @ k @ ''='' @ v @ NUL # r) =
        qp_finish (?mk k v) 0 (length v)"
      using start key pair [of v] 3 assms(5,7) by simp
    show ?thesis
    proof (cases "length v = 1024")
      case True
      have hd: "rd (qkey (filled k v)) 0 = Some (hd k)" "hd k \<noteq> NUL"
        using filled_hd [of k "[CHR ''x'']"] assms(4,6) 3 by (auto simp: good_pair_def filled_def)
      have "put_value (?mk k v) 0 (length v) NUL = None"
        using True by (simp add: put_value_def mk_info_def wr_def rd_def filled_def)
      then have "qp_finish (?mk k v) 0 (length v) = None"
        using hd mk_info_cur(1) [of n "[]" k v "n - 1" "drop n buffer"]
          mk_info_cur(2) [of "[]" n k v "n - 1" "drop n buffer"] by (simp add: qp_finish_def)
      then show ?thesis using e 3 True by simp
    next
      case False
      then have "good_pair (k, v)" using 3 assms by (simp add: good_pair_def)
      then show ?thesis using e qp_finish_mk [of k v n "[]"] 3 False by simp
    qed
  next
    case 4
    have p: "plain (take 1024 v)" "plain (drop 1024 v)" "drop 1024 v \<noteq> []" "take 1024 v \<noteq> []"
      using 4 assms(5,7) plain_take_drop by auto
    have "qp_loop (?mk k []) (length k) 0 QUERY_ON_KEY (''='' @ take 1024 v @ drop 1024 v @ NUL # r) =
        qp_loop (?mk k (take 1024 v)) 0 1024 QUERY_ON_VALUE (drop 1024 v @ NUL # r)"
      using pair [of "take 1024 v" "drop 1024 v @ NUL # r"] 4 p by simp
    moreover obtain i where
      "qp_loop (?mk k (take 1024 v)) 0 1024 QUERY_ON_VALUE (drop 1024 v @ NUL # r) = Some (i, QP_ValueLimit)"
      using qp_value_overflow [of "drop 1024 v" "take 1024 v" "[]" n k "n - 1" "drop n buffer" 0] p 4 assms(2) by auto
    ultimately have "qp_loop (?mk k []) (length k) 0 QUERY_ON_KEY (''='' @ v @ NUL # r) = Some (i, QP_ValueLimit)"
      by (metis append.assoc append_take_drop_id)
    then show ?thesis using start key 4 by simp
  qed
qed

theorem parse_single_limits_witness:
  "qparser_parse ten_queries (''/a?'' @ replicate 64 CHR ''k'' @ ''=v'' @ [NUL]) = None \<and>
   qparser_parse ten_queries (''/a?k='' @ replicate 1024 CHR ''v'' @ [NUL]) = None"
  using parse_single_limits [OF ten_queries_init, of "''/a''" "replicate 64 CHR ''k''" "''v''" "[]"]
    parse_single_limits [OF ten_queries_init, of "''/a''" "''k''" "replicate 1024 CHR ''v''" "[]"]
  by (simp add: plain_def)

text \<open>An equals sign inside a value erases the parameter: after a URL with the single
  parameter \<open>k=v=w\<close> the parser reports success and no query is visible, so a lookup of
  \<open>k\<close> finds nothing.\<close>
theorem equals_in_value_lost:
  assumes "qparser_init buffer n = Some info" and "0 < n" and "plain path"
    and "good_pair (k, v)" and "good_pair (k, w)" and "length v + length w \<le> 1024"
  shows "\<exists>info'. qparser_parse info (path @ ''?'' @ k @ ''='' @ v @ ''='' @ w @ NUL # r) = Some (info', QP_Done)
           \<and> visible info' = []"
proof -
  let ?mk = "\<lambda>k v. mk_info n [] k v (n - 1) (drop n buffer)"
  have k: "plain k" "length k < 64" and v: "plain v" "v \<noteq> []" "length v < 1024"
    and w: "plain w" "w \<noteq> []" using assms(4,5) by (auto simp: good_pair_def)
  have "qparser_parse info (path @ ''?'' @ k @ ''='' @ v @ ''='' @ w @ NUL # r) =
      qp_loop (?mk k []) (length k) 0 QUERY_ON_KEY (''='' @ v @ ''='' @ w @ NUL # r)"
    using qp_start [OF assms(1-3), of "k @ ''='' @ v @ ''='' @ w @ NUL # r"]
      qp_loop_key [of k "[]" "[]" n "[]" "n - 1" "drop n buffer" 0 "''='' @ v @ ''='' @ w @ NUL # r"]
      k assms(2) by simp
  also have "\<dots> = qp_loop (?mk k v) 0 (length v) QUERY_ON_VALUE (''='' @ w @ NUL # r)"
    by (rule qp_loop_pair) (use k v assms(2) in auto)
  also have "\<dots> = qp_loop (?mk k v) 0 (length v) QUERY_ON_VALUE_KEY_END (w @ NUL # r)"
    using assms(2) by (simp add: qp_char_def)
  finally have e: "qparser_parse info (path @ ''?'' @ k @ ''='' @ v @ ''='' @ w @ NUL # r) =
      qp_loop (?mk k v) 0 (length v) QUERY_ON_VALUE_KEY_END (w @ NUL # r)" .
  have "parse_inv (?mk k v) 0 (length v)"
    by (rule parse_inv_mk) (use k v assms(2) in auto)
  then obtain info' where "qp_loop (?mk k v) 0 (length v) QUERY_ON_VALUE_KEY_END (w @ NUL # r) = Some (info', QP_Done)"
      "same_prefix (?mk k v) info'"
    using erased_first_value [of "?mk k v" 0 "length v" w r] w assms(6) by auto
  then show ?thesis using e by (auto simp: visible_def same_prefix_def)
qed

theorem equals_in_value_lost_witness:
  "\<exists>info'. qparser_parse ten_queries (''/api/login?password=aGVs=bG8'' @ [NUL]) = Some (info', QP_Done)
     \<and> visible info' = []"
  using equals_in_value_lost [OF ten_queries_init, of "''/api/login''" "''password''" "''aGVs''" "''bG8''" "[]"]
  by (simp add: good_pair_def)

text \<open>An empty value hides the next parameter: after the pairs \<open>j=\<close> and \<open>k=v\<close> the
  only visible query is \<open>j\<close> with the empty value, because the second key is written
  behind the stale key index of the first.\<close>
theorem empty_value_hides_next:
  assumes "qparser_init buffer n = Some info" and "1 < n" and "plain path"
    and "good_pair (j, v)" and "good_pair (k, v)" and "length j + length k < 64"
  shows "\<exists>info'. qparser_parse info (path @ ''?'' @ j @ ''=&'' @ k @ ''='' @ v @ NUL # r) = Some (info', QP_Done)
           \<and> visible info' = [(j, [])]"
proof -
  let ?mk = "\<lambda>k v. mk_info n [] k v (n - 1) (drop n buffer)"
  let ?nx = "mk_info n [(j, [])] [] [] (n - 1 - 1) (drop n buffer)"
  have j: "plain j" "j \<noteq> []" "length j < 64" and k: "plain k" "k \<noteq> []" and v: "plain v" "v \<noteq> []" "length v < 1024"
    using assms(4,5) by (auto simp: good_pair_def)
  obtain c k' where kc: "k = c # k'" using k by (cases k) auto
  have "qparser_parse info (path @ ''?'' @ j @ ''=&'' @ k @ ''='' @ v @ NUL # r) =
      qp_loop (?mk j []) (length j) 0 QUERY_ON_KEY (''=&'' @ k @ ''='' @ v @ NUL # r)"
    using qp_start [OF assms(1) _ assms(3), of "j @ ''=&'' @ k @ ''='' @ v @ NUL # r"]
      qp_loop_key [of j "[]" "[]" n "[]" "n - 1" "drop n buffer" 0 "''=&'' @ k @ ''='' @ v @ NUL # r"]
      j assms(2) by simp
  also have "\<dots> = qp_loop (?mk j []) (length j) 0 QUERY_ON_KEY_VALUE_END (k @ ''='' @ v @ NUL # r)"
    using assms(2) by (simp add: qp_char_def)
  finally have e: "qparser_parse info (path @ ''?'' @ j @ ''=&'' @ k @ ''='' @ v @ NUL # r) = \<dots>" .
  have "parse_inv ?nx (length j) 0"
    by (rule parse_inv_mk) (use j assms(2) in auto)
  then have "erased ?nx (length j) 0"
    using mk_info_cur(1) [of n "[(j, [])]" "[]" "[]" "n - 1 - 1" "drop n buffer"]
    by (simp add: erased_def) (simp add: filled_def)
  then obtain i1 where i1: "put_key ?nx 1 (length j) c = Some i1" "erased i1 (length j + 1) 0" "same_prefix ?nx i1"
    using erased_key_char [of ?nx "length j" 0 c] j by auto
  have f: "qp_loop (?mk j []) (length j) 0 QUERY_ON_KEY_VALUE_END (k @ ''='' @ v @ NUL # r) =
      qp_loop i1 (length j + 1) 0 QUERY_ON_KEY (k' @ ''='' @ v @ NUL # r)"
    using i1(1) kc k(1) j(3) assms(2) put_value_mk_NUL [of "[]" n "[]" j "n - 1" "drop n buffer"]
      mk_info_next [of "n - 1" "[]" n j "[]" "drop n buffer"]
    by (simp add: qp_char_def on_key_char_def)
  obtain i2 where i2: "qp_loop i1 (length j + 1) 0 QUERY_ON_KEY (k' @ ''='' @ v @ NUL # r) =
        qp_loop i2 (length j + length k) 0 QUERY_ON_KEY (''='' @ v @ NUL # r)"
      "erased i2 (length j + length k) 0" "same_prefix i1 i2"
    using erased_key_run [OF i1(2), of k' "''='' @ v @ NUL # r"] kc k(1) assms(6) by auto
  have g: "qp_loop i2 (length j + length k) 0 QUERY_ON_KEY (''='' @ v @ NUL # r) =
      qp_loop i2 (length j + length k) 0 QUERY_ON_VALUE_KEY_END (v @ NUL # r)"
    using i2(2) by (simp add: qp_char_def erased_def parse_inv_def)
  obtain i3 where i3: "qp_loop i2 (length j + length k) 0 QUERY_ON_VALUE_KEY_END (v @ NUL # r) = Some (i3, QP_Done)"
      "same_prefix i2 i3"
    using erased_first_value [of i2 "length j + length k" 0 v r] i2(2) v assms(6) by (auto simp: erased_def)
  have p: "qparser_parse info (path @ ''?'' @ j @ ''=&'' @ k @ ''='' @ v @ NUL # r) = Some (i3, QP_Done)"
    using e f i2(1) g i3(1) by simp
  have "info_ok i3"
    using p parse_inv_init [OF assms(1)] assms(2) qp_loop_inv unfolding qparser_parse_def by force
  moreover have "queries_length i3 = 1" "queries i3 ! 0 = filled j []"
    using i1(3) i2(3) i3(2) by (auto simp: same_prefix_def) (simp add: mk_info_def)
  ultimately have "visible i3 = [(cstr (qkey (filled j [])), cstr (qvalue (filled j [])))]"
    by (cases "queries i3") (auto simp: visible_def info_ok_def)
  then show ?thesis
    using p j cstr_put_zeros [of j 64] cstr_put_zeros [of "[]" 1024]
    by (simp add: filled_def plain_c_string)
qed

theorem empty_value_hides_next_witness:
  "\<exists>info'. qparser_parse ten_queries (''/api/register?name=&email=x'' @ [NUL]) = Some (info', QP_Done)
     \<and> visible info' = [(''name'', [])]"
  using empty_value_hides_next [OF ten_queries_init, of "''/api/register''" "''name''" "''x''" "''email''" "[]"]
  by (simp add: good_pair_def)

end
