(* ===== verification/Tablec.thy ===== *)
theory Tablec
  imports Prelude
begin

text \<open>
  \<^verbatim>\<open>server/libs/tablec.c\<close>: the chained hash table that holds the sessions. A bucket
  is an array of slots whose key may be the null pointer; a lookup and a deletion search from
  the last slot down, an insertion takes the last free slot and doubles a full array.
  A key is the string its pointer points to; a value is a pointer, \<^term>\<open>None\<close> when null.
  The table's own counter is a 64-bit word, because the code lets it wrap. An access outside
  an array, and a hash with capacity 0 (a division by zero), trap.
  The locale at the end is what the server relies on when it uses the table as its session
  store, interpreted on the operations of this theory.
\<close>

section \<open>Data\<close>

record 'v tablec_bucket =
  bkey :: "string option"
  bvalue :: "'v option"

record 'v tablec_buckets =
  bucket_array :: "'v tablec_bucket list"
  bucket_length :: nat
  bucket_capacity :: nat

record 'v tablec_ht =
  buckets :: "'v tablec_buckets list"
  table_length :: "64 word"
  table_capacity :: nat

definition null_bucket :: "'v tablec_bucket" where
  "null_bucket = \<lparr>bkey = None, bvalue = None\<rparr>"

section \<open>Operations\<close>

definition tablec_init :: "nat \<Rightarrow> 'v tablec_ht" where
  "tablec_init max_capacity =
     \<lparr>buckets = replicate max_capacity
        \<lparr>bucket_array = [null_bucket], bucket_length = 0, bucket_capacity = 1\<rparr>,
      table_length = 0, table_capacity = max_capacity\<rparr>"

fun hash_loop :: "64 word \<Rightarrow> string \<Rightarrow> 64 word" where
  "hash_loop h [] = h"
| "hash_loop h (c # cs) = hash_loop (h * 37 + of_nat (of_char c)) cs"

definition tablec_hash :: "'v tablec_ht \<Rightarrow> string \<Rightarrow> nat option" where
  "tablec_hash t key =
     (if table_capacity t = 0 then None else Some (unat (hash_loop 0 key) mod table_capacity t))"

text \<open>The two downward loops over the slots of a bucket: the first free slot from the top, and
  the first slot from the top that holds the key.\<close>

fun free_slot :: "'v tablec_bucket list \<Rightarrow> nat \<Rightarrow> nat option option" where
  "free_slot arr 0 = Some None"
| "free_slot arr (Suc i) = do {
     b \<leftarrow> rd arr i;
     if bkey b \<noteq> None then free_slot arr i else Some (Some i) }"

fun find_slot :: "'v tablec_bucket list \<Rightarrow> string \<Rightarrow> nat \<Rightarrow> nat option option" where
  "find_slot arr key 0 = Some None"
| "find_slot arr key (Suc i) = do {
     b \<leftarrow> rd arr i;
     if bkey b = Some key then Some (Some i) else find_slot arr key i }"

definition set_bucket :: "'v tablec_ht \<Rightarrow> nat \<Rightarrow> 'v tablec_buckets \<Rightarrow> 'v tablec_ht" where
  "set_bucket t h b = t\<lparr>buckets := (buckets t)[h := b]\<rparr>"

definition tablec_set :: "'v tablec_ht \<Rightarrow> string \<Rightarrow> 'v option \<Rightarrow> 'v tablec_ht option" where
  "tablec_set t key value = do {
     h \<leftarrow> tablec_hash t key;
     b \<leftarrow> rd (buckets t) h;
     if bucket_length b = 0 then do {
       b0 \<leftarrow> rd (bucket_array b) 0;
       if bkey b0 = None then
         Some ((set_bucket t h (b\<lparr>bucket_array := (bucket_array b)[0 := \<lparr>bkey = Some key, bvalue = value\<rparr>],
                                bucket_length := 1\<rparr>))
               \<lparr>table_length := table_length t + 1\<rparr>)
       else
         Some ((set_bucket t h \<lparr>bucket_array = [b0, \<lparr>bkey = Some key, bvalue = value\<rparr>],
                              bucket_length = 2, bucket_capacity = 2\<rparr>)
               \<lparr>table_length := table_length t + 1\<rparr>) }
     else do {
       free \<leftarrow> free_slot (bucket_array b) (bucket_capacity b);
       case free of
         Some i \<Rightarrow>
           Some ((set_bucket t h (b\<lparr>bucket_array := (bucket_array b)[i := \<lparr>bkey = Some key, bvalue = value\<rparr>],
                                  bucket_length := bucket_length b + 1\<rparr>))
                 \<lparr>table_length := table_length t + 1\<rparr>)
       | None \<Rightarrow> do {
           newArray \<leftarrow> wr (take (bucket_capacity b) (bucket_array b) @ replicate (bucket_capacity b) null_bucket)
                        (bucket_length b) \<lparr>bkey = Some key, bvalue = value\<rparr>;
           Some (set_bucket t h \<lparr>bucket_array = newArray, bucket_length = bucket_length b + 1,
                               bucket_capacity = bucket_capacity b * 2\<rparr>) } } }"

text \<open>The slot found, \<^verbatim>\<open>None\<close> for the null pointer.\<close>

definition tablec_get :: "'v tablec_ht \<Rightarrow> string \<Rightarrow> 'v tablec_bucket option option" where
  "tablec_get t key = do {
     h \<leftarrow> tablec_hash t key;
     b \<leftarrow> rd (buckets t) h;
     if bucket_length b = 0 then Some None
     else do {
       r \<leftarrow> find_slot (bucket_array b) key (bucket_capacity b);
       case r of
         None \<Rightarrow> Some None
       | Some i \<Rightarrow> map_option Some (rd (bucket_array b) i) } }"

definition tablec_del :: "'v tablec_ht \<Rightarrow> string \<Rightarrow> 'v tablec_ht option" where
  "tablec_del t key = do {
     h \<leftarrow> tablec_hash t key;
     b \<leftarrow> rd (buckets t) h;
     if bucket_length b = 0 then Some t
     else do {
       r \<leftarrow> find_slot (bucket_array b) key (bucket_capacity b);
       case r of
         None \<Rightarrow> Some t
       | Some i \<Rightarrow>
           Some ((set_bucket t h (b\<lparr>bucket_array := (bucket_array b)[i := null_bucket],
                                  bucket_length := bucket_length b - 1\<rparr>))
                 \<lparr>table_length := table_length t - 1\<rparr>) } }"

text \<open>\<^verbatim>\<open>(int)\<close> of the 64-bit difference keeps its low 32 bits.\<close>

definition tablec_full :: "'v tablec_ht \<Rightarrow> int" where
  "tablec_full t =
     (if of_nat (table_capacity t) = table_length t then - 1
      else sint (ucast (of_nat (table_capacity t) - table_length t) :: 32 word))"

text \<open>The blocks handed to \<^verbatim>\<open>free\<close>, in order (the array of buckets comes last).\<close>

definition tablec_cleanup :: "'v tablec_ht \<Rightarrow> 'v tablec_bucket list list option" where
  "tablec_cleanup t =
     (if table_capacity t \<le> length (buckets t)
      then Some (rev (map bucket_array (take (table_capacity t) (buckets t)))) else None)"

text \<open>
  The inner loop of \<^verbatim>\<open>resize\<close>, \<^verbatim>\<open>while (capacity-- - 1)\<close>, and the outer one over
  the buckets. A null key is dereferenced by the hash and traps.
\<close>

fun resize_slots :: "'v tablec_ht \<Rightarrow> 'v tablec_bucket list \<Rightarrow> nat \<Rightarrow> 'v tablec_ht option" where
  "resize_slots new arr 0 = None"
| "resize_slots new arr (Suc 0) = Some new"
| "resize_slots new arr (Suc (Suc i)) = do {
     b \<leftarrow> rd arr i;
     new' \<leftarrow> (case bkey b of None \<Rightarrow> Some new | Some k \<Rightarrow> tablec_set new k (bvalue b));
     resize_slots new' arr (Suc i) }"

fun resize_loop :: "'v tablec_ht \<Rightarrow> 'v tablec_buckets list \<Rightarrow> nat \<Rightarrow> 'v tablec_ht option" where
  "resize_loop new bs 0 = Some new"
| "resize_loop new bs (Suc i) = do {
     b \<leftarrow> rd bs i;
     new' \<leftarrow> (if bucket_length b = 0 then Some new
              else if bucket_length b = 1 then do {
                b0 \<leftarrow> rd (bucket_array b) 0;
                k \<leftarrow> bkey b0;
                tablec_set new k (bvalue b0) }
              else resize_slots new (bucket_array b) (bucket_capacity b));
     resize_loop new' bs i }"

definition tablec_resize :: "'v tablec_ht \<Rightarrow> nat \<Rightarrow> 'v tablec_ht option" where
  "tablec_resize t new_max_capacity = do {
     new \<leftarrow> (if table_length t \<noteq> 0 then resize_loop (tablec_init new_max_capacity) (buckets t) (table_capacity t)
             else Some (tablec_init new_max_capacity));
     freed \<leftarrow> tablec_cleanup t;
     Some new }"

section \<open>A bucket as an association list\<close>

text \<open>The occupied slots from the top down, so that \<^const>\<open>map_of\<close> finds what the code finds.\<close>

definition entries :: "'v tablec_bucket list \<Rightarrow> (string \<times> 'v option) list" where
  "entries arr = map (\<lambda>b. (the (bkey b), bvalue b)) (filter (\<lambda>b. bkey b \<noteq> None) (rev arr))"

lemma entries_simps [simp]:
  "entries [] = []"
  "entries (xs @ ys) = entries ys @ entries xs"
  "entries (replicate n null_bucket) = []"
  by (auto simp: entries_def null_bucket_def)

lemma entries_Cons: "entries (b # bs) = entries bs @ (case bkey b of None \<Rightarrow> [] | Some k \<Rightarrow> [(k, bvalue b)])"
  by (auto simp: entries_def split: option.split)

lemma entries_at:
  "i < length arr \<Longrightarrow> entries arr = entries (drop (Suc i) arr) @
     (case bkey (arr ! i) of None \<Rightarrow> [] | Some k \<Rightarrow> [(k, bvalue (arr ! i))]) @ entries (take i arr)"
  by (subst id_take_nth_drop [of i arr]) (simp_all add: entries_Cons)

lemma entries_update:
  "i < length arr \<Longrightarrow> entries (arr[i := b]) = entries (drop (Suc i) arr) @
     (case bkey b of None \<Rightarrow> [] | Some k \<Rightarrow> [(k, bvalue b)]) @ entries (take i arr)"
  by (subst upd_conv_take_nth_drop) (simp_all add: entries_Cons)

lemma length_entries: "length (entries arr) \<le> length arr"
  unfolding entries_def by (metis length_filter_le length_map length_rev)

lemma entries_full: "length (entries arr) = length arr \<longleftrightarrow> (\<forall>b\<in>set arr. bkey b \<noteq> None)"
proof -
  have "length (filter P xs) = length xs \<longleftrightarrow> (\<forall>x\<in>set xs. P x)" for P and xs :: "'a tablec_bucket list"
    using length_filter_less [of _ xs P] by (auto simp: order_less_le filter_id_conv [THEN iffD2])
  from this [of "\<lambda>b. bkey b \<noteq> None" "rev arr"] show ?thesis by (simp add: entries_def)
qed

lemma find_slot_spec:
  "n \<le> length arr \<Longrightarrow> case find_slot arr k n of
     None \<Rightarrow> False
   | Some None \<Rightarrow> map_of (entries (take n arr)) k = None
   | Some (Some i) \<Rightarrow> i < n \<and> bkey (arr ! i) = Some k \<and>
       map_of (entries (take n arr)) k = Some (bvalue (arr ! i))"
proof (induction n)
  case 0
  then show ?case by simp
next
  case (Suc n)
  then have t: "take (Suc n) arr = take n arr @ [arr ! n]" by (simp add: take_Suc_conv_app_nth)
  show ?case
    using Suc by (auto simp: t entries_Cons split: option.splits if_splits)
qed

lemma free_slot_spec:
  "n \<le> length arr \<Longrightarrow> case free_slot arr n of
     None \<Rightarrow> False
   | Some None \<Rightarrow> length (entries (take n arr)) = n
   | Some (Some i) \<Rightarrow> i < n \<and> bkey (arr ! i) = None"
proof (induction n)
  case 0
  then show ?case by simp
next
  case (Suc n)
  then have t: "take (Suc n) arr = take n arr @ [arr ! n]" by (simp add: take_Suc_conv_app_nth)
  show ?case
    using Suc by (auto simp: t entries_Cons split: option.splits if_splits)
qed


section \<open>Invariant and abstraction\<close>

definition bucket_ok :: "'v tablec_buckets \<Rightarrow> bool" where
  "bucket_ok b \<longleftrightarrow> bucket_capacity b = length (bucket_array b) \<and> 0 < bucket_capacity b \<and>
     bucket_length b = length (entries (bucket_array b)) \<and> distinct (map fst (entries (bucket_array b)))"

definition table_ok :: "'v tablec_ht \<Rightarrow> bool" where
  "table_ok t \<longleftrightarrow> table_capacity t = length (buckets t) \<and> 0 < table_capacity t \<and> list_all bucket_ok (buckets t)"

definition slot_of :: "'v tablec_ht \<Rightarrow> string \<Rightarrow> nat" where
  "slot_of t key = unat (hash_loop 0 key) mod table_capacity t"

text \<open>The finite map a table stands for.\<close>

definition table_map :: "'v tablec_ht \<Rightarrow> string \<Rightarrow> 'v option option" where
  "table_map t key = map_of (entries (bucket_array (buckets t ! slot_of t key))) key"

lemma table_slot:
  assumes "table_ok t"
  shows "tablec_hash t key = Some (slot_of t key)" and "slot_of t key < length (buckets t)"
    and "bucket_ok (buckets t ! slot_of t key)"
  using assms by (auto simp: table_ok_def tablec_hash_def slot_of_def list_all_length)

lemma set_bucket_ok:
  assumes "table_ok t" and "bucket_ok b"
  shows "table_ok (set_bucket t h b\<lparr>table_length := n\<rparr>)" and "table_ok (set_bucket t h b)"
  using assms
  by (auto simp: table_ok_def set_bucket_def list_all_iff dest!: set_update_subset_insert [THEN subsetD])

lemma set_bucket_map:
  assumes "table_ok t" and "h = slot_of t key"
    and "map_of (entries (bucket_array b)) = (map_of (entries (bucket_array (buckets t ! h))))(key := x)"
  shows "table_map (set_bucket t h b\<lparr>table_length := n\<rparr>) = (table_map t)(key := x)"
    and "table_map (set_bucket t h b) = (table_map t)(key := x)"
proof -
  have h: "h < length (buckets t)" using table_slot(2) assms(1,2) by simp
  then show "table_map (set_bucket t h b\<lparr>table_length := n\<rparr>) = (table_map t)(key := x)"
    and "table_map (set_bucket t h b) = (table_map t)(key := x)"
    using assms(2,3) h
    by (auto simp: table_map_def set_bucket_def slot_of_def nth_list_update fun_eq_iff split: if_splits)
qed

lemma init_ok: "0 < n \<Longrightarrow> table_ok (tablec_init n)"
  by (simp add: table_ok_def tablec_init_def bucket_ok_def entries_Cons null_bucket_def list_all_length)

lemma init_map: "0 < n \<Longrightarrow> table_map (tablec_init n) = Map.empty"
  by (rule ext) (simp add: table_map_def tablec_init_def slot_of_def entries_Cons null_bucket_def)

lemma get_defined:
  assumes "table_ok t"
  shows "case tablec_get t key of
           None \<Rightarrow> False
         | Some None \<Rightarrow> table_map t key = None
         | Some (Some b) \<Rightarrow> bkey b = Some key \<and> table_map t key = Some (bvalue b)"
proof -
  let ?b = "buckets t ! slot_of t key"
  have ok: "bucket_ok ?b" "slot_of t key < length (buckets t)" "tablec_hash t key = Some (slot_of t key)"
    using table_slot [OF assms] by auto
  show ?thesis
  proof (cases "bucket_length ?b = 0")
    case True
    then show ?thesis using ok by (simp add: tablec_get_def table_map_def bucket_ok_def)
  next
    case False
    then show ?thesis
      using ok find_slot_spec [of "bucket_capacity ?b" "bucket_array ?b" key]
      by (auto simp: tablec_get_def table_map_def bucket_ok_def split: option.splits)
  qed
qed

lemma free_update:
  assumes "bucket_ok b" and "i < length (bucket_array b)" and "bkey (bucket_array b ! i) = None"
    and "map_of (entries (bucket_array b)) key = None"
    and "b' = b\<lparr>bucket_array := (bucket_array b)[i := \<lparr>bkey = Some key, bvalue = v\<rparr>],
               bucket_length := bucket_length b + 1\<rparr>"
  shows "bucket_ok b'" and "map_of (entries (bucket_array b')) = (map_of (entries (bucket_array b)))(key \<mapsto> v)"
proof -
  have e: "entries (bucket_array b) =
      entries (drop (Suc i) (bucket_array b)) @ entries (take i (bucket_array b))"
    using entries_at [OF assms(2)] assms(3) by simp
  have e': "entries ((bucket_array b)[i := \<lparr>bkey = Some key, bvalue = v\<rparr>]) =
      entries (drop (Suc i) (bucket_array b)) @ (key, v) # entries (take i (bucket_array b))"
    using entries_update [OF assms(2)] by simp
  have k: "key \<notin> fst ` set (entries (drop (Suc i) (bucket_array b)))"
    "key \<notin> fst ` set (entries (take i (bucket_array b)))"
    using assms(4) by (auto simp: e map_of_eq_None_iff)
  show "bucket_ok b'" using assms(1,2,5) k by (auto simp: bucket_ok_def e' e)
  show "map_of (entries (bucket_array b')) = (map_of (entries (bucket_array b)))(key \<mapsto> v)"
    using k assms(5)
    by (auto simp: e' e fun_eq_iff map_add_def map_of_eq_None_iff [THEN iffD2] split: option.split)
qed

lemma grow_update:
  assumes "bucket_ok b" and "length (entries (bucket_array b)) = length (bucket_array b)"
    and "map_of (entries (bucket_array b)) key = None"
    and "b' = \<lparr>bucket_array = (bucket_array b @ replicate (bucket_capacity b) null_bucket)
                 [bucket_length b := \<lparr>bkey = Some key, bvalue = v\<rparr>],
               bucket_length = bucket_length b + 1, bucket_capacity = bucket_capacity b * 2\<rparr>"
  shows "bucket_ok b'" and "map_of (entries (bucket_array b')) = (map_of (entries (bucket_array b)))(key \<mapsto> v)"
proof -
  obtain n where n: "bucket_capacity b = Suc n" using assms(1) by (cases "bucket_capacity b") (auto simp: bucket_ok_def)
  have "bucket_length b = length (bucket_array b)" using assms(1,2) by (simp add: bucket_ok_def)
  then have "bucket_array b' = bucket_array b @ \<lparr>bkey = Some key, bvalue = v\<rparr> # replicate n null_bucket"
    unfolding assms(4) n by (simp add: list_update_append)
  then have e': "entries (bucket_array b') = (key, v) # entries (bucket_array b)"
    by (simp add: entries_Cons)
  have "key \<notin> fst ` set (entries (bucket_array b))" using assms(3) by (simp add: map_of_eq_None_iff)
  moreover have "bucket_capacity b' = bucket_capacity b * 2" "bucket_length b' = bucket_length b + 1"
    "length (bucket_array b') = length (bucket_array b) + bucket_capacity b"
    by (simp_all add: assms(4))
  ultimately show "bucket_ok b'" using assms(1) by (auto simp: bucket_ok_def e')
  show "map_of (entries (bucket_array b')) = (map_of (entries (bucket_array b)))(key \<mapsto> v)"
    by (simp add: e')
qed

lemma set_fresh:
  assumes "table_ok t" and "table_map t key = None"
  obtains t' where "tablec_set t key v = Some t'" "table_ok t'" "table_map t' = (table_map t)(key \<mapsto> v)"
proof -
  let ?h = "slot_of t key" let ?b = "buckets t ! ?h"
  have ok: "bucket_ok ?b" "?h < length (buckets t)" "tablec_hash t key = Some ?h"
    using table_slot [OF assms(1)] by auto
  have k: "map_of (entries (bucket_array ?b)) key = None" using assms(2) by (simp add: table_map_def)
  show ?thesis
  proof (cases "bucket_length ?b = 0")
    case True
    then have e: "entries (bucket_array ?b) = []" and a: "0 < length (bucket_array ?b)"
      using ok(1) by (auto simp: bucket_ok_def)
    then have "bkey (bucket_array ?b ! 0) = None"
      using entries_at [of 0 "bucket_array ?b"] by (auto split: option.splits)
    then show ?thesis
      using free_update [OF ok(1) a _ k refl, of v] set_bucket_ok(1) [OF assms(1)]
        set_bucket_map(1) [OF assms(1) refl] ok True a that by (fastforce simp: tablec_set_def)
  next
    case False
    have cap: "bucket_capacity ?b = length (bucket_array ?b)" "0 < length (bucket_array ?b)"
      using ok(1) by (auto simp: bucket_ok_def)
    obtain r where r: "free_slot (bucket_array ?b) (bucket_capacity ?b) = Some r"
      using free_slot_spec [of "bucket_capacity ?b" "bucket_array ?b"] cap(1) by (auto split: option.splits)
    show ?thesis
    proof (cases r)
      case (Some i)
      then have i: "i < length (bucket_array ?b)" "bkey (bucket_array ?b ! i) = None"
        using free_slot_spec [of "bucket_capacity ?b" "bucket_array ?b"] r cap(1) by auto
      then show ?thesis
        using free_update [OF ok(1) i k refl, of v] set_bucket_ok(1) [OF assms(1)]
          set_bucket_map(1) [OF assms(1) refl] ok False r Some that by (fastforce simp: tablec_set_def)
    next
      case None
      then have full: "length (entries (bucket_array ?b)) = length (bucket_array ?b)"
        using free_slot_spec [of "bucket_capacity ?b" "bucket_array ?b"] r cap(1) by auto
      have "bucket_length ?b < length (take (bucket_capacity ?b) (bucket_array ?b) @
          replicate (bucket_capacity ?b) null_bucket)"
        using ok(1) full cap by (simp add: bucket_ok_def)
      then show ?thesis
        using grow_update [OF ok(1) full k refl, of v] set_bucket_ok(2) [OF assms(1)]
          set_bucket_map(2) [OF assms(1) refl] ok False r None cap that by (fastforce simp: tablec_set_def)
    qed
  qed
qed

lemma del_map:
  assumes "table_ok t"
  obtains t' where "tablec_del t key = Some t'" "table_ok t'" "table_map t' = (table_map t)(key := None)"
proof -
  let ?h = "slot_of t key" let ?b = "buckets t ! ?h"
  have ok: "bucket_ok ?b" "?h < length (buckets t)" "tablec_hash t key = Some ?h"
    using table_slot [OF assms] by auto
  have cap: "bucket_capacity ?b = length (bucket_array ?b)" using ok(1) by (auto simp: bucket_ok_def)
  obtain r where r: "find_slot (bucket_array ?b) key (bucket_capacity ?b) = Some r"
    using find_slot_spec [of "bucket_capacity ?b" "bucket_array ?b" key] cap by (auto split: option.splits)
  show ?thesis
  proof (cases "bucket_length ?b = 0 \<or> r = None")
    case True
    then have "table_map t key = None"
      using ok(1) r cap find_slot_spec [of "bucket_capacity ?b" "bucket_array ?b" key]
      by (auto simp: table_map_def bucket_ok_def)
    then have "table_map t = (table_map t)(key := None)" by auto
    then show ?thesis using that [of t] True ok r assms by (auto simp: tablec_del_def)
  next
    case False
    then obtain i where i: "r = Some i" "i < length (bucket_array ?b)" "bkey (bucket_array ?b ! i) = Some key"
      using r cap find_slot_spec [of "bucket_capacity ?b" "bucket_array ?b" key] by auto
    let ?b' = "?b\<lparr>bucket_array := (bucket_array ?b)[i := null_bucket], bucket_length := bucket_length ?b - 1\<rparr>"
    have e: "entries (bucket_array ?b) = entries (drop (Suc i) (bucket_array ?b)) @
        (key, bvalue (bucket_array ?b ! i)) # entries (take i (bucket_array ?b))"
      using entries_at [OF i(2)] i(3) by simp
    have e': "entries ((bucket_array ?b)[i := null_bucket]) =
        entries (drop (Suc i) (bucket_array ?b)) @ entries (take i (bucket_array ?b))"
      using entries_update [OF i(2)] by (simp add: null_bucket_def)
    have k: "key \<notin> fst ` set (entries (drop (Suc i) (bucket_array ?b)))"
      "key \<notin> fst ` set (entries (take i (bucket_array ?b)))"
      using ok(1) by (auto simp: bucket_ok_def e)
    have ok': "bucket_ok ?b'" using ok(1) by (auto simp: bucket_ok_def e' e)
    have m: "map_of (entries (bucket_array ?b')) = (map_of (entries (bucket_array ?b)))(key := None)"
      using k by (auto simp: e' e fun_eq_iff map_add_def map_of_eq_None_iff [THEN iffD2] split: option.split)
    have "tablec_del t key = Some (set_bucket t ?h ?b'\<lparr>table_length := table_length t - 1\<rparr>)"
      using ok(2,3) False r i(1) by (simp add: tablec_del_def)
    then show ?thesis
      by (rule that) (rule set_bucket_ok(1) [OF assms ok'], rule set_bucket_map(1) [OF assms refl m])
  qed
qed


section \<open>The interface of a session store\<close>

text \<open>
  What the server relies on: a lookup always returns, a key that is not in the store can be
  added, is then found with its value and leaves every other key as it was. A store that
  can forget keys extends it.
\<close>

fun put_all :: "('s \<Rightarrow> string \<Rightarrow> 'v \<Rightarrow> 's option) \<Rightarrow> 's \<Rightarrow> (string \<times> 'v) list \<Rightarrow> 's option" where
  "put_all put s [] = Some s"
| "put_all put s ((k, v) # kvs) = do { s' \<leftarrow> put s k v; put_all put s' kvs }"

locale session_store =
  fixes ok :: "'s \<Rightarrow> bool"
    and put :: "'s \<Rightarrow> string \<Rightarrow> 'v \<Rightarrow> 's option"
    and lookup :: "'s \<Rightarrow> string \<Rightarrow> 'v option option"
  assumes lookup_total: "ok s \<Longrightarrow> \<exists>r. lookup s k = Some r"
    and put_fresh: "ok s \<Longrightarrow> lookup s k = Some None \<Longrightarrow>
      \<exists>s'. put s k v = Some s' \<and> ok s' \<and> lookup s' k = Some (Some v) \<and>
        (\<forall>j. j \<noteq> k \<longrightarrow> lookup s' j = lookup s j)"
begin

lemma put_all_found:
  assumes "ok s" and "distinct (map fst kvs)" and "\<forall>k\<in>fst ` set kvs. lookup s k = Some None"
  shows "\<exists>s'. put_all put s kvs = Some s' \<and> ok s' \<and>
    (\<forall>j. lookup s' j = (case map_of kvs j of None \<Rightarrow> lookup s j | Some v \<Rightarrow> Some (Some v)))"
  using assms
proof (induction kvs arbitrary: s)
  case Nil
  then show ?case by simp
next
  case (Cons kv kvs)
  obtain k v where kv: "kv = (k, v)" by (cases kv)
  obtain s1 where s1: "put s k v = Some s1" "ok s1" "lookup s1 k = Some (Some v)"
      "\<And>j. j \<noteq> k \<Longrightarrow> lookup s1 j = lookup s j"
    using put_fresh [of s k v] Cons.prems kv by auto
  have k: "k \<notin> fst ` set kvs" using Cons.prems(2) kv by simp
  then have "\<forall>k\<in>fst ` set kvs. lookup s1 k = Some None"
    using Cons.prems(3) s1(4) kv by (metis image_eqI insert_iff list.simps(15) image_insert)
  then obtain s2 where s2: "put_all put s1 kvs = Some s2" "ok s2"
      "\<And>j. lookup s2 j = (case map_of kvs j of None \<Rightarrow> lookup s1 j | Some v \<Rightarrow> Some (Some v))"
    using Cons.IH [of s1] s1(2) Cons.prems(2) kv by auto
  have "map_of kvs k = None" using k by (simp add: map_of_eq_None_iff)
  then show ?case using s1 s2 kv by (auto split: option.split)
qed

end

locale forgetting_store = session_store +
  fixes del :: "'a \<Rightarrow> string \<Rightarrow> 'a option"
  assumes del_gone: "ok s \<Longrightarrow> \<exists>s'. del s k = Some s' \<and> ok s' \<and> lookup s' k = Some None \<and>
    (\<forall>j. j \<noteq> k \<longrightarrow> lookup s' j = lookup s j)"
begin

lemma put_del_restores:
  assumes "ok s" and "lookup s k = Some None"
  shows "\<exists>s1 s2. put s k v = Some s1 \<and> del s1 k = Some s2 \<and> ok s2 \<and> (\<forall>j. lookup s2 j = lookup s j)"
proof -
  obtain s1 where s1: "put s k v = Some s1" "ok s1" "\<And>j. j \<noteq> k \<Longrightarrow> lookup s1 j = lookup s j"
    using put_fresh [OF assms, of v] by auto
  obtain s2 where s2: "del s1 k = Some s2" "ok s2" "lookup s2 k = Some None"
      "\<And>j. j \<noteq> k \<Longrightarrow> lookup s2 j = lookup s1 j"
    using del_gone [OF s1(2), of k] by auto
  have "lookup s2 j = lookup s j" for j
    using s1 s2 assms(2) by (cases "j = k") auto
  then show ?thesis using s1 s2 by blast
qed

end

text \<open>The lookup as the server uses it: the value pointer of the bucket found.\<close>

definition table_lookup :: "'v tablec_ht \<Rightarrow> string \<Rightarrow> 'v option option option" where
  "table_lookup t key = map_option (map_option bvalue) (tablec_get t key)"

lemma table_lookup_map: "table_ok t \<Longrightarrow> table_lookup t key = Some (table_map t key)"
  using get_defined [of t key] by (auto simp: table_lookup_def split: option.splits)

interpretation sessions: forgetting_store table_ok tablec_set table_lookup tablec_del
proof unfold_locales
  show "table_ok s \<Longrightarrow> \<exists>r. table_lookup s k = Some r" for s :: "'a tablec_ht" and k
    by (simp add: table_lookup_map)
  show "\<exists>s'. tablec_set s k v = Some s' \<and> table_ok s' \<and> table_lookup s' k = Some (Some v) \<and>
        (\<forall>j. j \<noteq> k \<longrightarrow> table_lookup s' j = table_lookup s j)"
    if "table_ok s" "table_lookup s k = Some None" for s :: "'a tablec_ht" and k v
  proof -
    note s = that(1)
    have none: "table_map s k = None" using that by (simp add: table_lookup_map)
    obtain s' where "tablec_set s k v = Some s'" "table_ok s'" "table_map s' = (table_map s)(k \<mapsto> v)"
      by (rule set_fresh [OF s none])
    then show ?thesis using s by (simp add: table_lookup_map)
  qed
  show "\<exists>s'. tablec_del s k = Some s' \<and> table_ok s' \<and> table_lookup s' k = Some None \<and>
        (\<forall>j. j \<noteq> k \<longrightarrow> table_lookup s' j = table_lookup s j)"
    if "table_ok s" for s :: "'a tablec_ht" and k
  proof -
    note s = that
    obtain s' where "tablec_del s k = Some s'" "table_ok s'" "table_map s' = (table_map s)(k := None)"
      by (rule del_map [OF s])
    then show ?thesis using s by (simp add: table_lookup_map)
  qed
qed

section \<open>Properties\<close>

text \<open>C23: The table is a map, through every growth and collision: after any list of insertions
  with distinct keys into a new table of any positive capacity, every lookup returns exactly
  the value inserted under that key, and nothing for every other key.\<close>
theorem table_stores_all:
  assumes "0 < n" and "distinct (map fst kvs)"
  shows "\<exists>t. put_all tablec_set (tablec_init n) kvs = Some t \<and> table_ok t \<and>
           (\<forall>k. table_lookup t k = Some (map_of kvs k))"
proof -
  have none: "table_lookup (tablec_init n) k = Some None" for k :: string
    using table_lookup_map [OF init_ok [OF assms(1)], of k] by (simp add: init_map [OF assms(1)])
  obtain t where "put_all tablec_set (tablec_init n) kvs = Some t" "table_ok t"
      "\<forall>j. table_lookup t j = (case map_of kvs j of None \<Rightarrow> table_lookup (tablec_init n) j | Some v \<Rightarrow> Some (Some v))"
    using sessions.put_all_found [OF init_ok [OF assms(1)] assms(2)] none by auto
  then show ?thesis by (auto simp: none split: option.splits)
qed

theorem table_stores_all_witness:
  "\<exists>t. put_all tablec_set (tablec_init 4) [(''a'', Some (1 :: nat)), (''b'', Some 2), (''e'', Some 3), (''i'', None)] = Some t \<and>
     table_lookup t ''e'' = Some (Some (Some 3)) \<and> table_lookup t ''x'' = Some None"
  using table_stores_all [of 4 "[(''a'', Some (1 :: nat)), (''b'', Some 2), (''e'', Some 3), (''i'', None)]"] by auto

text \<open>Deleting a key removes it and nothing else: in every reachable table the lookup of
  that key finds nothing afterwards and every other lookup is unchanged; so inserting a new
  key and deleting it again restores every lookup.\<close>
theorem table_delete:
  assumes "table_ok t"
  shows "(\<exists>t'. tablec_del t k = Some t' \<and> table_ok t' \<and>
            (\<forall>j. table_lookup t' j = (if j = k then Some None else table_lookup t j))) \<and>
         (table_lookup t k \<noteq> Some None \<or>
          (\<exists>t1 t2. tablec_set t k v = Some t1 \<and> tablec_del t1 k = Some t2 \<and>
            (\<forall>j. table_lookup t2 j = table_lookup t j)))"
proof
  show "\<exists>t'. tablec_del t k = Some t' \<and> table_ok t' \<and>
      (\<forall>j. table_lookup t' j = (if j = k then Some None else table_lookup t j))"
    using sessions.del_gone [OF assms, of k] by auto
  show "table_lookup t k \<noteq> Some None \<or> (\<exists>t1 t2. tablec_set t k v = Some t1 \<and> tablec_del t1 k = Some t2 \<and>
      (\<forall>j. table_lookup t2 j = table_lookup t j))"
    using sessions.put_del_restores [OF assms, of k v] by auto
qed

theorem table_delete_witness:
  "\<exists>t'. tablec_del (tablec_init 4 :: nat tablec_ht) ''a'' = Some t' \<and> table_ok t'"
  using table_delete [OF init_ok [of 4], of "''a''" "None"] by auto

text \<open>The element count is wrong after a collision: the branch that doubles a full bucket
  does not count the new element. After two insertions into one bucket the table counts 1,
  after deleting both it counts \<open>2 ^ 64 - 1\<close>, and a table of capacity 1 then reports two
  free places.\<close>
theorem table_count_underflow:
  assumes "k1 \<noteq> k2"
  shows "\<exists>t1 t2. put_all tablec_set (tablec_init 1) [(k1, v1), (k2, v2)] = Some t1 \<and> table_length t1 = 1 \<and>
           (do { t \<leftarrow> tablec_del t1 k1; tablec_del t k2 }) = Some t2 \<and>
           table_length t2 = - 1 \<and> tablec_full t2 = 2 \<and> (\<forall>k. table_lookup t2 k = Some None)"
proof -
  let ?b1 = "\<lparr>bkey = Some k1, bvalue = v1\<rparr>" and ?b2 = "\<lparr>bkey = Some k2, bvalue = v2\<rparr>"
  define t where "t = \<lparr>buckets = [\<lparr>bucket_array = [?b1, ?b2], bucket_length = 2, bucket_capacity = 2\<rparr>],
     table_length = 1, table_capacity = 1\<rparr>"
  define u where "u = \<lparr>buckets = [\<lparr>bucket_array = [null_bucket, null_bucket :: 'a tablec_bucket],
     bucket_length = 0, bucket_capacity = 2\<rparr>], table_length = - 1, table_capacity = 1\<rparr>"
  have "put_all tablec_set (tablec_init 1) [(k1, v1), (k2, v2)] = Some t" "table_length t = 1"
    by (simp_all add: t_def tablec_init_def tablec_set_def tablec_hash_def set_bucket_def null_bucket_def
        numeral_2_eq_2)
  moreover have "(do { t \<leftarrow> tablec_del t k1; tablec_del t k2 }) = Some u"
    using assms by (simp add: t_def u_def tablec_del_def tablec_hash_def set_bucket_def null_bucket_def
        numeral_2_eq_2)
  moreover have "table_length u = - 1" "tablec_full u = 2"
    by (simp_all add: u_def tablec_full_def)
  moreover have "table_lookup u k = Some None" for k
    by (simp add: u_def table_lookup_def tablec_get_def tablec_hash_def)
  ultimately show ?thesis by blast
qed

theorem table_count_underflow_witness:
  "\<exists>t1. put_all tablec_set (tablec_init 1) [(''a'', Some (1 :: nat)), (''b'', None)] = Some t1 \<and> table_length t1 = 1"
  using table_count_underflow [of "''a''" "''b''" "Some (1 :: nat)" None] by auto

text \<open>Resizing loses entries: of two entries that share a bucket the one in the top slot is
  not moved to the new table, and once the first is deleted the table counts no element and
  resizing forgets the other one as well.\<close>
theorem table_resize_loses:
  assumes "k1 \<noteq> k2" and "0 < n"
  shows "\<exists>t t'. put_all tablec_set (tablec_init 1) [(k1, v1), (k2, v2)] = Some t \<and>
           table_lookup t k1 = Some (Some v1) \<and> table_lookup t k2 = Some (Some v2) \<and>
           tablec_resize t n = Some t' \<and> table_lookup t' k1 = Some (Some v1) \<and> table_lookup t' k2 = Some None \<and>
           (do { u \<leftarrow> tablec_del t k1; tablec_resize u n }) = Some (tablec_init n)"
proof -
  let ?b1 = "\<lparr>bkey = Some k1, bvalue = v1\<rparr>" and ?b2 = "\<lparr>bkey = Some k2, bvalue = v2\<rparr>"
  define t where "t = \<lparr>buckets = [\<lparr>bucket_array = [?b1, ?b2], bucket_length = 2, bucket_capacity = 2\<rparr>],
     table_length = 1, table_capacity = 1\<rparr>"
  have t: "put_all tablec_set (tablec_init 1) [(k1, v1), (k2, v2)] = Some t"
    by (simp add: t_def tablec_init_def tablec_set_def tablec_hash_def set_bucket_def null_bucket_def
        numeral_2_eq_2)
  have l: "table_lookup t k1 = Some (Some v1)" "table_lookup t k2 = Some (Some v2)"
    using assms(1) by (simp_all add: t_def table_lookup_def tablec_get_def tablec_hash_def numeral_2_eq_2)
  obtain t' where t': "tablec_set (tablec_init n) k1 v1 = Some t'" "table_ok t'"
      "table_map t' = (table_map (tablec_init n))(k1 \<mapsto> v1)"
    by (rule set_fresh [OF init_ok [OF assms(2)], of k1 v1]) (simp_all add: init_map [OF assms(2)])
  have r: "tablec_resize t n = Some t'"
    using t'(1) by (simp add: tablec_resize_def t_def tablec_cleanup_def numeral_2_eq_2)
  have d: "(do { u \<leftarrow> tablec_del t k1; tablec_resize u n }) = Some (tablec_init n)"
    using assms(1) by (simp add: t_def tablec_del_def tablec_hash_def set_bucket_def null_bucket_def
        tablec_resize_def tablec_cleanup_def numeral_2_eq_2)
  show ?thesis
    using t l r d t' assms(1) by (auto simp: table_lookup_map init_map [OF assms(2)])
qed

theorem table_resize_loses_witness:
  "\<exists>t t'. put_all tablec_set (tablec_init 1) [(''a'', Some (1 :: nat)), (''b'', Some 2)] = Some t \<and>
     tablec_resize t 8 = Some t' \<and> table_lookup t' ''b'' = Some None"
  using table_resize_loses [of "''a''" "''b''" 8 "Some (1 :: nat)" "Some 2"] by auto

end
