(* ===== verification/Libtstr.thy ===== *)
theory Libtstr
  imports Prelude
begin

text \<open>
  \<^verbatim>\<open>server/libs/libtstr.c\<close>: the substring search every parser of the server is
  built on, the bounded append that writes the HTTP response, and two small helpers.
  The loops keep the C code's variables \<open>i\<close> and \<open>j\<close> and its result fields; the
  \<^verbatim>\<open>goto loop\<close> into the inner loop is a call of \<^verbatim>\<open>find_end\<close>.
  Positions are naturals: they index one buffer, so they stay far below \<open>2 ^ 31\<close>.
\<close>

section \<open>Data\<close>

record tstr_string_token =
  tok_start :: nat
  tok_end :: nat

record tstr_string =
  ts_string :: "bytes option"
  ts_length :: nat
  ts_allocated :: bool

section \<open>tstr_find_between\<close>

text \<open>
  The loop behind the label \<^verbatim>\<open>loop\<close>: run from \<open>i\<close> to the end of the string or
  to a match of \<open>fin\<close>. The result is whether the C function returned from inside the
  loop, then \<open>i\<close>, \<open>j\<close> and \<^verbatim>\<open>result->end\<close> as the loop left them.
\<close>

function find_end :: "bytes \<Rightarrow> bytes option \<Rightarrow> nat \<Rightarrow> nat \<Rightarrow> nat \<Rightarrow> (bool \<times> nat \<times> nat \<times> nat) option" where
  "find_end str fin i j e = do {
     c \<leftarrow> rd str i;
     if c = NUL then Some (False, i, j, e)
     else case fin of
       None \<Rightarrow> find_end str fin (i + 1) j (i + 1)
     | Some f \<Rightarrow> do {
         d \<leftarrow> rd f j;
         if c = d then do {
           d' \<leftarrow> rd f (j + 1);
           if d' = NUL then Some (True, i, j + 1, if e = 0 then i else e)
           else find_end str fin (i + 1) (j + 1) (if e = 0 then i else e) }
         else find_end str fin (i + 1) 0 0 } }"
  by pat_completeness auto
termination
  by (relation "measure (\<lambda>(str, fin, i, j, e). length str - i)") auto

declare find_end.simps [simp del]

lemma find_end_mono: "find_end str fin i j e = Some (r, i', j', e') \<Longrightarrow> i \<le> i' \<and> i' < length str"
proof (induction str fin i j e rule: find_end.induct)
  case (1 str fin i j e)
  from "1.prems" obtain c where c: "rd str i = Some c"
    by (subst (asm) find_end.simps) (auto split: bind_splits)
  show ?case
  proof (cases "c = NUL")
    case True
    then show ?thesis using "1.prems" c by (subst (asm) find_end.simps) auto
  next
    case False
    show ?thesis
    proof (cases fin)
      case None
      then show ?thesis
        using "1.prems" "1.IH"(1) [OF c False] c False
        by (subst (asm) find_end.simps) auto
    next
      case (Some f)
      from "1.prems" c False Some obtain d where d: "rd f j = Some d"
        by (subst (asm) find_end.simps) (auto split: bind_splits)
      note IH = "1.IH"(2,3) [OF c False Some d]
      show ?thesis
        using "1.prems" c False Some d IH
        by (subst (asm) find_end.simps) (fastforce split: bind_splits if_splits)
    qed
  qed
qed

text \<open>
  The \<^verbatim>\<open>while (1)\<close> loop that matches \<open>start\<close>, continued by \<^const>\<open>find_end\<close>
  when the last character of \<open>start\<close> matched. The result adds
  \<^verbatim>\<open>result->start\<close> before \<^verbatim>\<open>result->end\<close>.
\<close>

function match_start ::
  "bytes \<Rightarrow> bytes \<Rightarrow> bytes option \<Rightarrow> nat \<Rightarrow> nat \<Rightarrow> nat \<Rightarrow> nat \<Rightarrow> (bool \<times> nat \<times> nat \<times> nat \<times> nat) option"
where
  "match_start str st fin i j s e = do {
     c \<leftarrow> rd str i;
     d \<leftarrow> rd st j;
     if c \<noteq> d then Some (False, i, 0, 0, e)
     else do {
       d' \<leftarrow> rd st (j + 1);
       if d' = NUL then do {
         (r, i', j', e') \<leftarrow> find_end str fin i 0 e;
         Some (r, i', j', i + 1, e') }
       else match_start str st fin (i + 1) (j + 1) s e } }"
  by pat_completeness auto
termination
  by (relation "measure (\<lambda>(str, st, fin, i, j, s, e). length str - i)") auto

declare match_start.simps [simp del]

text \<open>One pass through the body of the \<^verbatim>\<open>do\<close> loop, up to the \<^verbatim>\<open>i++\<close>.\<close>

definition between_body ::
  "bytes \<Rightarrow> bytes option \<Rightarrow> bytes option \<Rightarrow> nat \<Rightarrow> nat \<Rightarrow> nat \<Rightarrow> nat \<Rightarrow> (bool \<times> nat \<times> nat \<times> nat \<times> nat) option"
where
  "between_body str start fin i j s e = (case start of
     None \<Rightarrow> do {
       (r, i', j', e') \<leftarrow> find_end str fin i j e;
       Some (r, i', j', i, e') }
   | Some st \<Rightarrow> do {
       c \<leftarrow> rd str i;
       s0 \<leftarrow> rd st 0;
       if c = s0 then match_start str st fin i j s e else Some (False, i, j, s, e) })"

lemma match_start_mono:
  "match_start str st fin i j s e = Some (r, i', j', s', e') \<Longrightarrow> i \<le> i' \<and> i' < length str"
proof (induction str st fin i j s e rule: match_start.induct)
  case (1 str st fin i j s e)
  from "1.prems" obtain c d where c: "rd str i = Some c" and d: "rd st j = Some d"
    by (subst (asm) match_start.simps) (auto split: bind_splits)
  show ?case
  proof (cases "c = d")
    case False
    then show ?thesis using "1.prems" c d by (subst (asm) match_start.simps) auto
  next
    case True
    from "1.prems" c d True obtain d' where d': "rd st (j + 1) = Some d'"
      by (subst (asm) match_start.simps) (auto split: bind_splits)
    show ?thesis
    proof (cases "d' = NUL")
      case True
      then show ?thesis
        using "1.prems" c d d' \<open>c = d\<close>
        by (subst (asm) match_start.simps) (auto split: bind_splits dest: find_end_mono)
    next
      case False
      then have "match_start str st fin (i + 1) (j + 1) s e = Some (r, i', j', s', e')"
        using "1.prems" c d d' \<open>c = d\<close> by (subst (asm) match_start.simps) auto
      then show ?thesis using "1.IH" [OF c d _ d'] \<open>c = d\<close> False by auto
    qed
  qed
qed

lemma between_body_mono:
  "between_body str start fin i j s e = Some (r, i', j', s', e') \<Longrightarrow> i \<le> i' \<and> i' < length str"
  by (auto simp: between_body_def split: option.splits bind_splits if_splits
      dest: find_end_mono match_start_mono)

text \<open>
  The \<^verbatim>\<open>do ... while\<close> loop. Its result is whether the function returned from inside,
  the final \<open>i\<close>, and the two fields of the token.
\<close>

function between_loop ::
  "bytes \<Rightarrow> bytes option \<Rightarrow> bytes option \<Rightarrow> nat \<Rightarrow> nat \<Rightarrow> nat \<Rightarrow> nat \<Rightarrow> nat \<Rightarrow> (bool \<times> nat \<times> nat \<times> nat) option"
where
  "between_loop str start fin len i j s e = do {
     (r, i', j', s', e') \<leftarrow> between_body str start fin i j s e;
     if r then Some (True, i', s', e')
     else do {
       again \<leftarrow> (if len = 0 then map_option (\<lambda>c. c \<noteq> NUL) (rd str i') else Some (i' + 1 < len));
       if again then between_loop str start fin len (i' + 1) j' s' e'
       else Some (False, i' + 1, s', e') } }"
  by pat_completeness auto
termination
  by (relation "measure (\<lambda>(str, start, fin, len, i, j, s, e). length str + len + 1 - i)")
     (auto dest!: between_body_mono split: if_splits)

declare between_loop.simps [simp del]

definition tstr_find_between ::
  "bytes \<Rightarrow> bytes option \<Rightarrow> nat \<Rightarrow> bytes option \<Rightarrow> nat \<Rightarrow> tstr_string_token option"
where
  "tstr_find_between str start start_index fin len = do {
     (r, i, s, e) \<leftarrow> between_loop str start fin len start_index 0 0 0;
     if r \<or> e \<noteq> 0 then Some \<lparr>tok_start = s, tok_end = e\<rparr>
     else do {
       c \<leftarrow> rd str i;
       Some \<lparr>tok_start = s, tok_end = (if c = NUL then i else e)\<rparr> } }"

section \<open>tstr_append, tstr_find_amount, tstr_free\<close>

text \<open>
  The output buffer is a fresh \<^verbatim>\<open>malloc\<close> block: a byte not written yet is
  \<^term>\<open>None\<close>. \<open>limiter = 0\<close> means "up to the terminator of \<open>src\<close>".
\<close>

type_synonym outbuf = "char option list"

function append_loop :: "outbuf \<Rightarrow> bytes \<Rightarrow> nat \<Rightarrow> nat \<Rightarrow> nat \<Rightarrow> (outbuf \<times> nat) option" where
  "append_loop str src i len limiter = do {
     more \<leftarrow> (if limiter = 0 then map_option (\<lambda>c. c \<noteq> NUL) (rd src i) else Some (i < limiter));
     if more then do {
       c \<leftarrow> rd src i;
       str' \<leftarrow> wr str len (Some c);
       append_loop str' src (i + 1) (len + 1) limiter }
     else Some (str, len) }"
  by pat_completeness auto
termination
  by (relation "measure (\<lambda>(str, src, i, len, limiter). length src - i)") auto

declare append_loop.simps [simp del]

definition tstr_append :: "outbuf \<Rightarrow> bytes \<Rightarrow> nat \<Rightarrow> nat \<Rightarrow> (outbuf \<times> nat) option" where
  "tstr_append str src len limiter = append_loop str src 0 len limiter"

fun amount_loop :: "bytes \<Rightarrow> bytes \<Rightarrow> nat \<Rightarrow> nat \<Rightarrow> nat option" where
  "amount_loop [] find_s j amount = None"
| "amount_loop (c # cs) find_s j amount =
     (if c = NUL then Some amount
      else do {
        d \<leftarrow> rd find_s j;
        if c = d then do {
          d' \<leftarrow> rd find_s (j + 1);
          if d' = NUL then amount_loop cs find_s 0 (amount + 1)
          else amount_loop cs find_s (j + 1) amount }
        else amount_loop cs find_s 0 amount })"

definition tstr_find_amount :: "bytes \<Rightarrow> bytes \<Rightarrow> nat option" where
  "tstr_find_amount str find_s = amount_loop str find_s 0 0"

text \<open>The block handed to \<^verbatim>\<open>free\<close>, if any.\<close>

definition tstr_free :: "tstr_string \<Rightarrow> bytes option" where
  "tstr_free str = (if \<not> ts_allocated str \<or> ts_string str = None then None else ts_string str)"

section \<open>The search as a scan over the rest of the string\<close>

text \<open>
  \<open>find_end\<close> walks an index; on a terminated marker \<open>zt q\<close> it is the same function
  as a scan that consumes the bytes from \<open>i\<close> on, which is the form the lemmas use.
\<close>

fun scan_end :: "bytes \<Rightarrow> bytes \<Rightarrow> nat \<Rightarrow> nat \<Rightarrow> nat \<Rightarrow> (bool \<times> nat \<times> nat \<times> nat) option" where
  "scan_end [] f i j e = None"
| "scan_end (c # cs) f i j e =
     (if c = NUL then Some (False, i, j, e)
      else do {
        d \<leftarrow> rd f j;
        if c = d then do {
          d' \<leftarrow> rd f (j + 1);
          if d' = NUL then Some (True, i, j + 1, if e = 0 then i else e)
          else scan_end cs f (i + 1) (j + 1) (if e = 0 then i else e) }
        else scan_end cs f (i + 1) 0 0 })"

lemma find_end_scan: "find_end str (Some f) i j e = scan_end (drop i str) f i j e"
proof (induction str "Some f" i j e rule: find_end.induct)
  case (1 str i j e)
  show ?case
  proof (cases "i < length str")
    case False
    then show ?thesis by (subst find_end.simps) (simp add: rd_def)
  next
    case True
    then have d: "drop i str = str ! i # drop (Suc i) str"
      by (simp add: Cons_nth_drop_Suc)
    show ?thesis
      using 1 True unfolding d
      by (subst find_end.simps) (auto intro!: Option.bind_cong)
  qed
qed

lemma zt_nth:
  "k < length q \<Longrightarrow> zt q ! k = q ! k" "zt q ! length q = NUL"
  "q \<noteq> [] \<Longrightarrow> zt q ! 0 = hd q"
  by (auto simp: zt_def nth_append hd_conv_nth)

lemma zt_nth_append: "zt (p1 @ x # p2) ! length p1 = x"
  by (simp add: zt_def nth_append)

lemma scan_end_skip:
  assumes "q \<noteq> []" and "hd q \<notin> set xs" and "c_string xs"
  shows "scan_end (xs @ ys) (zt q) i 0 0 = scan_end ys (zt q) (i + length xs) 0 0"
  using assms(2,3)
proof (induction xs arbitrary: i)
  case Nil
  then show ?case by simp
next
  case (Cons x xs)
  then show ?case using assms(1) by (auto simp: zt_nth hd_conv_nth)
qed

lemma scan_end_match:
  assumes "c_string q" and "p2 \<noteq> []" and "q = p1 @ p2" and "0 < i"
  shows "scan_end (p2 @ ys) (zt q) i (length p1) e =
           Some (True, i + length p2 - 1, length q, if e = 0 then i else e)"
  using assms
proof (induction p2 arbitrary: p1 i e)
  case Nil
  then show ?case by simp
next
  case (Cons x p2)
  have x: "x \<noteq> NUL" and r0: "zt q ! length p1 = x"
    using Cons.prems by (auto simp: zt_nth_append)
  show ?case
  proof (cases p2)
    case Nil
    then have "zt q ! Suc (length p1) = NUL"
      using Cons.prems zt_nth(2) [of q] by simp
    then show ?thesis using x r0 Nil Cons.prems(3) by simp
  next
    case (Cons y p3)
    have r1: "zt q ! Suc (length p1) = y" and y: "y \<noteq> NUL"
      using Cons.prems Cons zt_nth_append [of "p1 @ [x]" y p3] by auto
    have "scan_end (p2 @ ys) (zt q) (i + 1) (length (p1 @ [x])) (if e = 0 then i else e) =
        Some (True, i + 1 + length p2 - 1, length q, if e = 0 then i else e)"
      using Cons.IH [of "p1 @ [x]" "i + 1" "if e = 0 then i else e"] Cons.prems Cons by auto
    then show ?thesis using x r0 r1 y Cons.prems(3) by simp
  qed
qed

lemma scan_end_absent:
  "q \<noteq> [] \<Longrightarrow> hd q \<notin> set s \<Longrightarrow> c_string s \<Longrightarrow>
   scan_end (s @ NUL # r) (zt q) i 0 0 = Some (False, i + length s, 0, 0)"
  by (subst scan_end_skip) auto

text \<open>A call with no start marker ends as soon as the inner loop returned.\<close>

lemma find_between_found:
  assumes "find_end str (Some f) i 0 0 = Some (True, i', j', e)"
  shows "tstr_find_between str None i (Some f) len = Some \<lparr>tok_start = i, tok_end = e\<rparr>"
  using assms
  by (subst tstr_find_between_def, subst between_loop.simps) (simp add: between_body_def)

lemma find_between_scan:
  assumes "scan_end (drop i str) f i 0 0 = Some (True, i', j', e)"
  shows "tstr_find_between str None i (Some f) len = Some \<lparr>tok_start = i, tok_end = e\<rparr>"
  using assms by (simp add: find_between_found find_end_scan)

lemma find_between_missed_upto:
  assumes "find_end str (Some f) i 0 0 = Some (False, i', j', e)"
    and "if len = 0 then rd str i' = Some NUL else len \<le> i' + 1"
  shows "tstr_find_between str None i (Some f) len =
           (if e \<noteq> 0 then Some \<lparr>tok_start = i, tok_end = e\<rparr>
            else do {
              c \<leftarrow> rd str (i' + 1);
              Some \<lparr>tok_start = i, tok_end = (if c = NUL then i' + 1 else 0)\<rparr> })"
proof -
  have "between_loop str None (Some f) len i 0 0 0 = Some (False, i' + 1, i, e)"
    using assms by (subst between_loop.simps) (auto simp: between_body_def split: if_splits)
  then show ?thesis by (auto simp: tstr_find_between_def intro!: Option.bind_cong)
qed

lemmas find_between_missed = find_between_missed_upto [where len = 0, simplified]

lemma find_between_absent_from:
  assumes "q \<noteq> []" and "i \<le> length s" and "hd q \<notin> set (drop i s)" and "c_string (drop i s)"
    and "len \<le> length s + 1"
  shows "tstr_find_between (s @ NUL # r) None i (Some (zt q)) len =
           (case r of
              [] \<Rightarrow> None
            | c # _ \<Rightarrow> Some \<lparr>tok_start = i, tok_end = (if c = NUL then length s + 1 else 0)\<rparr>)"
proof -
  have "find_end (s @ NUL # r) (Some (zt q)) i 0 0 = Some (False, length s, 0, 0)"
    using scan_end_absent [OF assms(1,3,4), of r i] assms(2) by (simp add: find_end_scan)
  then show ?thesis
    by (subst find_between_missed_upto) (use assms(5) in \<open>auto simp: rd_def nth_append split: list.splits\<close>)
qed

section \<open>Soundness of the search\<close>

text \<open>
  While \<open>j\<close> characters of the marker are matched, they end just before \<open>i\<close> and
  \<^verbatim>\<open>result->end\<close> is where they start. The position 0 is excluded because the code
  uses \<open>end = 0\<close> to mean "nothing matched yet".
\<close>

definition occurs_at :: "bytes \<Rightarrow> string \<Rightarrow> nat \<Rightarrow> bool" where
  "occurs_at str q k \<longleftrightarrow> k + length q \<le> length str \<and> take (length q) (drop k str) = q"

definition partial_match :: "bytes \<Rightarrow> string \<Rightarrow> nat \<Rightarrow> nat \<Rightarrow> nat \<Rightarrow> bool" where
  "partial_match str q i j e \<longleftrightarrow>
     (if j = 0 then e = 0
      else j < length q \<and> 0 < e \<and> e + j = i \<and> take j (drop e str) = take j q)"

lemma take_extend:
  "take j (drop e str) = take j q \<Longrightarrow> e + j < length str \<Longrightarrow> j < length q \<Longrightarrow>
   str ! (e + j) = q ! j \<Longrightarrow> take (Suc j) (drop e str) = take (Suc j) q"
  by (simp add: take_Suc_conv_app_nth)

lemma partial_match_step:
  assumes "partial_match str q i j e" and "0 < i" and "i < length str" and "j < length q"
    and "str ! i = q ! j"
  shows "take (Suc j) (drop (if e = 0 then i else e) str) = take (Suc j) q"
    and "(if e = 0 then i else e) + Suc j = Suc i"
proof -
  have e: "(if e = 0 then i else e) + j = i" and t: "take j (drop (if e = 0 then i else e) str) = take j q"
    using assms(1) by (auto simp: partial_match_def split: if_splits)
  show "take (Suc j) (drop (if e = 0 then i else e) str) = take (Suc j) q"
    by (rule take_extend [OF t]) (use e assms in \<open>auto split: if_splits\<close>)
  show "(if e = 0 then i else e) + Suc j = Suc i" using e by simp
qed

lemma find_end_sound:
  assumes "find_end str (Some (zt q)) i j e = Some (r, i', j', e')"
    and "c_string q" and "j < length q" and "0 < i" and "partial_match str q i j e"
  shows "if r then occurs_at str q e' \<and> 0 < e'
         else rd str i' = Some NUL \<and> (e' = 0 \<or> e' \<le> i' \<and> i' < e' + length q)"
  using assms
proof (induction str "Some (zt q)" i j e rule: find_end.induct)
  case (1 str i j e)
  from "1.prems"(1) have i: "i < length str"
    by (subst (asm) find_end.simps) (auto split: bind_splits simp: rd_def split: if_splits)
  have z: "zt q ! j = q ! j" "j < length (zt q)" using "1.prems"(3) by (auto simp: zt_nth)
  show ?case
  proof (cases "str ! i = NUL")
    case True
    then show ?thesis using "1.prems" i
      by (subst (asm) find_end.simps) (auto simp: partial_match_def split: if_splits)
  next
    case False
    show ?thesis
    proof (cases "str ! i = q ! j")
      case neq: False
      then have "find_end str (Some (zt q)) (i + 1) 0 0 = Some (r, i', j', e')"
        using "1.prems"(1) False i z by (subst (asm) find_end.simps) simp
      then show ?thesis
        using "1.hyps"(3) [of "str ! i" "zt q" "zt q ! j"] False neq i z "1.prems"(2,3)
        by (cases "q = []") (auto simp: partial_match_def)
    next
      case eq: True
      note step = partial_match_step [OF "1.prems"(5,4) i "1.prems"(3) eq]
      show ?thesis
      proof (cases "Suc j = length q")
        case True
        then have "zt q ! Suc j = NUL" by (simp add: zt_nth)
        then have "r" "e' = (if e = 0 then i else e)"
          using "1.prems"(1) False i z eq True by (subst (asm) find_end.simps, simp)+
        then show ?thesis
          using step True "1.prems"(4) i by (auto simp: occurs_at_def split: if_splits)
      next
        case less: False
        then have j: "Suc j < length q" using "1.prems"(3) by simp
        then have nz: "zt q ! Suc j = q ! Suc j" "q ! Suc j \<noteq> NUL"
          using "1.prems"(2) by (auto simp: zt_nth c_string_def in_set_conv_nth)
        have f: "find_end str (Some (zt q)) (i + 1) (j + 1) (if e = 0 then i else e) = Some (r, i', j', e')"
          using "1.prems"(1) False i z eq j nz by (subst (asm) find_end.simps) simp
        have "partial_match str q (i + 1) (j + 1) (if e = 0 then i else e)"
          using step j "1.prems"(4) by (auto simp: partial_match_def)
        then show ?thesis
          using "1.hyps"(2) [of "str ! i" "zt q" "zt q ! j" "zt q ! Suc j"] f False i z eq j nz "1.prems"(2)
          by auto
      qed
    qed
  qed
qed

section \<open>The append as one block write\<close>

definition put_bytes :: "outbuf \<Rightarrow> nat \<Rightarrow> string \<Rightarrow> outbuf" where
  "put_bytes str pos xs = put_at str pos (map Some xs)"

lemma put_bytes_length [simp]:
  "pos + length xs \<le> length str \<Longrightarrow> length (put_bytes str pos xs) = length str"
  by (simp add: put_bytes_def)

lemma put_bytes_Nil [simp]: "put_bytes str pos [] = str"
  by (simp add: put_bytes_def)

lemma put_bytes_Cons:
  "pos < length str \<Longrightarrow> put_bytes (str[pos := Some x]) (Suc pos) xs = put_bytes str pos (x # xs)"
  by (simp add: put_bytes_def put_at_Cons)

lemma put_bytes_append:
  "pos + length xs + length ys \<le> length str \<Longrightarrow>
   put_bytes (put_bytes str pos xs) (pos + length xs) ys = put_bytes str pos (xs @ ys)"
  using put_at_append [of pos "map Some xs" "map Some ys" str] by (simp add: put_bytes_def)

lemma append_loop_string:
  assumes "c_string s" and "len \<le> length str"
  shows "append_loop str (a @ s @ NUL # r) (length a) len 0 =
           (if len + length s \<le> length str
            then Some (put_bytes str len s, len + length s) else None)"
  using assms
proof (induction s arbitrary: a str len)
  case Nil
  then show ?case by (subst append_loop.simps) (simp add: nth_append)
next
  case (Cons x s)
  have step: "append_loop str (a @ (x # s) @ NUL # r) (length a) len 0 =
      (if len < length str
       then append_loop (str[len := Some x]) ((a @ [x]) @ s @ NUL # r) (length (a @ [x])) (len + 1) 0
       else None)"
    using Cons.prems by (subst append_loop.simps) (simp add: nth_append wr_def)
  show ?case
  proof (cases "len < length str")
    case False
    then show ?thesis unfolding step by simp
  next
    case True
    then show ?thesis
      unfolding step using Cons.IH [of "len + 1" "str[len := Some x]" "a @ [x]"] Cons.prems
      by (simp add: put_bytes_Cons)
  qed
qed

lemma append_loop_limit:
  assumes "length a + length s = n" and "0 < n" and "len \<le> length str"
  shows "append_loop str (a @ s @ r) (length a) len n =
           (if len + length s \<le> length str
            then Some (put_bytes str len s, len + length s) else None)"
  using assms
proof (induction s arbitrary: a str len)
  case Nil
  then show ?case by (subst append_loop.simps) simp
next
  case (Cons x s)
  have step: "append_loop str (a @ (x # s) @ r) (length a) len n =
      (if len < length str
       then append_loop (str[len := Some x]) ((a @ [x]) @ s @ r) (length (a @ [x])) (len + 1) n
       else None)"
    using Cons.prems by (subst append_loop.simps) (auto simp: nth_append wr_def)
  show ?case
  proof (cases "len < length str")
    case False
    then show ?thesis unfolding step by simp
  next
    case True
    then show ?thesis
      unfolding step using Cons.IH [of "a @ [x]" "len + 1" "str[len := Some x]"] Cons.prems
      by (simp add: put_bytes_Cons)
  qed
qed

lemma tstr_append_string:
  "c_string s \<Longrightarrow> len + length s \<le> length str \<Longrightarrow>
   tstr_append str (s @ NUL # r) len 0 = Some (put_bytes str len s, len + length s)"
  using append_loop_string [of s len str "[]" r] by (simp add: tstr_append_def)

lemma tstr_append_limit:
  "s \<noteq> [] \<Longrightarrow> len + length s \<le> length str \<Longrightarrow>
   tstr_append str (s @ r) len (length s) = Some (put_bytes str len s, len + length s)"
  using append_loop_limit [of "[]" s "length s" len str r] by (simp add: tstr_append_def)

section \<open>Properties\<close>

text \<open>Searching for an end marker with no start marker returns the first place where the
  marker occurs, exactly, whenever the text searched before it does not contain the marker's
  first character: the token starts at the start index and ends at that place, whatever the
  length limit and whatever follows.\<close>
theorem find_between_first:
  assumes "q \<noteq> []" and "c_string q" and "i \<le> length pre" and "0 < length pre"
    and "hd q \<notin> set (drop i pre)" and "c_string (drop i pre)"
  shows "tstr_find_between (pre @ q @ post) None i (Some (zt q)) len =
           Some \<lparr>tok_start = i, tok_end = length pre\<rparr>"
proof -
  have "scan_end (drop i pre @ q @ post) (zt q) i 0 0 = Some (True, length pre + length q - 1, length q, length pre)"
    using assms scan_end_match [of q q "[]" "length pre" post 0]
    by (subst scan_end_skip) (auto simp del: scan_end.simps)
  then show ?thesis
    using assms(3) by (intro find_between_scan) simp
qed

theorem find_between_first_witness:
  "tstr_find_between (''GET /a'' @ '' '' @ ''HTTP'') None 4 (Some (zt '' '')) 0 =
     Some \<lparr>tok_start = 4, tok_end = 6\<rparr>"
  using find_between_first [of "'' ''" 4 "''GET /a''" "''HTTP''" 0] by simp

text \<open>When the marker's first character does not occur at all, the search runs past the
  terminator: it reads the byte after it. With nothing allocated there the read is out of
  bounds (a trap); with a zero byte there the search reports a match one past the
  terminator; only with another byte does it return the "not found" value 0.\<close>
theorem find_between_absent:
  assumes "q \<noteq> []" and "i \<le> length s" and "hd q \<notin> set s" and "c_string s"
  shows "tstr_find_between (s @ NUL # r) None i (Some (zt q)) 0 =
           (case r of
              [] \<Rightarrow> None
            | c # _ \<Rightarrow> Some \<lparr>tok_start = i, tok_end = (if c = NUL then length s + 1 else 0)\<rparr>)"
  by (rule find_between_absent_from) (use assms in \<open>auto simp: c_string_def dest: in_set_dropD\<close>)

theorem find_between_absent_witness:
  "tstr_find_between (''abc'' @ [NUL]) None 0 (Some (zt '': '')) 0 = None \<and>
   tstr_find_between (''abc'' @ [NUL, NUL]) None 0 (Some (zt '': '')) 0 =
     Some \<lparr>tok_start = 0, tok_end = 4\<rparr>"
  using find_between_absent [of "'': ''" 0 "''abc''" "[]"]
    find_between_absent [of "'': ''" 0 "''abc''" "[NUL]"] by simp

text \<open>A token that the search returns is sound up to the end of the text: its end is 0,
  or the marker really occurs there, or it is within one marker length of the terminator
  (a marker cut off by the end of the text, or the byte after the terminator).\<close>
theorem find_between_sound:
  assumes "tstr_find_between str None i (Some (zt q)) 0 = Some t" and "q \<noteq> []" and "c_string q"
    and "0 < i"
  shows "tok_end t = 0 \<or> occurs_at str q (tok_end t) \<or>
         (\<exists>k. rd str k = Some NUL \<and> tok_end t \<le> k + 1 \<and> k < tok_end t + length q)"
proof -
  obtain r i' j' e where f: "find_end str (Some (zt q)) i 0 0 = Some (r, i', j', e)"
  proof (cases "find_end str (Some (zt q)) i 0 0")
    case None
    then have False using assms(1)
      by (simp add: tstr_find_between_def between_loop.simps [of str None] between_body_def)
    then show ?thesis ..
  next
    case (Some a)
    then show ?thesis using that by (cases a) auto
  qed
  have snd: "if r then occurs_at str q e \<and> 0 < e
      else rd str i' = Some NUL \<and> (e = 0 \<or> e \<le> i' \<and> i' < e + length q)"
    using find_end_sound [OF f assms(3)] assms(2,4) by (simp add: partial_match_def)
  show ?thesis
  proof (cases r)
    case True
    then show ?thesis using find_between_found [of str "zt q" i i' j' e 0] f assms(1) snd by auto
  next
    case False
    then have z: "rd str i' = Some NUL" using snd by simp
    show ?thesis
      using find_between_missed [of str "zt q" i i' j' e] f False assms(1,2) z snd
      by (auto split: bind_splits if_splits)
  qed
qed

theorem find_between_sound_witness:
  "occurs_at (''xa: b'' @ [NUL]) '': '' 2"
proof -
  have t: "tstr_find_between (''xa: b'' @ [NUL]) None 1 (Some (zt '': '')) 0 =
      Some \<lparr>tok_start = 1, tok_end = 2\<rparr>" by code_simp
  show ?thesis using find_between_sound [OF t] by (auto simp: occurs_at_def)
qed

text \<open>Appending a terminated string writes exactly its characters at the current
  position and advances the position by their number, and it stays inside the buffer if and
  only if they fit; otherwise it is an out-of-bounds write.\<close>
theorem tstr_append_exact:
  assumes "c_string s" and "len \<le> length str"
  shows "tstr_append str (s @ NUL # r) len 0 =
           (if len + length s \<le> length str
            then Some (put_bytes str len s, len + length s) else None)"
  using append_loop_string [OF assms, of "[]" r] by (simp add: tstr_append_def)

theorem tstr_append_exact_witness:
  "tstr_append [None, None, None] (zt ''ab'') 1 0 = Some ([None, Some CHR ''a'', Some CHR ''b''], 3) \<and>
   tstr_append [None, None, None] (zt ''abc'') 1 0 = None"
  using tstr_append_exact [of "''ab''" 1 "[None, None, None]" "[]"]
    tstr_append_exact [of "''abc''" 1 "[None, None, None]" "[]"]
  by (simp add: zt_def put_bytes_def put_at_def)

text \<open>Counting a one-character marker counts its occurrences.\<close>
theorem tstr_find_amount_char:
  assumes "c_string s" and "c \<noteq> NUL"
  shows "tstr_find_amount (s @ NUL # r) (zt [c]) = Some (count_list s c)"
proof -
  have "amount_loop (s @ NUL # r) (zt [c]) 0 n = Some (n + count_list s c)" for n
    using assms by (induction s arbitrary: n) (auto simp: zt_def)
  then show ?thesis by (simp add: tstr_find_amount_def)
qed

theorem tstr_find_amount_char_witness:
  "tstr_find_amount (zt ''a&b&c'') (zt ''&'') = Some 2"
  using tstr_find_amount_char [of "''a&b&c''" "CHR ''&''" "[]"] by (simp add: zt_def)

end
