(* ===== verification/Pjsonb.thy ===== *)
theory Pjsonb
  imports Libtstr
begin

text \<open>
  \<^verbatim>\<open>server/libs/pjsonb.c\<close>: the JSON builder. Its string is a heap block that every
  operation enlarges with \<^verbatim>\<open>realloc\<close>; a byte of a new part is \<^term>\<open>None\<close> until
  it is written, so the theorems also show that no uninitialised byte is inside the result.
  A write outside the block traps. A null key is \<^term>\<open>None\<close>. Allocation is assumed not
  to fail and positions to stay below \<open>2 ^ 31\<close>.
  The abstract view of a builder is a finished text and a flag that says whether the comma
  behind it is still pending; the operations are shown to implement its operations, and the
  locale at the end states what the server's handlers use of it.
\<close>

section \<open>Data\<close>

datatype pjsonb_key_state = PJSONB_NONE | PJSONB_TO_CLOSE

datatype pjsonb_type = PJSONB_ARRAY | PJSONB_OBJECT

text \<open>The position is a natural for an \<^verbatim>\<open>int\<close> of the code that starts at 1 and is never moved back: the two agree
  as long as the text is shorter than \<open>2 ^ 31\<close> bytes.\<close>

record pjsonb =
  pj_string :: outbuf
  pj_position :: nat
  pj_state :: pjsonb_key_state
  pj_type :: pjsonb_type

section \<open>Operations\<close>

definition c_realloc :: "outbuf \<Rightarrow> nat \<Rightarrow> outbuf" where
  "c_realloc b n = take n b @ replicate (n - length b) None"

text \<open>A write of the characters \<open>s\<close> at the builder's position, which then moves behind them
  (\<open>emit\<close>), and one that leaves the position alone (\<open>poke\<close>).\<close>

definition poke :: "pjsonb \<Rightarrow> nat \<Rightarrow> string \<Rightarrow> pjsonb option" where
  "poke b pos s =
     (if pos + length s \<le> length (pj_string b)
      then Some (b\<lparr>pj_string := put_bytes (pj_string b) pos s\<rparr>) else None)"

definition emit :: "pjsonb \<Rightarrow> string \<Rightarrow> pjsonb option" where
  "emit b s = do {
     b' \<leftarrow> poke b (pj_position b) s;
     Some (b'\<lparr>pj_position := pj_position b + length s\<rparr>) }"

definition grow :: "pjsonb \<Rightarrow> nat \<Rightarrow> pjsonb" where
  "grow b n = b\<lparr>pj_string := c_realloc (pj_string b) (pj_position b + n)\<rparr>"

text \<open>\<^verbatim>\<open>snprintf\<close> of a number at the position also writes the terminator.\<close>

definition emit_number :: "pjsonb \<Rightarrow> string \<Rightarrow> pjsonb option" where
  "emit_number b s = do {
     b' \<leftarrow> poke b (pj_position b) (s @ [NUL]);
     Some (b'\<lparr>pj_position := pj_position b + length s\<rparr>) }"

definition pjsonb_init :: "pjsonb_type \<Rightarrow> pjsonb" where
  "pjsonb_init ty = \<lparr>pj_string = [Some (if ty = PJSONB_ARRAY then CHR ''['' else CHR ''{'')],
     pj_position = 1, pj_state = PJSONB_NONE, pj_type = ty\<rparr>"

definition close_char :: "pjsonb_type \<Rightarrow> char" where
  "close_char ty = (if ty = PJSONB_ARRAY then CHR '']'' else CHR ''}'')"

definition pjsonb_end :: "pjsonb \<Rightarrow> pjsonb option" where
  "pjsonb_end b =
     (if pj_state b = PJSONB_TO_CLOSE then
        (if pj_position b = 0 then None else poke b (pj_position b - 1) [close_char (pj_type b)])
      else emit (grow b 1) [close_char (pj_type b)])"

text \<open>The block handed to \<^verbatim>\<open>free\<close>.\<close>

definition pjsonb_free :: "pjsonb \<Rightarrow> outbuf" where
  "pjsonb_free b = pj_string b"

text \<open>The three number setters have the same body, with another \<^verbatim>\<open>printf\<close> format.\<close>

definition set_number :: "pjsonb \<Rightarrow> string option \<Rightarrow> string \<Rightarrow> pjsonb option" where
  "set_number b key s = (case key of
     None \<Rightarrow> do {
       b1 \<leftarrow> emit_number (grow b (length s + 1)) s;
       b2 \<leftarrow> poke b1 (pj_position b1) '','';
       Some (b2\<lparr>pj_state := PJSONB_TO_CLOSE\<rparr>) }
   | Some k \<Rightarrow> do {
       b1 \<leftarrow> emit (grow b (length s + 4 + length k + 1)) [DQUOTE];
       b2 \<leftarrow> emit b1 k;
       b3 \<leftarrow> emit b2 [DQUOTE, CHR '':''];
       b4 \<leftarrow> emit_number b3 s;
       b5 \<leftarrow> emit b4 '','';
       Some (b5\<lparr>pj_state := PJSONB_TO_CLOSE\<rparr>) })"

definition pjsonb_set_int :: "pjsonb \<Rightarrow> string option \<Rightarrow> int \<Rightarrow> pjsonb option" where
  "pjsonb_set_int b key v = set_number b key (show_int v)"

definition pjsonb_set_size_t :: "pjsonb \<Rightarrow> string option \<Rightarrow> nat \<Rightarrow> pjsonb option" where
  "pjsonb_set_size_t b key v = set_number b key (show_nat v)"

text \<open>\<open>percent_f\<close> is the text that \<^verbatim>\<open>%f\<close> prints for a float.\<close>

definition pjsonb_set_float :: "('f \<Rightarrow> string) \<Rightarrow> pjsonb \<Rightarrow> string option \<Rightarrow> 'f \<Rightarrow> pjsonb option" where
  "pjsonb_set_float percent_f b key v = set_number b key (percent_f v)"

definition pjsonb_set_bool :: "pjsonb \<Rightarrow> string option \<Rightarrow> int \<Rightarrow> pjsonb option" where
  "pjsonb_set_bool b key value = (
     let s = (if value \<noteq> 0 then ''true'' else ''false'') in
     case key of
       None \<Rightarrow> do {
         b1 \<leftarrow> emit (grow b (length s + 1)) s;
         b2 \<leftarrow> emit b1 '','';
         Some (b2\<lparr>pj_state := PJSONB_TO_CLOSE\<rparr>) }
     | Some k \<Rightarrow> do {
         b1 \<leftarrow> emit (grow b (length s + 4 + length k + 1)) [DQUOTE];
         b2 \<leftarrow> emit b1 k;
         b3 \<leftarrow> emit b2 [DQUOTE, CHR '':''];
         b4 \<leftarrow> emit b3 s;
         b5 \<leftarrow> emit b4 '','';
         Some (b5\<lparr>pj_state := PJSONB_TO_CLOSE\<rparr>) })"

text \<open>\<open>value\<close> is an object of at least \<open>value_length\<close> bytes.\<close>

definition pjsonb_set_string :: "pjsonb \<Rightarrow> string option \<Rightarrow> bytes \<Rightarrow> nat \<Rightarrow> pjsonb option" where
  "pjsonb_set_string b key value value_length = (
     if length value < value_length then None
     else let s = take value_length value in
     case key of
       None \<Rightarrow> do {
         b1 \<leftarrow> emit (grow b (value_length + 3)) [DQUOTE];
         b2 \<leftarrow> emit b1 s;
         b3 \<leftarrow> emit b2 [DQUOTE, CHR '','' ];
         Some (b3\<lparr>pj_state := PJSONB_TO_CLOSE\<rparr>) }
     | Some k \<Rightarrow> do {
         b1 \<leftarrow> emit (grow b (value_length + 6 + length k + 1)) [DQUOTE];
         b2 \<leftarrow> emit b1 k;
         b3 \<leftarrow> emit b2 [DQUOTE, CHR '':'', DQUOTE];
         b4 \<leftarrow> emit b3 s;
         b5 \<leftarrow> emit b4 [DQUOTE, CHR '','' ];
         Some (b5\<lparr>pj_state := PJSONB_TO_CLOSE\<rparr>) })"

definition pjsonb_enter_object :: "pjsonb \<Rightarrow> string option \<Rightarrow> pjsonb option" where
  "pjsonb_enter_object b key = (case key of
     None \<Rightarrow> do {
       b1 \<leftarrow> emit (grow b 1) ''{'';
       Some (b1\<lparr>pj_state := PJSONB_NONE\<rparr>) }
   | Some k \<Rightarrow> do {
       b1 \<leftarrow> emit (grow b (5 + length k)) [DQUOTE];
       b2 \<leftarrow> emit b1 k;
       b3 \<leftarrow> emit b2 [DQUOTE, CHR '':'', CHR ''{''];
       Some (b3\<lparr>pj_state := PJSONB_NONE\<rparr>) })"

definition pjsonb_leave_object :: "pjsonb \<Rightarrow> pjsonb option" where
  "pjsonb_leave_object b = do {
     b' \<leftarrow> (if pj_state b = PJSONB_TO_CLOSE then do {
              b1 \<leftarrow> (if pj_position b = 0 then None else poke b (pj_position b - 1) ''}'');
              emit (grow b1 1) '','' }
            else emit (grow b 3) ''},'');
     Some (b'\<lparr>pj_state := PJSONB_TO_CLOSE\<rparr>) }"

definition pjsonb_enter_array :: "pjsonb \<Rightarrow> string option \<Rightarrow> pjsonb option" where
  "pjsonb_enter_array b key = (case key of
     None \<Rightarrow> do {
       b1 \<leftarrow> emit (grow b 1) ''['';
       Some (b1\<lparr>pj_state := PJSONB_NONE\<rparr>) }
   | Some k \<Rightarrow> do {
       b1 \<leftarrow> emit (grow b (4 + length k)) [DQUOTE];
       b2 \<leftarrow> emit b1 k;
       b3 \<leftarrow> emit b2 [DQUOTE, CHR '':'', CHR ''['' ];
       Some (b3\<lparr>pj_state := PJSONB_NONE\<rparr>) })"

definition pjsonb_leave_array :: "pjsonb \<Rightarrow> pjsonb option" where
  "pjsonb_leave_array b =
     (if pj_state b = PJSONB_TO_CLOSE then do {
        b1 \<leftarrow> (if pj_position b = 0 then None else poke b (pj_position b - 1) '']'');
        Some (b1\<lparr>pj_state := PJSONB_NONE\<rparr>) }
      else emit (grow b 1) '']'')"

section \<open>The abstract builder\<close>

text \<open>
  \<open>holds b s\<close>: the block starts with exactly the characters \<open>s\<close>, and the position is behind
  them. \<open>rep ty b t c\<close>: the finished text is \<open>t\<close>, followed by a comma if \<open>c\<close>.
\<close>

definition holds :: "pjsonb \<Rightarrow> string \<Rightarrow> bool" where
  "holds b s \<longleftrightarrow> pj_position b = length s \<and> take (length s) (pj_string b) = map Some s"

definition comma :: "bool \<Rightarrow> string" where
  "comma c = (if c then '','' else [])"

definition rep :: "pjsonb_type \<Rightarrow> pjsonb \<Rightarrow> string \<Rightarrow> bool \<Rightarrow> bool" where
  "rep ty b t c \<longleftrightarrow> holds b (t @ comma c) \<and> (pj_state b = PJSONB_TO_CLOSE \<longleftrightarrow> c) \<and> pj_type b = ty"

definition key_text :: "string option \<Rightarrow> string" where
  "key_text key = (case key of None \<Rightarrow> [] | Some k \<Rightarrow> [DQUOTE] @ k @ [DQUOTE, CHR '':''])"

lemma holds_length: "holds b s \<Longrightarrow> length s \<le> length (pj_string b)"
  unfolding holds_def by (metis length_map length_take min.cobounded1)

lemma c_realloc_length [simp]: "length (c_realloc b n) = n"
  by (simp add: c_realloc_def)

lemma grow_holds: "holds b s \<Longrightarrow> holds (grow b n) s \<and> length (pj_string (grow b n)) = length s + n"
  using holds_length [of b s] by (auto simp: holds_def grow_def c_realloc_def)

lemma put_bytes_take:
  "take n b = map Some s \<Longrightarrow> n = length s \<Longrightarrow> n + length x \<le> length b \<Longrightarrow>
   take (n + length x) (put_bytes b n x) = map Some (s @ x)"
  by (simp add: put_bytes_def put_at_def)

lemma emit_holds:
  assumes "holds b s" and "length s + length x \<le> length (pj_string b)"
  shows "\<exists>b'. emit b x = Some b' \<and> holds b' (s @ x) \<and> length (pj_string b') = length (pj_string b) \<and>
              pj_state b' = pj_state b \<and> pj_type b' = pj_type b"
  using assms put_bytes_take [of "length s" "pj_string b" s x]
  by (simp add: emit_def poke_def holds_def)

lemma emit_number_holds:
  assumes "holds b s" and "length s + length x < length (pj_string b)"
  shows "\<exists>b'. emit_number b x = Some b' \<and> holds b' (s @ x) \<and> length (pj_string b') = length (pj_string b) \<and>
              pj_state b' = pj_state b \<and> pj_type b' = pj_type b"
proof -
  have "take (length s + length x) (put_bytes (pj_string b) (length s) (x @ [NUL])) = map Some (s @ x)"
    using assms by (simp add: put_bytes_def put_at_def holds_def)
  then show ?thesis using assms by (simp add: emit_number_def poke_def holds_def)
qed

lemma poke_last:
  assumes "holds b (s @ [x])"
  shows "\<exists>b'. poke b (length s) [y] = Some b' \<and> holds b' (s @ [y]) \<and> pj_state b' = pj_state b \<and>
              pj_type b' = pj_type b \<and> pj_position b' = pj_position b"
proof -
  have l: "length s < length (pj_string b)" using holds_length [OF assms] by simp
  have "take (length s) (pj_string b) = map Some s"
    using assms by (simp add: holds_def take_Suc_conv_app_nth l)
  then have "take (Suc (length s)) (put_bytes (pj_string b) (length s) [y]) = map Some (s @ [y])"
    using l put_bytes_take [of "length s" "pj_string b" s "[y]"] by simp
  then show ?thesis using assms l by (simp add: poke_def holds_def)
qed


text \<open>The three lemmas as rules for a chain of writes, so that an operation is one
  application of \<open>intro\<close>.\<close>

lemma emit_bind:
  assumes "holds b s" and "length s + length x \<le> length (pj_string b)"
    and "\<And>b'. holds b' (s @ x) \<Longrightarrow> length (pj_string b') = length (pj_string b) \<Longrightarrow>
           pj_state b' = pj_state b \<Longrightarrow> pj_type b' = pj_type b \<Longrightarrow> \<exists>r. f b' = Some r \<and> Q r"
  shows "\<exists>r. emit b x \<bind> f = Some r \<and> Q r"
  using emit_holds [OF assms(1,2)] assms(3) by fastforce

lemma emit_number_bind:
  assumes "holds b s" and "length s + length x < length (pj_string b)"
    and "\<And>b'. holds b' (s @ x) \<Longrightarrow> length (pj_string b') = length (pj_string b) \<Longrightarrow>
           pj_state b' = pj_state b \<Longrightarrow> pj_type b' = pj_type b \<Longrightarrow> \<exists>r. f b' = Some r \<and> Q r"
  shows "\<exists>r. emit_number b x \<bind> f = Some r \<and> Q r"
  using emit_number_holds [OF assms(1,2)] assms(3) by fastforce

lemma poke_last_bind:
  assumes "holds b (s @ [x])" and "n = length s"
    and "\<And>b'. holds b' (s @ [y]) \<Longrightarrow> pj_state b' = pj_state b \<Longrightarrow> pj_type b' = pj_type b \<Longrightarrow>
           \<exists>r. f b' = Some r \<and> Q r"
  shows "\<exists>r. poke b n [y] \<bind> f = Some r \<and> Q r"
  using poke_last [OF assms(1), of y] assms(2,3) by fastforce

lemma grow_sel [simp]: "pj_state (grow b n) = pj_state b" "pj_type (grow b n) = pj_type b"
  by (simp_all add: grow_def)

lemma holds_state [simp]: "holds (b\<lparr>pj_state := x\<rparr>) s = holds b s"
  by (simp add: holds_def)

lemma rep_close: "holds b (t @ '','') \<Longrightarrow> pj_type b = ty \<Longrightarrow> rep ty (b\<lparr>pj_state := PJSONB_TO_CLOSE\<rparr>) t True"
  by (simp add: rep_def comma_def)

lemma rep_open: "holds b t \<Longrightarrow> pj_type b = ty \<Longrightarrow> rep ty (b\<lparr>pj_state := PJSONB_NONE\<rparr>) t False"
  by (simp add: rep_def comma_def)

lemma rep_grow:
  "rep ty b t c \<Longrightarrow> holds (grow b n) (t @ comma c)"
  "rep ty b t c \<Longrightarrow> length (pj_string (grow b n)) = length (t @ comma c) + n"
  "rep ty b t c \<Longrightarrow> pj_type b = ty"
  using grow_holds [of b "t @ comma c" n] by (auto simp: rep_def)

lemma set_number_rep:
  assumes "rep ty b t c"
  shows "\<exists>b'. set_number b (Some k) s = Some b' \<and> rep ty b' (t @ comma c @ key_text (Some k) @ s) True"
  unfolding set_number_def option.case
  by (intro emit_bind emit_number_bind, rule rep_grow [OF assms])
     (auto simp: rep_grow [OF assms] key_text_def intro!: rep_close)


definition bool_text :: "int \<Rightarrow> string" where
  "bool_text v = (if v \<noteq> 0 then ''true'' else ''false'')"

definition quoted :: "string \<Rightarrow> string" where
  "quoted s = [DQUOTE] @ s @ [DQUOTE]"

lemma set_bool_rep:
  assumes "rep ty b t c"
  shows "\<exists>b'. pjsonb_set_bool b key v = Some b' \<and> rep ty b' (t @ comma c @ key_text key @ bool_text v) True"
proof (cases key)
  case None
  show ?thesis
    unfolding pjsonb_set_bool_def Let_def None option.case
    by (intro emit_bind, rule rep_grow [OF assms])
       (auto simp: rep_grow [OF assms] key_text_def bool_text_def intro!: rep_close)
next
  case (Some k)
  show ?thesis
    unfolding pjsonb_set_bool_def Let_def Some option.case
    by (intro emit_bind, rule rep_grow [OF assms])
       (auto simp: rep_grow [OF assms] key_text_def bool_text_def intro!: rep_close)
qed

lemma set_string_rep:
  assumes "rep ty b t c" and "n \<le> length v"
  shows "\<exists>b'. pjsonb_set_string b key v n = Some b' \<and>
           rep ty b' (t @ comma c @ key_text key @ quoted (take n v)) True"
proof (cases key)
  case None
  have n: "\<not> length v < n" using assms(2) by simp
  show ?thesis
    unfolding pjsonb_set_string_def Let_def None option.case if_not_P [OF n]
    by (intro emit_bind, rule rep_grow [OF assms(1)])
       (use assms(2) in \<open>auto simp: rep_grow [OF assms(1)] key_text_def quoted_def intro!: rep_close\<close>)
next
  case (Some k)
  have n: "\<not> length v < n" using assms(2) by simp
  show ?thesis
    unfolding pjsonb_set_string_def Let_def Some option.case if_not_P [OF n]
    by (intro emit_bind, rule rep_grow [OF assms(1)])
       (use assms(2) in \<open>auto simp: rep_grow [OF assms(1)] key_text_def quoted_def intro!: rep_close\<close>)
qed

lemma enter_object_rep:
  assumes "rep ty b t c"
  shows "\<exists>b'. pjsonb_enter_object b key = Some b' \<and> rep ty b' (t @ comma c @ key_text key @ ''{'') False"
proof (cases key)
  case None
  show ?thesis
    unfolding pjsonb_enter_object_def None option.case
    by (intro emit_bind, rule rep_grow [OF assms])
       (auto simp: rep_grow [OF assms] key_text_def intro!: rep_open)
next
  case (Some k)
  show ?thesis
    unfolding pjsonb_enter_object_def Some option.case
    by (intro emit_bind, rule rep_grow [OF assms])
       (auto simp: rep_grow [OF assms] key_text_def intro!: rep_open)
qed

lemma enter_array_rep:
  assumes "rep ty b t c"
  shows "\<exists>b'. pjsonb_enter_array b key = Some b' \<and> rep ty b' (t @ comma c @ key_text key @ ''['') False"
proof (cases key)
  case None
  show ?thesis
    unfolding pjsonb_enter_array_def None option.case
    by (intro emit_bind, rule rep_grow [OF assms])
       (auto simp: rep_grow [OF assms] key_text_def intro!: rep_open)
next
  case (Some k)
  show ?thesis
    unfolding pjsonb_enter_array_def Some option.case
    by (intro emit_bind, rule rep_grow [OF assms])
       (auto simp: rep_grow [OF assms] key_text_def intro!: rep_open)
qed

text \<open>Closing: over the pending comma, or behind the text.\<close>

lemma rep_pending:
  "rep ty b t True \<Longrightarrow> holds b (t @ '','') \<and> pj_state b = PJSONB_TO_CLOSE \<and> pj_position b = Suc (length t) \<and> pj_type b = ty"
  by (auto simp: rep_def comma_def holds_def)

lemma leave_object_rep:
  assumes "rep ty b t c"
  shows "\<exists>b'. pjsonb_leave_object b = Some b' \<and> rep ty b' (t @ ''}'') True"
proof (cases c)
  case True
  have p: "holds b (t @ '','') \<and> pj_state b = PJSONB_TO_CLOSE \<and> pj_position b = Suc (length t) \<and> pj_type b = ty"
    using rep_pending [of ty b t] assms True by simp
  obtain b1 where b1: "poke b (length t) ''}'' = Some b1" "holds b1 (t @ ''}'')" "pj_type b1 = ty"
    using poke_last [of b t "CHR '',''" "CHR ''}''"] p by auto
  obtain b2 where b2: "emit (grow b1 1) '','' = Some b2" "holds b2 ((t @ ''}'') @ '','')" "pj_type b2 = ty"
    using emit_holds [of "grow b1 1" "t @ ''}''" "'',''"] grow_holds [OF b1(2), of 1] b1(3) by auto
  then show ?thesis using p b1(1) by (simp add: pjsonb_leave_object_def rep_def comma_def)
next
  case False
  obtain b2 where "emit (grow b 3) ''},'' = Some b2" "holds b2 (t @ ''},'')" "pj_type b2 = ty"
    using emit_holds [of "grow b 3" t "''},''"] rep_grow(1,2) [OF assms, of 3] rep_grow(3) [OF assms] False by (auto simp: comma_def)
  then show ?thesis using assms False by (auto simp: pjsonb_leave_object_def rep_def comma_def)
qed

lemma leave_array_rep:
  assumes "rep ty b t c"
  shows "\<exists>b'. pjsonb_leave_array b = Some b' \<and> rep ty b' (t @ '']'') False"
proof (cases c)
  case True
  have p: "holds b (t @ '','') \<and> pj_state b = PJSONB_TO_CLOSE \<and> pj_position b = Suc (length t) \<and> pj_type b = ty"
    using rep_pending [of ty b t] assms True by simp
  obtain b1 where "poke b (length t) '']'' = Some b1" "holds b1 (t @ '']'')" "pj_type b1 = ty"
    using poke_last [of b t "CHR '',''" "CHR '']''"] p by auto
  then show ?thesis using p by (simp add: pjsonb_leave_array_def rep_def comma_def)
next
  case False
  obtain b2 where "emit (grow b 1) '']'' = Some b2" "holds b2 (t @ '']'')" "pj_type b2 = ty"
      "pj_state b2 = pj_state b"
    using emit_holds [of "grow b 1" t "'']''"] rep_grow(1,2) [OF assms, of 1] rep_grow(3) [OF assms] False by (auto simp: comma_def)
  then show ?thesis using assms False by (auto simp: pjsonb_leave_array_def rep_def comma_def)
qed

lemma end_holds:
  assumes "rep ty b t c"
  shows "\<exists>b'. pjsonb_end b = Some b' \<and> holds b' (t @ [close_char ty])"
proof (cases c)
  case True
  have p: "holds b (t @ '','') \<and> pj_state b = PJSONB_TO_CLOSE \<and> pj_position b = Suc (length t) \<and> pj_type b = ty"
    using rep_pending [of ty b t] assms True by simp
  obtain b1 where "poke b (length t) [close_char ty] = Some b1" "holds b1 (t @ [close_char ty])"
    using poke_last [of b t "CHR '',''" "close_char ty"] p by auto
  then show ?thesis using p by (simp add: pjsonb_end_def)
next
  case False
  obtain b2 where "emit (grow b 1) [close_char ty] = Some b2" "holds b2 (t @ [close_char ty])"
    using emit_holds [of "grow b 1" t "[close_char ty]"] rep_grow(1,2) [OF assms, of 1] rep_grow(3) [OF assms] False by (auto simp: comma_def)
  then show ?thesis using assms False by (auto simp: pjsonb_end_def rep_def)
qed

definition open_char :: "pjsonb_type \<Rightarrow> char" where
  "open_char ty = (if ty = PJSONB_ARRAY then CHR ''['' else CHR ''{'')"

lemma init_rep: "rep ty (pjsonb_init ty) [open_char ty] False"
  by (simp add: rep_def holds_def comma_def pjsonb_init_def open_char_def)

section \<open>Documents\<close>

text \<open>
  A document as a tree, its text, and the calls that build it. An element of an array has no
  key; a number needs one, and an array must be the last element of its parent, because of
  the two defects proved below.
\<close>

datatype json =
    JInt int
  | JSize nat
  | JBool int
  | JString string
  | JObject "(string option \<times> json) list"
  | JArray "(string option \<times> json) list"

fun is_array :: "json \<Rightarrow> bool" where
  "is_array (JArray xs) = True"
| "is_array _ = False"

fun is_number :: "json \<Rightarrow> bool" where
  "is_number (JInt i) = True"
| "is_number (JSize n) = True"
| "is_number _ = False"

fun json_text :: "json \<Rightarrow> string" and items_text :: "(string option \<times> json) list \<Rightarrow> string" where
  "json_text (JInt i) = show_int i"
| "json_text (JSize n) = show_nat n"
| "json_text (JBool v) = bool_text v"
| "json_text (JString s) = quoted s"
| "json_text (JObject xs) = ''{'' @ items_text xs @ ''}''"
| "json_text (JArray xs) = ''['' @ items_text xs @ '']''"
| "items_text [] = []"
| "items_text ((k, j) # xs) = key_text k @ json_text j @ (if xs = [] then [] else '','' @ items_text xs)"

fun buildable :: "json \<Rightarrow> bool" and items_buildable :: "bool \<Rightarrow> (string option \<times> json) list \<Rightarrow> bool" where
  "buildable (JObject xs) = items_buildable True xs"
| "buildable (JArray xs) = items_buildable False xs"
| "buildable _ = True"
| "items_buildable keyed [] = True"
| "items_buildable keyed ((k, j) # xs) \<longleftrightarrow>
     (k \<noteq> None \<longleftrightarrow> keyed) \<and> (keyed \<or> \<not> is_number j) \<and> buildable j \<and>
     (xs = [] \<or> \<not> is_array j) \<and> items_buildable keyed xs"

fun build :: "string option \<Rightarrow> json \<Rightarrow> pjsonb \<Rightarrow> pjsonb option"
  and build_items :: "(string option \<times> json) list \<Rightarrow> pjsonb \<Rightarrow> pjsonb option" where
  "build k (JInt i) b = pjsonb_set_int b k i"
| "build k (JSize n) b = pjsonb_set_size_t b k n"
| "build k (JBool v) b = pjsonb_set_bool b k v"
| "build k (JString s) b = pjsonb_set_string b k (zt s) (length s)"
| "build k (JObject xs) b = do {
     b1 \<leftarrow> pjsonb_enter_object b k; b2 \<leftarrow> build_items xs b1; pjsonb_leave_object b2 }"
| "build k (JArray xs) b = do {
     b1 \<leftarrow> pjsonb_enter_array b k; b2 \<leftarrow> build_items xs b1; pjsonb_leave_array b2 }"
| "build_items [] b = Some b"
| "build_items ((k, j) # xs) b = do { b1 \<leftarrow> build k j b; build_items xs b1 }"


lemma key_text_number:
  assumes "rep ty b t c" and "k \<noteq> None"
  shows "\<exists>b'. set_number b k s = Some b' \<and> rep ty b' (t @ comma c @ key_text k @ s) True"
  using assms set_number_rep by (cases k) auto

lemma build_rep:
  "\<forall>b t c. buildable j \<and> (k \<noteq> None \<or> \<not> is_number j) \<and> rep ty b t c \<longrightarrow>
     (\<exists>b'. build k j b = Some b' \<and> rep ty b' (t @ comma c @ key_text k @ json_text j) (\<not> is_array j))"
  "\<forall>b t c. items_buildable keyed xs \<and> rep ty b t c \<longrightarrow>
     (\<exists>b' c'. build_items xs b = Some b' \<and>
        rep ty b' (t @ (if xs = [] then [] else comma c @ items_text xs)) c' \<and> (xs = [] \<longrightarrow> c' = c))"
proof (induction j and keyed xs arbitrary: k and rule: buildable_items_buildable.induct)
  case (1 xs)
  show ?case
  proof (intro allI impI)
    fix b t c
    assume a: "buildable (JObject xs) \<and> (k \<noteq> None \<or> \<not> is_number (JObject xs)) \<and> rep ty b t c"
    obtain b1 where b1: "pjsonb_enter_object b k = Some b1" "rep ty b1 (t @ comma c @ key_text k @ ''{'') False"
      using enter_object_rep a by blast
    obtain b2 c' where b2: "build_items xs b1 = Some b2"
        "rep ty b2 ((t @ comma c @ key_text k @ ''{'') @ items_text xs) c'"
      using 1 b1(2) a by (fastforce simp: comma_def split: if_splits)
    show "\<exists>b'. build k (JObject xs) b = Some b' \<and>
        rep ty b' (t @ comma c @ key_text k @ json_text (JObject xs)) (\<not> is_array (JObject xs))"
      using b1(1) b2(1) leave_object_rep [OF b2(2)] by auto
  qed
next
  case (2 xs)
  show ?case
  proof (intro allI impI)
    fix b t c
    assume a: "buildable (JArray xs) \<and> (k \<noteq> None \<or> \<not> is_number (JArray xs)) \<and> rep ty b t c"
    obtain b1 where b1: "pjsonb_enter_array b k = Some b1" "rep ty b1 (t @ comma c @ key_text k @ ''['') False"
      using enter_array_rep a by blast
    obtain b2 c' where b2: "build_items xs b1 = Some b2"
        "rep ty b2 ((t @ comma c @ key_text k @ ''['') @ items_text xs) c'"
      using 2 b1(2) a by (fastforce simp: comma_def split: if_splits)
    show "\<exists>b'. build k (JArray xs) b = Some b' \<and>
        rep ty b' (t @ comma c @ key_text k @ json_text (JArray xs)) (\<not> is_array (JArray xs))"
      using b1(1) b2(1) leave_array_rep [OF b2(2)] by auto
  qed
next
  case "3_1"
  then show ?case using key_text_number by (auto simp: pjsonb_set_int_def)
next
  case "3_2"
  then show ?case using key_text_number by (auto simp: pjsonb_set_size_t_def)
next
  case "3_3"
  then show ?case using set_bool_rep by auto
next
  case "3_4"
  then show ?case using set_string_rep [where v = "zt s" and n = "length s" for s] by (auto simp: zt_def)
next
  case (4 keyed)
  then show ?case by (auto intro: exI)
next
  case (5 keyed k' j xs)
  show ?case
  proof (intro allI impI)
    fix b t c
    assume a: "items_buildable keyed ((k', j) # xs) \<and> rep ty b t c"
    then have k: "k' \<noteq> None \<or> \<not> is_number j" "buildable j" "xs \<noteq> [] \<Longrightarrow> \<not> is_array j"
        "items_buildable keyed xs" by auto
    obtain b1 where b1: "build k' j b = Some b1"
        "rep ty b1 (t @ comma c @ key_text k' @ json_text j) (\<not> is_array j)"
      using "5.IH"(1) [of k'] a k by blast
    obtain b2 c' where b2: "build_items xs b1 = Some b2"
        "rep ty b2 ((t @ comma c @ key_text k' @ json_text j) @
           (if xs = [] then [] else comma (\<not> is_array j) @ items_text xs)) c'"
      using "5.IH"(2) b1(2) k(4) by blast
    show "\<exists>b' c'. build_items ((k', j) # xs) b = Some b' \<and>
        rep ty b' (t @ (if (k', j) # xs = [] then [] else comma c @ items_text ((k', j) # xs))) c' \<and>
        ((k', j) # xs = [] \<longrightarrow> c' = c)"
      using b1(1) b2 k(3) by (auto simp: comma_def)
  qed
qed


section \<open>The interface the handlers use\<close>

text \<open>
  The two product lists are built with four operations: open an object in an array, add a
  string and an integer member, close the object. The laws say how each extends the finished
  text; the lemma is the object of one product.
\<close>

fun comma_list :: "string list \<Rightarrow> string" where
  "comma_list [] = []"
| "comma_list (x # xs) = x @ (if xs = [] then [] else '','' @ comma_list xs)"

definition product_text :: "string \<Rightarrow> string \<Rightarrow> string \<Rightarrow> int \<Rightarrow> string" where
  "product_text nome tipo imagem preco = json_text (JObject
     [(Some ''nome'', JString nome), (Some ''tipo'', JString tipo), (Some ''imagem'', JString imagem),
      (Some ''preco'', JInt preco), (Some ''avaliacao'', JInt 5)])"

fun build_all :: "('x \<Rightarrow> 'b \<Rightarrow> 'b option) \<Rightarrow> 'x list \<Rightarrow> 'b \<Rightarrow> 'b option" where
  "build_all f [] b = Some b"
| "build_all f (x # xs) b = do { b' \<leftarrow> f x b; build_all f xs b' }"

locale json_builder =
  fixes repr :: "'b \<Rightarrow> string \<Rightarrow> bool \<Rightarrow> bool"
    and enter :: "'b \<Rightarrow> 'b option"
    and string_member :: "'b \<Rightarrow> string \<Rightarrow> string \<Rightarrow> 'b option"
    and int_member :: "'b \<Rightarrow> string \<Rightarrow> int \<Rightarrow> 'b option"
    and leave :: "'b \<Rightarrow> 'b option"
  assumes enter_law: "repr b t c \<Longrightarrow> \<exists>b'. enter b = Some b' \<and> repr b' (t @ comma c @ ''{'') False"
    and string_law: "repr b t c \<Longrightarrow> \<exists>b'. string_member b k s = Some b' \<and>
      repr b' (t @ comma c @ key_text (Some k) @ quoted s) True"
    and int_law: "repr b t c \<Longrightarrow> \<exists>b'. int_member b k i = Some b' \<and>
      repr b' (t @ comma c @ key_text (Some k) @ show_int i) True"
    and leave_law: "repr b t c \<Longrightarrow> \<exists>b'. leave b = Some b' \<and> repr b' (t @ ''}'') True"
begin

lemma product_object:
  assumes "repr b t c"
  shows "\<exists>b'. (do {
           b1 \<leftarrow> enter b;
           b2 \<leftarrow> string_member b1 ''nome'' nome;
           b3 \<leftarrow> string_member b2 ''tipo'' tipo;
           b4 \<leftarrow> string_member b3 ''imagem'' imagem;
           b5 \<leftarrow> int_member b4 ''preco'' preco;
           b6 \<leftarrow> int_member b5 ''avaliacao'' 5;
           leave b6 }) = Some b' \<and> repr b' (t @ comma c @ product_text nome tipo imagem preco) True"
proof -
  obtain b1 where b1: "enter b = Some b1" "repr b1 (t @ comma c @ ''{'') False"
    using enter_law [OF assms] by auto
  obtain b2 where b2: "string_member b1 ''nome'' nome = Some b2"
      "repr b2 ((t @ comma c @ ''{'') @ comma False @ key_text (Some ''nome'') @ quoted nome) True"
    using string_law [OF b1(2)] by blast
  obtain b3 where b3: "string_member b2 ''tipo'' tipo = Some b3"
      "repr b3 (((t @ comma c @ ''{'') @ comma False @ key_text (Some ''nome'') @ quoted nome) @
         comma True @ key_text (Some ''tipo'') @ quoted tipo) True"
    using string_law [OF b2(2)] by blast
  obtain b4 u4 where b4: "string_member b3 ''imagem'' imagem = Some b4" "repr b4 u4 True"
      "u4 = (((t @ comma c @ ''{'') @ comma False @ key_text (Some ''nome'') @ quoted nome) @
         comma True @ key_text (Some ''tipo'') @ quoted tipo) @ comma True @ key_text (Some ''imagem'') @ quoted imagem"
    using string_law [OF b3(2)] by blast
  obtain b5 u5 where b5: "int_member b4 ''preco'' preco = Some b5" "repr b5 u5 True"
      "u5 = u4 @ comma True @ key_text (Some ''preco'') @ show_int preco"
    using int_law [OF b4(2)] by blast
  obtain b6 u6 where b6: "int_member b5 ''avaliacao'' 5 = Some b6" "repr b6 u6 True"
      "u6 = u5 @ comma True @ key_text (Some ''avaliacao'') @ show_int 5"
    using int_law [OF b5(2)] by blast
  have "u6 @ ''}'' = t @ comma c @ product_text nome tipo imagem preco"
    unfolding b6(3) b5(3) b4(3) by (simp add: product_text_def comma_def)
  then show ?thesis using b1 b2 b3 b4 b5 b6 leave_law [OF b6(2)] by auto
qed

lemma build_all_rows:
  assumes "\<And>x b t c. x \<in> set xs \<Longrightarrow> repr b t c \<Longrightarrow> \<exists>b'. f x b = Some b' \<and> repr b' (t @ comma c @ g x) True"
    and "repr b t c"
  shows "\<exists>b'. build_all f xs b = Some b' \<and>
           repr b' (t @ (if xs = [] then [] else comma c @ comma_list (map g xs))) (xs \<noteq> [] \<or> c)"
  using assms
proof (induction xs arbitrary: b t c)
  case Nil
  then show ?case by simp
next
  case (Cons x xs)
  obtain b1 where b1: "f x b = Some b1" "repr b1 (t @ comma c @ g x) True"
    using Cons.prems(1) [of x, OF _ Cons.prems(2)] by auto
  obtain b2 where b2: "build_all f xs b1 = Some b2"
      "repr b2 ((t @ comma c @ g x) @ (if xs = [] then [] else comma True @ comma_list (map g xs))) (xs \<noteq> [] \<or> True)"
    using Cons.IH [of b1, OF _ b1(2)] Cons.prems(1) by (meson list.set_intros(2))
  then show ?case using b1(1) by (auto simp: comma_def)
qed

end

interpretation pj: json_builder "rep ty" "\<lambda>b. pjsonb_enter_object b None"
    "\<lambda>b k s. pjsonb_set_string b (Some k) (zt s) (length s)"
    "\<lambda>b k i. pjsonb_set_int b (Some k) i" pjsonb_leave_object
  for ty
proof unfold_locales
  show "rep ty b t c \<Longrightarrow> \<exists>b'. pjsonb_enter_object b None = Some b' \<and> rep ty b' (t @ comma c @ ''{'') False" for b t c
    using enter_object_rep [of ty b t c None] by (simp add: key_text_def)
  show "rep ty b t c \<Longrightarrow> \<exists>b'. pjsonb_set_string b (Some k) (zt s) (length s) = Some b' \<and>
      rep ty b' (t @ comma c @ key_text (Some k) @ quoted s) True" for b t c k s
    using set_string_rep [of ty b t c "length s" "zt s" "Some k"] by (simp add: zt_def)
  show "rep ty b t c \<Longrightarrow> \<exists>b'. pjsonb_set_int b (Some k) i = Some b' \<and>
      rep ty b' (t @ comma c @ key_text (Some k) @ show_int i) True" for b t c k i
    using set_number_rep by (simp add: pjsonb_set_int_def)
  show "rep ty b t c \<Longrightarrow> \<exists>b'. pjsonb_leave_object b = Some b' \<and> rep ty b' (t @ ''}'') True" for b t c
    by (rule leave_object_rep)
qed

section \<open>Properties\<close>

text \<open>C27: Building a document writes exactly its JSON text. For every array whose elements are
  strings, booleans and objects, and every object of keyed members, nested to any depth, with
  inner arrays in last position, the calls that build it never write outside the block, and
  at the end the block starts with the text of the document, every byte of it written, and
  the position is its length.\<close>
theorem json_document:
  assumes "items_buildable (ty = PJSONB_OBJECT) xs"
  shows "\<exists>b. (do { b1 \<leftarrow> build_items xs (pjsonb_init ty); pjsonb_end b1 }) = Some b \<and>
           holds b (json_text (if ty = PJSONB_OBJECT then JObject xs else JArray xs))"
proof -
  obtain b1 c where b1: "build_items xs (pjsonb_init ty) = Some b1"
      "rep ty b1 ([open_char ty] @ (if xs = [] then [] else comma False @ items_text xs)) c"
    using build_rep(2) [rule_format, of "ty = PJSONB_OBJECT" xs ty "pjsonb_init ty" "[open_char ty]" False]
      assms init_rep by blast
  then have "rep ty b1 (open_char ty # items_text xs) c" by (cases "xs = []") (auto simp: comma_def)
  from end_holds [OF this] b1(1) show ?thesis
    by (cases ty) (auto simp: open_char_def close_char_def)
qed

theorem json_document_witness:
  "\<exists>b. (do { b1 \<leftarrow> build_items [(None, JObject [(Some ''a'', JInt 5), (Some ''b'', JArray [])]), (None, JString ''x'')]
              (pjsonb_init PJSONB_ARRAY); pjsonb_end b1 }) = Some b \<and> pj_position b = 20"
proof -
  have n: "show_int 5 = ''5''" by code_simp
  show ?thesis
    using json_document [of PJSONB_ARRAY "[(None, JObject [(Some ''a'', JInt 5), (Some ''b'', JArray [])]), (None, JString ''x'')]"]
    by (auto simp: holds_def key_text_def quoted_def n)
qed

text \<open>Strings are not escaped: a member whose value contains the text \<open>","x":"\<close> between
  \<open>v\<close> and \<open>w\<close> is indistinguishable in the output from two members, the first with the value
  \<open>v\<close> and the second with the key \<open>x\<close> and the value \<open>w\<close>.\<close>
theorem json_no_escaping:
  assumes "rep ty b t c"
  shows "\<exists>b1 b2. build k (JString (v @ [DQUOTE, CHR '','', DQUOTE] @ x @ [DQUOTE, CHR '':'', DQUOTE] @ w)) b = Some b1 \<and>
           build_items [(k, JString v), (Some x, JString w)] b = Some b2 \<and>
           (\<exists>t'. rep ty b1 t' True \<and> rep ty b2 t' True)"
proof -
  let ?s = "v @ [DQUOTE, CHR '','', DQUOTE] @ x @ [DQUOTE, CHR '':'', DQUOTE] @ w"
  obtain b1 where b1: "build k (JString ?s) b = Some b1" "rep ty b1 (t @ comma c @ key_text k @ quoted ?s) True"
    using build_rep(1) [rule_format, of "JString ?s" k ty b t c] assms by auto
  obtain u where u: "build k (JString v) b = Some u" "rep ty u (t @ comma c @ key_text k @ quoted v) True"
    using build_rep(1) [rule_format, of "JString v" k ty b t c] assms by auto
  obtain b2 where b2: "build (Some x) (JString w) u = Some b2"
      "rep ty b2 ((t @ comma c @ key_text k @ quoted v) @ comma True @ key_text (Some x) @ quoted w) True"
    using build_rep(1) [rule_format, of "JString w" "Some x" ty u _ True] u(2) by fastforce
  have "(t @ comma c @ key_text k @ quoted v) @ comma True @ key_text (Some x) @ quoted w =
      t @ comma c @ key_text k @ quoted ?s"
    by (simp add: quoted_def key_text_def comma_def)
  then show ?thesis using b1 u b2 by auto
qed

theorem json_no_escaping_witness:
  "\<exists>b1 b2. build (Some ''nome'') (JString (''a'' @ [DQUOTE, CHR '','', DQUOTE] @ ''preco'' @ [DQUOTE, CHR '':'', DQUOTE] @ ''0''))
        (pjsonb_init PJSONB_OBJECT) = Some b1 \<and>
     build_items [(Some ''nome'', JString ''a''), (Some ''preco'', JString ''0'')] (pjsonb_init PJSONB_OBJECT) = Some b2"
  using json_no_escaping [OF init_rep [of PJSONB_OBJECT], of "Some ''nome''" "''a''" "''preco''" "''0''"] by auto

text \<open>A number added to an array loses its last digit: without a key the position is not
  moved behind the comma, so closing the document overwrites the last digit instead of the
  comma. The document with the single element \<open>i\<close> is the text of \<open>i\<close> without its last
  digit, in brackets.\<close>
theorem json_array_number_cut:
  "\<exists>b. (do { b1 \<leftarrow> pjsonb_set_int (pjsonb_init PJSONB_ARRAY) None i; pjsonb_end b1 }) = Some b \<and>
     holds b (''['' @ butlast (show_int i) @ '']'')"
proof -
  let ?s = "show_int i"
  have ne: "?s \<noteq> []" by (simp add: show_int_def)
  have r: "rep PJSONB_ARRAY (pjsonb_init PJSONB_ARRAY) ''['' False"
    using init_rep [of PJSONB_ARRAY] by (simp add: open_char_def)
  let ?g = "grow (pjsonb_init PJSONB_ARRAY) (length ?s + 1)"
  obtain b1 where b1: "emit_number ?g ?s = Some b1" "holds b1 (''['' @ ?s)" "pj_type b1 = PJSONB_ARRAY"
      "length (pj_string b1) = length ?s + 2"
    using emit_number_holds [of ?g "''[''" ?s] rep_grow(1,2) [OF r, of "length ?s + 1"] rep_grow(3) [OF r]
    by (auto simp: comma_def)
  obtain b2 where b2: "poke b1 (pj_position b1) '','' = Some b2" "pj_position b2 = pj_position b1"
      "pj_type b2 = PJSONB_ARRAY" "take (pj_position b1) (pj_string b2) = take (pj_position b1) (pj_string b1)"
    using b1 by (simp add: poke_def holds_def put_bytes_def put_at_def)
  then have h: "holds (b2\<lparr>pj_state := PJSONB_TO_CLOSE\<rparr>) ((''['' @ butlast ?s) @ [last ?s])"
    using b1(2) ne by (simp add: holds_def)
  obtain b3 where "poke (b2\<lparr>pj_state := PJSONB_TO_CLOSE\<rparr>) (length (''['' @ butlast ?s)) '']'' = Some b3"
      "holds b3 ((''['' @ butlast ?s) @ '']'')"
    using poke_last [OF h, of "CHR '']''"] by auto
  then show ?thesis
    using b1 b2 h by (auto simp: pjsonb_set_int_def set_number_def pjsonb_end_def holds_def close_char_def)
qed

text \<open>A member that follows an array is not separated from it: closing an array leaves no
  pending comma, so adding another member puts its key directly behind the bracket.\<close>
theorem json_array_no_comma:
  assumes "rep ty b t c"
  shows "\<exists>b1. (do { u \<leftarrow> build (Some j) (JArray []) b; build (Some k) (JString s) u }) = Some b1 \<and>
           rep ty b1 (t @ comma c @ key_text (Some j) @ ''[]'' @ key_text (Some k) @ quoted s) True"
proof -
  obtain u where u: "build (Some j) (JArray []) b = Some u" "rep ty u (t @ comma c @ key_text (Some j) @ ''[]'') False"
    using build_rep(1) [rule_format, of "JArray []" "Some j" ty b t c] assms by auto
  then show ?thesis
    using build_rep(1) [rule_format, of "JString s" "Some k" ty u "t @ comma c @ key_text (Some j) @ ''[]''" False]
    by (auto simp: comma_def)
qed

theorem json_array_no_comma_witness:
  "\<exists>b1. (do { u \<leftarrow> build (Some ''a'') (JArray []) (pjsonb_init PJSONB_OBJECT); build (Some ''b'') (JString ''x'') u }) = Some b1"
  using json_array_no_comma [OF init_rep [of PJSONB_OBJECT], of "''a''" "''b''" "''x''"] by auto

end
