(* ===== verification/Http_Parser.thy ===== *)
theory Http_Parser
  imports Libtstr
begin

text \<open>
  \<^verbatim>\<open>server/libs/httpparser.c\<close>: the parser of one HTTP/1.1 request in the receive
  buffer. The request record is the C struct; its arrays \<^verbatim>\<open>method[7]\<close>,
  \<^verbatim>\<open>version[4]\<close>, \<^verbatim>\<open>key[64]\<close> and \<^verbatim>\<open>value[1024]\<close> are lists
  of that length, and a copy that does not fit traps. \<^verbatim>\<open>path\<close> and
  \<^verbatim>\<open>body\<close> are heap blocks or the null pointer. Each part of the C function that can
  return \<^verbatim>\<open>-1\<close> early is a definition with a result of type \<open>parse\<close>:
  \<open>Bad\<close> is the early return, with the struct as it was left.
  \<^verbatim>\<open>malloc\<close> is assumed not to fail.
\<close>

section \<open>Data\<close>

record httpparser_header =
  hkey :: bytes
  hvalue :: bytes

record httpparser_request =
  req_method :: bytes
  req_path :: "bytes option"
  req_version :: bytes
  headers_length :: nat
  headers_max_length :: nat
  req_headers :: "httpparser_header list"
  req_body :: "bytes option"
  body_length :: nat
  chunk_length :: int
  finished :: bool

datatype 'a parse = Bad httpparser_request | Next httpparser_request 'a

section \<open>Operations\<close>

text \<open>The three fields that \<^verbatim>\<open>init\<close> does not set keep what the memory held.\<close>

definition httpparser_init_request ::
  "httpparser_request \<Rightarrow> httpparser_header list \<Rightarrow> nat \<Rightarrow> httpparser_request"
where
  "httpparser_init_request http_request buffer n = http_request\<lparr>
     req_path := None, headers_length := 0, headers_max_length := n, req_headers := buffer,
     req_body := None\<rparr>"

definition http_methods :: "string list" where
  "http_methods = [''GET'', ''HEAD'', ''POST'', ''PUT'', ''DELETE'', ''CONNECT'', ''OPTIONS'', ''TRACE'', ''PATCH'']"

fun check_method_loop :: "bytes \<Rightarrow> string list \<Rightarrow> int option" where
  "check_method_loop m [] = Some (- 1)"
| "check_method_loop m (h # hs) = do {
     r \<leftarrow> c_strcmp m (zt h);
     if r = 0 then Some 0 else check_method_loop m hs }"

definition httpparser_check_method :: "bytes \<Rightarrow> int option" where
  "httpparser_check_method m = check_method_loop m http_methods"

fun httpparser_to_lower_case :: "bytes \<Rightarrow> bytes option" where
  "httpparser_to_lower_case [] = None"
| "httpparser_to_lower_case (c # cs) =
     (if c = NUL then Some (c # cs) else map_option ((#) (c_tolower c)) (httpparser_to_lower_case cs))"

text \<open>
  \<^verbatim>\<open>memcpy(dst, src + from, n); dst[n] = '\0';\<close>, the idiom of the whole parser.
\<close>

definition copy_terminated :: "bytes \<Rightarrow> bytes \<Rightarrow> nat \<Rightarrow> int \<Rightarrow> bytes option" where
  "copy_terminated dst src from n = do {
     dst' \<leftarrow> c_memcpy dst 0 src from n;
     wr dst' (nat n) NUL }"

function get_header_loop :: "httpparser_request \<Rightarrow> bytes \<Rightarrow> nat \<Rightarrow> nat option option" where
  "get_header_loop http_request key i =
     (if i < headers_length http_request then do {
        h \<leftarrow> rd (req_headers http_request) i;
        r \<leftarrow> c_strcmp (hkey h) key;
        if r = 0 then Some (Some i) else get_header_loop http_request key (i + 1) }
      else Some None)"
  by pat_completeness auto
termination
  by (relation "measure (\<lambda>(req, key, i). headers_length req - i)") auto

declare get_header_loop.simps [simp del]

text \<open>The index of the header found, \<^verbatim>\<open>None\<close> for the null pointer.\<close>

definition httpparser_get_header :: "httpparser_request \<Rightarrow> bytes \<Rightarrow> nat option option" where
  "httpparser_get_header http_request key = get_header_loop http_request key 0"

text \<open>Lines 45 to 72: method, path and version. \<open>Next\<close> carries the end of the request line.\<close>

definition parse_method :: "httpparser_request \<Rightarrow> bytes \<Rightarrow> nat parse option" where
  "parse_method http_request request = do {
     method_token \<leftarrow> tstr_find_between request None 0 (Some (zt '' '')) 0;
     if tok_end method_token = 0 then Some (Bad http_request)
     else do {
       m \<leftarrow> copy_terminated (req_method http_request) request 0 (int (tok_end method_token));
       let http_request1 = http_request\<lparr>req_method := m\<rparr>;
       ok \<leftarrow> httpparser_check_method m;
       if ok = - 1 then Some (Bad http_request1)
       else Some (Next http_request1 (tok_end method_token)) } }"

definition parse_path :: "httpparser_request \<Rightarrow> bytes \<Rightarrow> nat \<Rightarrow> nat parse option" where
  "parse_path http_request request method_end = do {
     path_token \<leftarrow> tstr_find_between request None (method_end + 1) (Some (zt '' '')) 0;
     if tok_end path_token = 0 then Some (Bad http_request)
     else do {
       let n = int (tok_end path_token) - int (tok_start path_token);
       p \<leftarrow> copy_terminated (replicate (nat (n + 1)) NUL) request (tok_start path_token) n;
       Some (Next (http_request\<lparr>req_path := Some p\<rparr>) (tok_end path_token)) } }"

definition parse_version :: "httpparser_request \<Rightarrow> bytes \<Rightarrow> nat \<Rightarrow> nat parse option" where
  "parse_version http_request request path_end = do {
     version_token \<leftarrow> tstr_find_between request None (path_end + 1 + 5) (Some (zt CRLF)) 0;
     if tok_end version_token = 0 then Some (Bad http_request)
     else do {
       v \<leftarrow> copy_terminated (req_version http_request) request (tok_start version_token)
              (int (tok_end version_token) - int (tok_start version_token));
       let http_request1 = http_request\<lparr>req_version := v\<rparr>;
       r \<leftarrow> c_strcmp v (zt ''1.1'');
       if r \<noteq> 0 then Some (Bad http_request1)
       else Some (Next http_request1 (tok_end version_token)) } }"

text \<open>
  One pass of the header loop: \<open>last_end\<close> is \<^verbatim>\<open>last_header.end\<close>, and \<open>Next\<close>
  carries the content length and the end of the header just read.
\<close>

definition parse_header ::
  "httpparser_request \<Rightarrow> bytes \<Rightarrow> nat \<Rightarrow> int \<Rightarrow> (int \<times> nat) parse option"
where
  "parse_header http_request request last_end content_length = do {
     header \<leftarrow> tstr_find_between request None (last_end + 2) (Some (zt CRLF)) 0;
     header_name \<leftarrow> tstr_find_between request None (tok_start header) (Some (zt '': '')) (tok_end header);
     if tok_start header_name = 0 \<or> tok_end header_name = 0
        \<or> headers_max_length http_request \<le> headers_length http_request
     then Some (Bad http_request)
     else do {
       let key_length = int (tok_end header_name) - int (tok_start header_name);
       let value_length = int (tok_end header) - int (tok_end header_name) - 2;
       h \<leftarrow> rd (req_headers http_request) (headers_length http_request);
       k \<leftarrow> copy_terminated (hkey h) request (tok_start header_name) key_length;
       k' \<leftarrow> httpparser_to_lower_case k;
       v \<leftarrow> copy_terminated (hvalue h) request (tok_end header_name + 2) value_length;
       is_length \<leftarrow> c_strcmp k' (zt ''content-length'');
       content_length' \<leftarrow> (if is_length = 0 then c_atoi (drop (tok_start header + 16) request)
                           else Some content_length);
       Some (Next (http_request\<lparr>
           req_headers := (req_headers http_request)[headers_length http_request := \<lparr>hkey = k', hvalue = v\<rparr>],
           headers_length := headers_length http_request + 1\<rparr>)
         (content_length', tok_end header)) } }"

lemma parse_header_grows:
  "parse_header req buf e cl = Some (Next req' r) \<Longrightarrow>
   headers_length req < headers_max_length req \<and>
   headers_length req' = Suc (headers_length req) \<and> headers_max_length req' = headers_max_length req"
  by (auto simp: parse_header_def Let_def split: bind_splits if_splits)

text \<open>The header loop, from the end of the previous line to the end of the headers.\<close>

function parse_headers ::
  "httpparser_request \<Rightarrow> bytes \<Rightarrow> nat \<Rightarrow> nat \<Rightarrow> int \<Rightarrow> int parse option"
where
  "parse_headers http_request request headers_end last_end content_length =
     (if last_end = headers_end then Some (Next http_request content_length)
      else do {
        r \<leftarrow> parse_header http_request request last_end content_length;
        case r of
          Bad http_request' \<Rightarrow> Some (Bad http_request')
        | Next http_request' (content_length', last_end') \<Rightarrow>
            parse_headers http_request' request headers_end last_end' content_length' })"
  by pat_completeness auto
termination
  by (relation "measure (\<lambda>(req, buf, he, le, cl). headers_max_length req - headers_length req)")
     (auto dest!: parse_header_grows)

declare parse_headers.simps [simp del]

text \<open>\<^verbatim>\<open>strtol(s, NULL, 16)\<close> on the chunk size, which has at most four characters.\<close>

definition hex_val :: "char \<Rightarrow> nat option" where
  "hex_val c = (let n = (of_char c :: nat) in
     if 48 \<le> n \<and> n \<le> 57 then Some (n - 48)
     else if 97 \<le> n \<and> n \<le> 102 then Some (n - 87)
     else if 65 \<le> n \<and> n \<le> 70 then Some (n - 55)
     else None)"

fun scan_hex :: "nat \<Rightarrow> string \<Rightarrow> nat" where
  "scan_hex n [] = n"
| "scan_hex n (c # cs) = (case hex_val c of None \<Rightarrow> n | Some d \<Rightarrow> scan_hex (16 * n + d) cs)"

definition strip_0x :: "string \<Rightarrow> string" where
  "strip_0x s = (case s of
     z # x # d # r \<Rightarrow> if z = CHR ''0'' \<and> (x = CHR ''x'' \<or> x = CHR ''X'') \<and> hex_val d \<noteq> None then d # r else s
   | _ \<Rightarrow> s)"

definition c_strtol16 :: "string \<Rightarrow> int" where
  "c_strtol16 s = (let t = dropWhile is_space s in case t of
     [] \<Rightarrow> 0
   | c # cs \<Rightarrow> if c = CHR ''-'' then - int (scan_hex 0 (strip_0x cs))
               else if c = CHR ''+'' then int (scan_hex 0 (strip_0x cs))
               else int (scan_hex 0 (strip_0x t)))"

text \<open>Lines 113 to 135, a chunked body; only the first chunk is read.\<close>

definition parse_chunked ::
  "httpparser_request \<Rightarrow> bytes \<Rightarrow> int \<Rightarrow> nat \<Rightarrow> (int \<times> httpparser_request) option"
where
  "parse_chunked http_request request request_length headers_end = do {
     let body_and_length = drop (headers_end + 4) request;
     chunk_size \<leftarrow> tstr_find_between body_and_length None 0 (Some (zt CRLF)) 0;
     if tok_end chunk_size = 0 then Some (- 1, http_request)
     else do {
       chunk_size_str \<leftarrow> copy_terminated (replicate 5 NUL) body_and_length 0 (int (tok_end chunk_size));
       let chunk = c_strtol16 (cstr chunk_size_str);
       let available = (request_length + int headers_end - 4) - int (tok_end chunk_size) - 2;
       let requested_length = (if available > chunk then chunk else available);
       b \<leftarrow> c_memcpy (replicate (nat requested_length) NUL) 0 body_and_length
              (tok_end chunk_size + 2) requested_length;
       Some (0, http_request\<lparr>chunk_length := chunk, body_length := nat requested_length,
                  req_body := Some b, finished := (requested_length = chunk)\<rparr>) } }"

text \<open>Lines 106 to 149: the body.\<close>

definition parse_body ::
  "httpparser_request \<Rightarrow> bytes \<Rightarrow> int \<Rightarrow> nat \<Rightarrow> int \<Rightarrow> (int \<times> httpparser_request) option"
where
  "parse_body http_request request request_length headers_end content_length = do {
     te \<leftarrow> httpparser_get_header http_request (zt ''transfer-encoding'');
     if content_length > 0 \<or> te \<noteq> None then do {
       ct \<leftarrow> httpparser_get_header http_request (zt ''content-type'');
       if ct = None then Some (- 1, http_request)
       else do {
         chunked \<leftarrow> (case te of
             None \<Rightarrow> Some False
           | Some i \<Rightarrow> do {
               h \<leftarrow> rd (req_headers http_request) i;
               r \<leftarrow> c_strcmp (hvalue h) (zt ''chunked'');
               Some (r = 0) });
         if chunked then parse_chunked http_request request request_length headers_end
         else if request_length - int headers_end - 4 \<noteq> content_length then Some (- 1, http_request)
         else do {
           b \<leftarrow> c_memcpy (replicate (nat content_length) NUL) 0 request (headers_end + 4) content_length;
           Some (0, http_request\<lparr>req_body := Some b, body_length := nat content_length,
                      finished := True\<rparr>) } } }
     else if content_length > 0 then Some (- 1, http_request)
     else Some (0, http_request) }"

definition httpparser_parse_request ::
  "httpparser_request \<Rightarrow> bytes \<Rightarrow> int \<Rightarrow> (int \<times> httpparser_request) option"
where
  "httpparser_parse_request http_request request request_length = do {
     headers_end \<leftarrow> tstr_find_between request None 0 (Some (zt (CRLF @ CRLF))) 0;
     if tok_end headers_end = 0 then Some (- 1, http_request)
     else do {
       r1 \<leftarrow> parse_method http_request request;
       case r1 of Bad q \<Rightarrow> Some (- 1, q) | Next q1 method_end \<Rightarrow> do {
       r2 \<leftarrow> parse_path q1 request method_end;
       case r2 of Bad q \<Rightarrow> Some (- 1, q) | Next q2 path_end \<Rightarrow> do {
       r3 \<leftarrow> parse_version q2 request path_end;
       case r3 of Bad q \<Rightarrow> Some (- 1, q) | Next q3 version_end \<Rightarrow> do {
       r4 \<leftarrow> parse_headers q3 request (tok_end headers_end) version_end 0;
       case r4 of Bad q \<Rightarrow> Some (- 1, q) | Next q4 content_length \<Rightarrow>
       parse_body q4 request request_length (tok_end headers_end) content_length } } } } }"

text \<open>The blocks handed to \<^verbatim>\<open>free\<close>, in order, and the struct afterwards.\<close>

definition httpparser_free_request :: "httpparser_request \<Rightarrow> bytes list \<times> httpparser_request" where
  "httpparser_free_request http_request =
     ((case req_path http_request of None \<Rightarrow> [] | Some p \<Rightarrow> [p]) @
      (case req_body http_request of None \<Rightarrow> [] | Some b \<Rightarrow> [b]),
      http_request\<lparr>req_path := None, req_body := None\<rparr>)"

section \<open>Well-formed requests\<close>

text \<open>
  The text of a request, and the conditions under which the parser inverts it: the header
  and value arrays are large enough, the separators of a field do not occur in it, and a
  content length is a short decimal number. \<open>req_shape\<close> are the sizes of the arrays.
\<close>

definition lower :: "string \<Rightarrow> string" where
  "lower s = map c_tolower s"

definition digits_value :: "string \<Rightarrow> nat" where
  "digits_value v = foldl (\<lambda>a c. 10 * a + digit_val c) 0 v"

definition line_text :: "string \<Rightarrow> bool" where
  "line_text s \<longleftrightarrow> set s \<inter> {NUL, CR} = {}"

definition good_header :: "string \<times> string \<Rightarrow> bool" where
  "good_header h \<longleftrightarrow> (case h of (k, v) \<Rightarrow>
     line_text k \<and> line_text v \<and> CHR '':'' \<notin> set k \<and> length k < 64 \<and> length v < 1024 \<and>
     (lower k \<noteq> ''content-length'' \<or> v \<noteq> [] \<and> list_all is_digit v \<and> length v < 10))"

definition good_path :: "string \<Rightarrow> bool" where
  "good_path p \<longleftrightarrow> line_text p \<and> SP \<notin> set p"

definition header_line :: "string \<times> string \<Rightarrow> string" where
  "header_line h = fst h @ '': '' @ snd h"

definition request_line :: "string \<Rightarrow> string \<Rightarrow> string" where
  "request_line m p = m @ '' '' @ p @ '' HTTP/1.1''"

definition render_headers :: "(string \<times> string) list \<Rightarrow> string" where
  "render_headers hs = concat (map (\<lambda>h. header_line h @ CRLF) hs)"

definition render_request :: "string \<Rightarrow> string \<Rightarrow> (string \<times> string) list \<Rightarrow> string" where
  "render_request m p hs =
     request_line m p @ CRLF @ render_headers hs @ CRLF"

definition header_length :: "string \<times> string \<Rightarrow> int \<Rightarrow> int" where
  "header_length h cl = (if lower (fst h) = ''content-length'' then int (digits_value (snd h)) else cl)"

definition declared_length :: "(string \<times> string) list \<Rightarrow> int" where
  "declared_length hs = fold header_length hs 0"

definition lowered :: "(string \<times> string) list \<Rightarrow> (string \<times> string) list" where
  "lowered hs = map (\<lambda>(k, v). (lower k, v)) hs"

definition header_text :: "httpparser_header \<Rightarrow> string \<times> string" where
  "header_text h = (cstr (hkey h), cstr (hvalue h))"

definition headers_of :: "httpparser_request \<Rightarrow> (string \<times> string) list" where
  "headers_of req = map header_text (take (headers_length req) (req_headers req))"

definition header_shape :: "httpparser_header \<Rightarrow> bool" where
  "header_shape h \<longleftrightarrow> length (hkey h) = 64 \<and> length (hvalue h) = 1024"

definition req_shape :: "httpparser_request \<Rightarrow> bool" where
  "req_shape req \<longleftrightarrow> length (req_method req) = 7 \<and> length (req_version req) = 4 \<and>
     length (req_headers req) = headers_max_length req \<and> list_all header_shape (req_headers req)"

definition header_ok :: "httpparser_header \<Rightarrow> bool" where
  "header_ok h \<longleftrightarrow> NUL \<in> set (hkey h) \<and> NUL \<in> set (hvalue h)"

definition request_ok :: "httpparser_request \<Rightarrow> bool" where
  "request_ok req \<longleftrightarrow> req_shape req \<and> headers_length req \<le> headers_max_length req \<and>
     list_all header_ok (take (headers_length req) (req_headers req))"

lemma line_text_simps [simp]:
  "line_text []" "line_text (c # s) \<longleftrightarrow> c \<noteq> NUL \<and> c \<noteq> CR \<and> line_text s"
  "line_text (s @ t) \<longleftrightarrow> line_text s \<and> line_text t"
  by (auto simp: line_text_def)

lemma line_text_c_string: "line_text s \<Longrightarrow> c_string s"
  by (auto simp: line_text_def c_string_def)

lemma line_text_CR: "line_text s \<Longrightarrow> CR \<notin> set s"
  by (auto simp: line_text_def)

lemma lower_Cons [simp]: "lower [] = []" "lower (c # s) = c_tolower c # lower s"
  by (simp_all add: lower_def)

lemma c_tolower_NUL [simp]: "c_tolower c = NUL \<longleftrightarrow> c = NUL"
proof -
  have "(of_char (c_tolower c) :: nat) = 0 \<longleftrightarrow> (of_char c :: nat) = 0"
    by (simp add: c_tolower_def)
  moreover have "(of_char NUL :: nat) = 0" by simp
  then have "(of_char x :: nat) = 0 \<longleftrightarrow> x = NUL" for x
    by (metis of_char_eq_iff)
  ultimately show ?thesis by simp
qed

lemma c_string_lower [simp]: "c_string (lower s) = c_string s"
  by (induction s) auto

lemma to_lower_case_zt:
  "c_string s \<Longrightarrow> httpparser_to_lower_case (s @ NUL # r) = Some (lower s @ NUL # r)"
  by (induction s) auto

lemma copy_terminated_fits:
  assumes "length s < length dst"
  shows "copy_terminated dst (pre @ s @ post) (length pre) (int (length s)) =
           Some (s @ NUL # drop (Suc (length s)) dst)"
proof -
  obtain x xs where d: "drop (length s) dst = x # xs" using assms by (cases "drop (length s) dst") auto
  then have "xs = drop (Suc (length s)) dst" by (metis drop_Suc tl_drop list.sel(3))
  then show ?thesis using assms d by (simp add: copy_terminated_def c_memcpy_def)
qed

lemma copy_terminated_overrun:
  "length dst \<le> length s \<Longrightarrow> copy_terminated dst (pre @ s @ post) (length pre) (int (length s)) = None"
  by (auto simp: copy_terminated_def c_memcpy_def)

section \<open>The blank line that ends the headers\<close>

lemma scan_lines:
  assumes "line_text l" and "list_all (\<lambda>x. line_text x \<and> x \<noteq> []) ls" and "0 < i + length l"
  shows "scan_end (l @ CRLF @ concat (map (\<lambda>x. x @ CRLF) ls) @ post) (zt (CRLF @ CRLF)) i 0 0 =
         scan_end (CRLF @ post) (zt (CRLF @ CRLF)) (i + length l + length (concat (map (\<lambda>x. x @ CRLF) ls))) 0 0"
  using assms
proof (induction ls arbitrary: l i)
  case Nil
  then show ?case
    using scan_end_skip [of "CRLF @ CRLF" l "CRLF @ post" i]
    by (simp del: scan_end.simps add: line_text_CR line_text_c_string)
next
  case (Cons x ls)
  then obtain c t where x: "x = c # t" "c \<noteq> CR" "c \<noteq> NUL" "line_text t"
    by (cases x) auto
  have "scan_end (t @ CRLF @ concat (map (\<lambda>x. x @ CRLF) ls) @ post) (zt (CRLF @ CRLF)) (i + length l + 3) 0 0 =
      scan_end (CRLF @ post) (zt (CRLF @ CRLF)) (i + length l + 3 + length t + length (concat (map (\<lambda>x. x @ CRLF) ls))) 0 0"
    by (rule Cons.IH) (use Cons.prems x in auto)
  moreover have "scan_end (l @ CRLF @ concat (map (\<lambda>x. x @ CRLF) (x # ls)) @ post) (zt (CRLF @ CRLF)) i 0 0 =
       scan_end (CRLF @ c # t @ CRLF @ concat (map (\<lambda>x. x @ CRLF) ls) @ post) (zt (CRLF @ CRLF)) (i + length l) 0 0"
    using scan_end_skip [of "CRLF @ CRLF" l _ i] Cons.prems x(1)
    by (simp del: scan_end.simps add: line_text_CR line_text_c_string)
  moreover have "scan_end (CRLF @ c # s) (zt (CRLF @ CRLF)) (i + length l) 0 0 =
      scan_end s (zt (CRLF @ CRLF)) (i + length l + 3) 0 0" for s
    using x Cons.prems(3) by (simp add: zt_def numeral_eq_Suc)
  ultimately show ?case using x(1) by (simp del: scan_end.simps add: eval_nat_numeral ac_simps)
qed

lemma headers_end_scan:
  assumes "line_text l" and "list_all (\<lambda>x. line_text x \<and> x \<noteq> []) ls" and "0 < i + length l"
  shows "\<exists>i' j'. scan_end (l @ CRLF @ concat (map (\<lambda>x. x @ CRLF) ls) @ CRLF @ post) (zt (CRLF @ CRLF)) i 0 0 =
         Some (True, i', j', i + length l + length (concat (map (\<lambda>x. x @ CRLF) ls)))"
  unfolding scan_lines [OF assms]
  using scan_end_match [of "CRLF @ CRLF" "CRLF @ CRLF" "[]" "i + length l + length (concat (map (\<lambda>x. x @ CRLF) ls))" post 0] assms(3)
  by (auto simp del: scan_end.simps)

section \<open>The request line and one header\<close>

lemma check_method_loop_mem:
  "c_string m \<Longrightarrow> \<forall>h\<in>set hs. c_string h \<Longrightarrow>
   check_method_loop (m @ NUL # r) hs = Some (if m \<in> set hs then 0 else - 1)"
proof (induction hs)
  case Nil
  then show ?case by simp
next
  case (Cons h hs)
  obtain v where v: "c_strcmp (m @ NUL # r) (zt h) = Some v"
    using c_strcmp_defined [of m h r "[]"] Cons.prems by (auto simp: zt_def)
  then have "v = 0 \<longleftrightarrow> m = h"
    using c_strcmp_eq_0 [of m h r "[]"] Cons.prems by (auto simp: zt_def)
  then show ?case using v Cons by simp
qed

lemma check_method:
  "c_string m \<Longrightarrow> httpparser_check_method (m @ NUL # r) = Some (if m \<in> set http_methods then 0 else - 1)"
  unfolding httpparser_check_method_def by (rule check_method_loop_mem) (auto simp: http_methods_def)

lemma http_methods_plain:
  "m \<in> set http_methods \<Longrightarrow> line_text m \<and> SP \<notin> set m \<and> m \<noteq> []"
  by (auto simp: http_methods_def)

lemma parse_method_cases:
  assumes "line_text m" and "SP \<notin> set m" and "m \<noteq> []" and "length (req_method req) = 7"
  shows "parse_method req (m @ '' '' @ post) =
           (if 7 \<le> length m then None
            else let q = req\<lparr>req_method := m @ NUL # drop (Suc (length m)) (req_method req)\<rparr>
                 in if m \<in> set http_methods then Some (Next q (length m)) else Some (Bad q))"
proof -
  have f: "tstr_find_between (m @ '' '' @ post) None 0 (Some (zt '' '')) 0 =
      Some \<lparr>tok_start = 0, tok_end = length m\<rparr>"
    by (rule find_between_first) (use assms in \<open>auto simp: line_text_c_string\<close>)
  have c: "copy_terminated (req_method req) (m @ '' '' @ post) 0 (int (length m)) =
      (if 7 \<le> length m then None else Some (m @ NUL # drop (Suc (length m)) (req_method req)))"
    using copy_terminated_fits [of m "req_method req" "[]"] copy_terminated_overrun [of "req_method req" m "[]"]
      assms(4) by auto
  show ?thesis
    using assms check_method [of m] f c by (auto simp: parse_method_def Let_def line_text_c_string)
qed

lemma parse_path_good:
  assumes "good_path p" and "pre \<noteq> []"
  shows "parse_path req (pre @ '' '' @ p @ '' '' @ post) (length pre) =
           Some (Next (req\<lparr>req_path := Some (zt p)\<rparr>) (length pre + 1 + length p))"
proof -
  have "tstr_find_between ((pre @ '' '' @ p) @ '' '' @ post) None (length pre + 1) (Some (zt '' '')) 0 =
      Some \<lparr>tok_start = length pre + 1, tok_end = length (pre @ '' '' @ p)\<rparr>"
    by (rule find_between_first) (use assms in \<open>auto simp: good_path_def line_text_c_string\<close>)
  moreover have "copy_terminated (replicate (Suc (length p)) NUL) ((pre @ '' '') @ p @ '' '' @ post)
      (length (pre @ '' '')) (int (length p)) = Some (zt p)"
    by (subst copy_terminated_fits) (auto simp: zt_def)
  ultimately show ?thesis by (simp add: parse_path_def nat_add_distrib)
qed

lemma parse_version_good:
  assumes "length (req_version req) = 4" and "p = pre @ '' HTTP/''" and "pre \<noteq> []"
  shows "parse_version req (p @ ''1.1'' @ CRLF @ post) (length pre) =
           Some (Next (req\<lparr>req_version := zt ''1.1''\<rparr>) (length p + 3))"
proof -
  have "tstr_find_between ((p @ ''1.1'') @ CRLF @ post) None (length pre + 1 + 5) (Some (zt CRLF)) 0 =
      Some \<lparr>tok_start = length pre + 1 + 5, tok_end = length (p @ ''1.1'')\<rparr>"
    by (rule find_between_first) (use assms in auto)
  moreover have "copy_terminated (req_version req) (p @ ''1.1'' @ CRLF @ post) (length p) (int (length ''1.1'')) =
      Some (zt ''1.1'')"
    by (subst copy_terminated_fits) (use assms(1) in \<open>auto simp: zt_def\<close>)
  moreover have "c_strcmp (zt ''1.1'') (zt ''1.1'') = Some 0"
    using c_strcmp_refl [of "''1.1''" "[]" "[]"] by (simp add: zt_def)
  ultimately show ?thesis using assms(2) by (simp add: parse_version_def eval_nat_numeral)
qed


lemma foldl_digits_bound:
  "list_all is_digit v \<Longrightarrow> foldl (\<lambda>a c. 10 * a + digit_val c) n v < (n + 1) * 10 ^ length v"
proof (induction v arbitrary: n)
  case Nil
  then show ?case by simp
next
  case (Cons c v)
  have "(of_char c :: nat) \<le> 57" using Cons.prems by (simp add: is_digit_def)
  then have "digit_val c \<le> 9" unfolding digit_val_def by linarith
  then have "(10 * n + digit_val c + 1) * 10 ^ length v \<le> (10 * (n + 1)) * 10 ^ length v"
    by (intro mult_right_mono) auto
  moreover have "foldl (\<lambda>a c. 10 * a + digit_val c) (10 * n + digit_val c) v <
      (10 * n + digit_val c + 1) * 10 ^ length v"
    by (rule Cons.IH) (use Cons.prems in simp)
  ultimately have "foldl (\<lambda>a c. 10 * a + digit_val c) (10 * n + digit_val c) v <
      (10 * (n + 1)) * 10 ^ length v"
    by linarith
  then show ?case by (simp add: distrib_right mult.assoc mult.left_commute)
qed

lemma c_atoi_digits:
  assumes "v \<noteq> []" and "list_all is_digit v" and "length v < 10" and "\<not> is_digit c"
  shows "c_atoi (v @ c # r) = Some (int (digits_value v))"
proof -
  obtain d ds where d: "v = d # ds" "is_digit d" using assms(1,2) by (cases v) auto
  have "digits_value v < 10 ^ length v"
    using foldl_digits_bound [OF assms(2), of 0] by (simp add: digits_value_def)
  also have "\<dots> \<le> 10 ^ 9" by (rule power_increasing) (use assms(3) in auto)
  finally have "in_int (int (digits_value v))" by (simp add: in_int_def)
  moreover have "scan_digits 0 (v @ c # r) = Some (digits_value v)"
    using assms(2,4) by (simp add: scan_digits_append digits_value_def)
  ultimately show ?thesis
    using d by (auto simp: c_atoi_def rd_def is_digit_facts)
qed

definition add_header :: "httpparser_request \<Rightarrow> string \<Rightarrow> string \<Rightarrow> httpparser_request" where
  "add_header req k v = req\<lparr>
     req_headers := (req_headers req)[headers_length req :=
       \<lparr>hkey = lower k @ NUL # drop (Suc (length k)) (hkey (req_headers req ! headers_length req)),
        hvalue = v @ NUL # drop (Suc (length v)) (hvalue (req_headers req ! headers_length req))\<rparr>],
     headers_length := headers_length req + 1\<rparr>"

lemma length_lower [simp]: "length (lower s) = length s"
  by (simp add: lower_def)

lemma parse_header_cases:
  assumes "line_text k" and "line_text v" and "CHR '':'' \<notin> set k" and "pre \<noteq> []" and "req_shape req"
    and "lower k \<noteq> ''content-length'' \<or> v \<noteq> [] \<and> list_all is_digit v \<and> length v < 10"
    and "buf = pre @ CRLF @ header_line (k, v) @ CRLF @ post"
  shows "parse_header req buf (length pre) cl =
           (if headers_max_length req \<le> headers_length req then Some (Bad req)
            else if 64 \<le> length k \<or> 1024 \<le> length v then None
            else Some (Next (add_header req k v)
              (header_length (k, v) cl, length pre + 2 + length (header_line (k, v)))))"
proof -
  let ?n = "headers_length req"
  have b1: "buf = (pre @ CRLF @ k @ '': '' @ v) @ CRLF @ post"
    and b2: "buf = (pre @ CRLF @ k) @ '': '' @ v @ CRLF @ post"
    and b3: "buf = (pre @ CRLF) @ k @ '': '' @ v @ CRLF @ post"
    and b4: "buf = (pre @ CRLF @ k @ '': '') @ v @ CRLF @ post"
    using assms(7) by (simp_all add: header_line_def)
  have f1: "tstr_find_between buf None (length pre + 2) (Some (zt CRLF)) 0 =
      Some \<lparr>tok_start = length pre + 2, tok_end = length (pre @ CRLF @ k @ '': '' @ v)\<rparr>"
    unfolding b1
    by (rule find_between_first) (use assms in \<open>auto simp: line_text_c_string dest: line_text_CR\<close>)
  have f2: "tstr_find_between buf None (length pre + 2) (Some (zt '': '')) n =
      Some \<lparr>tok_start = length pre + 2, tok_end = length (pre @ CRLF @ k)\<rparr>" for n
    unfolding b2
    by (rule find_between_first) (use assms in \<open>auto simp: line_text_c_string\<close>)
  show ?thesis
  proof (cases "headers_max_length req \<le> ?n")
    case True
    then show ?thesis using f1 f2 by (simp add: parse_header_def)
  next
    case False
    then have n: "?n < length (req_headers req)" and h: "header_shape (req_headers req ! ?n)"
      using assms(5) by (auto simp: req_shape_def list_all_length)
    let ?h = "req_headers req ! ?n"
    have ck: "copy_terminated (hkey ?h) buf (length pre + 2) (int (length k)) =
        (if 64 \<le> length k then None else Some (k @ NUL # drop (Suc (length k)) (hkey ?h)))"
      using copy_terminated_fits [of k "hkey ?h" "pre @ CRLF"] h
        copy_terminated_overrun [of "hkey ?h" k "pre @ CRLF"]
      unfolding b3 by (auto simp: header_shape_def)
    have cv: "copy_terminated (hvalue ?h) buf (length pre + 2 + length k + 2) (int (length v)) =
        (if 1024 \<le> length v then None else Some (v @ NUL # drop (Suc (length v)) (hvalue ?h)))"
      using copy_terminated_fits [of v "hvalue ?h" "pre @ CRLF @ k @ '': ''"] h
        copy_terminated_overrun [of "hvalue ?h" v "pre @ CRLF @ k @ '': ''"]
      unfolding b4 by (auto simp: header_shape_def add.assoc)
    obtain x where x: "c_strcmp (lower k @ NUL # drop (Suc (length k)) (hkey ?h)) (zt ''content-length'') = Some x"
      using c_strcmp_defined [of "lower k" "''content-length''" "drop (Suc (length k)) (hkey ?h)" "[]"] assms(1)
      by (auto simp: zt_def line_text_c_string)
    have x0: "x = 0 \<longleftrightarrow> lower k = ''content-length''"
      using c_strcmp_eq_0 [of "lower k" "''content-length''" "drop (Suc (length k)) (hkey ?h)" "[]"] x assms(1)
      by (auto simp: zt_def line_text_c_string)
    have a: "c_atoi (drop (length pre + 2 + 16) buf) = Some (int (digits_value v))"
      if "lower k = ''content-length''"
    proof -
      have "length k = 14" using that length_lower [of k] by simp
      then have "drop (length pre + 2 + 16) buf = v @ CR # LF # post"
        unfolding b4 by simp
      then show ?thesis
        using c_atoi_digits [of v CR "LF # post"] assms(6) that by (simp add: is_digit_def)
    qed
    show ?thesis
      using False n ck cv x x0 a assms(1) f1 f2
      by (auto simp: parse_header_def Let_def to_lower_case_zt line_text_c_string add_header_def
          header_length_def header_line_def ac_simps intro: bind_eq_SomeI)
  qed
qed


section \<open>All headers\<close>

lemma add_header_sel [simp]:
  "headers_max_length (add_header req k v) = headers_max_length req"
  "headers_length (add_header req k v) = Suc (headers_length req)"
  "req_path (add_header req k v) = req_path req" "req_method (add_header req k v) = req_method req"
  "req_version (add_header req k v) = req_version req" "req_body (add_header req k v) = req_body req"
  by (simp_all add: add_header_def)

lemma add_header_ok:
  assumes "request_ok req" and "headers_length req < headers_max_length req"
    and "line_text k" and "line_text v" and "length k < 64" and "length v < 1024"
  shows "request_ok (add_header req k v)"
    and "headers_of (add_header req k v) = headers_of req @ [(lower k, v)]"
proof -
  have n: "headers_length req < length (req_headers req)"
    and sh: "header_shape (req_headers req ! headers_length req)"
    using assms(1,2) by (auto simp: request_ok_def req_shape_def list_all_length)
  have upd: "take (Suc i) (xs[i := x]) = take i xs @ [x]" if "i < length xs" for i xs and x :: httpparser_header
    using that by (simp add: take_Suc_conv_app_nth)
  show "request_ok (add_header req k v)"
    using assms n sh
    by (auto simp: request_ok_def req_shape_def add_header_def upd header_ok_def header_shape_def
        list_all_iff dest!: set_update_subset_insert [THEN subsetD])
  show "headers_of (add_header req k v) = headers_of req @ [(lower k, v)]"
    using n assms by (simp add: headers_of_def add_header_def upd header_text_def cstr_append_NUL
        line_text_c_string)
qed

text \<open>The loop over a prefix of the headers that is well-formed, whatever follows it.\<close>

lemma parse_headers_prefix:
  assumes "list_all good_header hs" and "pre \<noteq> []" and "request_ok req"
    and "headers_length req + length hs \<le> headers_max_length req"
    and "buf = pre @ CRLF @ concat (map (\<lambda>h. header_line h @ CRLF) hs) @ post"
    and "length pre + length (concat (map (\<lambda>h. header_line h @ CRLF) hs)) \<le> he"
  shows "\<exists>req'. parse_headers req buf he (length pre) cl =
           parse_headers req' buf he (length pre + length (concat (map (\<lambda>h. header_line h @ CRLF) hs))) (fold header_length hs cl) \<and>
           request_ok req' \<and> headers_of req' = headers_of req @ map (\<lambda>(k, v). (lower k, v)) hs \<and>
           headers_length req' = headers_length req + length hs \<and> headers_max_length req' = headers_max_length req \<and>
           req_path req' = req_path req \<and> req_method req' = req_method req \<and>
           req_version req' = req_version req \<and> req_body req' = req_body req"
  using assms
proof (induction hs arbitrary: req pre cl)
  case Nil
  then show ?case by (intro exI [of _ req]) simp
next
  case (Cons h hs)
  obtain k v where h: "h = (k, v)" by (cases h)
  have g: "line_text k" "line_text v" "CHR '':'' \<notin> set k" "length k < 64" "length v < 1024"
    "lower k \<noteq> ''content-length'' \<or> v \<noteq> [] \<and> list_all is_digit v \<and> length v < 10"
    using Cons.prems(1) h by (auto simp: good_header_def)
  let ?q = "add_header req k v" and ?pre = "pre @ CRLF @ header_line h"
  have room: "headers_length req < headers_max_length req" using Cons.prems(4) by simp
  have one: "parse_header req buf (length pre) cl =
      Some (Next ?q (header_length (k, v) cl, length ?pre))"
    using parse_header_cases [of k v pre req buf "concat (map (\<lambda>h. header_line h @ CRLF) hs) @ post" cl]
      g room Cons.prems h by (auto simp: request_ok_def)
  have "\<exists>req'. parse_headers ?q buf he (length ?pre) (header_length (k, v) cl) =
           parse_headers req' buf he (length ?pre + length (concat (map (\<lambda>h. header_line h @ CRLF) hs)))
             (fold header_length hs (header_length (k, v) cl)) \<and>
           request_ok req' \<and> headers_of req' = headers_of ?q @ map (\<lambda>(k, v). (lower k, v)) hs \<and>
           headers_length req' = headers_length ?q + length hs \<and> headers_max_length req' = headers_max_length ?q \<and>
           req_path req' = req_path ?q \<and> req_method req' = req_method ?q \<and>
           req_version req' = req_version ?q \<and> req_body req' = req_body ?q"
    by (rule Cons.IH) (use Cons.prems room g h add_header_ok(1) in auto)
  moreover have "parse_headers req buf he (length pre) cl = parse_headers ?q buf he (length ?pre) (header_length (k, v) cl)"
    using one Cons.prems(6) by (subst parse_headers.simps) simp
  ultimately show ?case
    using add_header_ok(2) [OF Cons.prems(3) room g(1,2,4,5)] h by (simp add: ac_simps)
qed

lemma parse_headers_good:
  assumes "list_all good_header hs" and "pre \<noteq> []" and "request_ok req"
    and "headers_length req + length hs \<le> headers_max_length req"
    and "buf = pre @ CRLF @ concat (map (\<lambda>h. header_line h @ CRLF) hs) @ post"
    and "he = length pre + length (concat (map (\<lambda>h. header_line h @ CRLF) hs))"
  shows "\<exists>req'. parse_headers req buf he (length pre) cl = Some (Next req' (fold header_length hs cl)) \<and>
           request_ok req' \<and> headers_of req' = headers_of req @ map (\<lambda>(k, v). (lower k, v)) hs \<and>
           req_path req' = req_path req \<and> req_method req' = req_method req \<and>
           req_version req' = req_version req \<and> req_body req' = req_body req"
proof -
  have "parse_headers req' buf he he cl' = Some (Next req' cl')" for req' cl'
    by (subst parse_headers.simps) simp
  then show ?thesis using parse_headers_prefix [OF assms(1-5), of he cl] assms(6) by auto
qed

lemma parse_headers_too_many:
  assumes "list_all good_header hs" and "pre \<noteq> []" and "request_ok req"
    and "headers_max_length req < headers_length req + length hs"
    and "buf = pre @ CRLF @ concat (map (\<lambda>h. header_line h @ CRLF) hs) @ post"
    and "he = length pre + length (concat (map (\<lambda>h. header_line h @ CRLF) hs))"
  shows "\<exists>req'. parse_headers req buf he (length pre) cl = Some (Bad req') \<and>
           headers_length req' = headers_max_length req \<and> req_path req' = req_path req"
  using assms
proof (induction hs arbitrary: req pre cl)
  case Nil
  then show ?case by (simp add: request_ok_def)
next
  case (Cons h hs)
  obtain k v where h: "h = (k, v)" by (cases h)
  have g: "line_text k" "line_text v" "CHR '':'' \<notin> set k" "length k < 64" "length v < 1024"
    "lower k \<noteq> ''content-length'' \<or> v \<noteq> [] \<and> list_all is_digit v \<and> length v < 10"
    using Cons.prems(1) h by (auto simp: good_header_def)
  let ?q = "add_header req k v" and ?pre = "pre @ CRLF @ header_line h"
  have one: "parse_header req buf (length pre) cl =
      (if headers_max_length req \<le> headers_length req then Some (Bad req)
       else Some (Next ?q (header_length (k, v) cl, length ?pre)))"
    using parse_header_cases [of k v pre req buf "concat (map (\<lambda>h. header_line h @ CRLF) hs) @ post" cl]
      g Cons.prems h by (auto simp: request_ok_def)
  have he: "he \<noteq> length pre" using Cons.prems(6) by simp
  show ?case
  proof (cases "headers_max_length req \<le> headers_length req")
    case True
    then show ?thesis using one he Cons.prems(3)
      by (subst parse_headers.simps) (auto simp: request_ok_def)
  next
    case False
    have "\<exists>req'. parse_headers ?q buf he (length ?pre) (header_length (k, v) cl) = Some (Bad req') \<and>
           headers_length req' = headers_max_length ?q \<and> req_path req' = req_path ?q"
      by (rule Cons.IH) (use Cons.prems False g h add_header_ok(1) in auto)
    then show ?thesis using one he False by (subst parse_headers.simps) simp
  qed
qed


section \<open>Header lookup\<close>

text \<open>What the server does with a header: the value found under a lower-case key.\<close>

definition header_value :: "httpparser_request \<Rightarrow> string \<Rightarrow> string option option" where
  "header_value req s = do {
     r \<leftarrow> httpparser_get_header req (zt s);
     case r of
       None \<Rightarrow> Some None
     | Some i \<Rightarrow> do { h \<leftarrow> rd (req_headers req) i; Some (Some (cstr (hvalue h))) } }"

lemma get_header_loop_spec:
  assumes "request_ok req" and "c_string s" and "i \<le> headers_length req"
  shows "(case get_header_loop req (zt s) i of
            None \<Rightarrow> False
          | Some None \<Rightarrow> map_of (drop i (headers_of req)) s = None
          | Some (Some j) \<Rightarrow> j < headers_length req \<and>
              map_of (drop i (headers_of req)) s = Some (cstr (hvalue (req_headers req ! j))))"
  using assms
proof (induction req "zt s" i rule: get_header_loop.induct)
  case (1 req i)
  show ?case
  proof (cases "i < headers_length req")
    case False
    then show ?thesis using "1.prems"(3)
      by (subst get_header_loop.simps) (simp add: headers_of_def)
  next
    case True
    let ?h = "req_headers req ! i"
    have len: "i < length (req_headers req)" and ok: "header_ok ?h"
      using True "1.prems"(1) by (auto simp: request_ok_def req_shape_def list_all_length)
    have d: "drop i (headers_of req) = header_text ?h # drop (Suc i) (headers_of req)"
      using True len by (subst Cons_nth_drop_Suc [symmetric]) (auto simp: headers_of_def)
    obtain r where r: "hkey ?h = cstr (hkey ?h) @ NUL # r"
      using ok cstr_split by (fastforce simp: header_ok_def)
    obtain v where v: "c_strcmp (hkey ?h) (zt s) = Some v" "v = 0 \<longleftrightarrow> cstr (hkey ?h) = s"
      using c_strcmp_defined [of "cstr (hkey ?h)" s r "[]"] c_strcmp_eq_0 [of "cstr (hkey ?h)" s r "[]"]
        "1.prems"(2) r by (auto simp: zt_def)
    have IH: "v \<noteq> 0 \<Longrightarrow> (case get_header_loop req (zt s) (i + 1) of
            None \<Rightarrow> False
          | Some None \<Rightarrow> map_of (drop (i + 1) (headers_of req)) s = None
          | Some (Some j) \<Rightarrow> j < headers_length req \<and>
              map_of (drop (i + 1) (headers_of req)) s = Some (cstr (hvalue (req_headers req ! j))))"
      using "1.hyps" [OF True, of ?h v] len v(1) "1.prems" True by simp
    show ?thesis
      using True len v IH
      by (subst get_header_loop.simps) (auto simp: d header_text_def split: option.splits)
  qed
qed

lemma get_header_map_of:
  assumes "request_ok req" and "c_string s"
  obtains (absent) "httpparser_get_header req (zt s) = Some None" "map_of (headers_of req) s = None"
  | (found) j where "httpparser_get_header req (zt s) = Some (Some j)" "j < length (req_headers req)"
      "header_ok (req_headers req ! j)"
      "map_of (headers_of req) s = Some (cstr (hvalue (req_headers req ! j)))"
  using get_header_loop_spec [OF assms, of 0] assms(1) absent found
  by (auto simp: httpparser_get_header_def request_ok_def req_shape_def list_all_length
      split: option.splits)

lemma header_value_map_of:
  "request_ok req \<Longrightarrow> c_string s \<Longrightarrow> header_value req s = Some (map_of (headers_of req) s)"
  by (erule get_header_map_of [where s = s]) (auto simp: header_value_def)

section \<open>The request up to its body\<close>

definition blank_request :: "httpparser_request \<Rightarrow> bool" where
  "blank_request req \<longleftrightarrow> req_shape req \<and> headers_length req = 0 \<and> req_path req = None \<and> req_body req = None"

lemma init_blank:
  assumes "length (req_method req) = 7" and "length (req_version req) = 4"
    and "list_all header_shape buffer"
  shows "blank_request (httpparser_init_request req buffer (length buffer))"
  using assms by (simp add: blank_request_def httpparser_init_request_def req_shape_def)

lemma good_header_line: "good_header h \<Longrightarrow> line_text (header_line h) \<and> header_line h \<noteq> []"
  by (auto simp: good_header_def header_line_def split: prod.splits)

lemma parse_upto_lines:
  assumes "blank_request req" and "m \<in> set http_methods" and "length m < 7" and "good_path p"
    and "buf = request_line m p @ CRLF @ post"
    and "tstr_find_between buf None 0 (Some (zt (CRLF @ CRLF))) 0 = Some \<lparr>tok_start = 0, tok_end = he\<rparr>" and "0 < he"
  obtains q where "httpparser_parse_request req buf len =
      (case parse_headers q buf he (length (request_line m p)) 0 of
         None \<Rightarrow> None
       | Some (Bad q) \<Rightarrow> Some (- 1, q)
       | Some (Next q cl) \<Rightarrow> parse_body q buf len he cl)"
    and "request_ok q" "headers_of q = []" "headers_length q = 0" "headers_max_length q = headers_max_length req"
    and "req_path q = Some (zt p)" "cstr (req_method q) = m" "req_body q = None"
proof -
  define L where "L = request_line m p"
  have m: "line_text m" "SP \<notin> set m" "m \<noteq> []" using http_methods_plain [OF assms(2)] by auto
  have shape: "length (req_method req) = 7" "length (req_version req) = 4"
    using assms(1) by (auto simp: blank_request_def req_shape_def)
  have buf: "buf = L @ CRLF @ post" using assms(5) by (simp add: L_def)
  let ?q1 = "req\<lparr>req_method := m @ NUL # drop (Suc (length m)) (req_method req)\<rparr>"
  have q1: "parse_method req buf = Some (Next ?q1 (length m))"
    using parse_method_cases [OF m shape(1), of "p @ '' HTTP/1.1'' @ CRLF @ post"] assms(2,3)
    unfolding buf L_def request_line_def by (simp add: Let_def)
  let ?q2 = "?q1\<lparr>req_path := Some (zt p)\<rparr>"
  have q2: "parse_path ?q1 buf (length m) = Some (Next ?q2 (length m + 1 + length p))"
    using parse_path_good [OF assms(4) m(3), of ?q1 "''HTTP/1.1'' @ CRLF @ post"]
    unfolding buf L_def request_line_def by simp
  let ?q3 = "?q2\<lparr>req_version := zt ''1.1''\<rparr>"
  have q3: "parse_version ?q2 buf (length m + 1 + length p) = Some (Next ?q3 (length L))"
    using parse_version_good [of ?q2 "m @ '' '' @ p @ '' HTTP/''" "m @ '' '' @ p" post]
      m(3) shape(2) unfolding buf L_def request_line_def by (simp add: eval_nat_numeral)
  have ok3: "request_ok ?q3" "headers_of ?q3 = []" "headers_length ?q3 = 0"
    using assms(1,3) m by (auto simp: request_ok_def blank_request_def req_shape_def headers_of_def
        zt_def)
  have eq: "httpparser_parse_request req buf len =
      (case parse_headers ?q3 buf he (length L) 0 of
         None \<Rightarrow> None
       | Some (Bad q) \<Rightarrow> Some (- 1, q)
       | Some (Next q cl) \<Rightarrow> parse_body q buf len he cl)"
    using assms(6,7) q1 q2 q3 m(3) by (simp add: httpparser_parse_request_def split: option.split parse.split)
  show ?thesis
    by (rule that [of ?q3, OF eq [unfolded L_def] ok3])
       (use m(1) assms(1) in \<open>simp_all add: blank_request_def cstr_append_NUL line_text_c_string\<close>)
qed

lemma request_line_text: "m \<in> set http_methods \<Longrightarrow> good_path p \<Longrightarrow> line_text (request_line m p) \<and> request_line m p \<noteq> []"
  using http_methods_plain [of m] by (simp add: request_line_def good_path_def)

lemma parse_upto_headers:
  assumes "blank_request req" and "m \<in> set http_methods" and "length m < 7" and "good_path p"
    and "list_all (\<lambda>h. line_text (header_line h)) hs"
  obtains q where "httpparser_parse_request req (render_request m p hs @ rest) len =
      (case parse_headers q (render_request m p hs @ rest) (length (render_request m p hs) - 4)
              (length (request_line m p)) 0 of
         None \<Rightarrow> None
       | Some (Bad q) \<Rightarrow> Some (- 1, q)
       | Some (Next q cl) \<Rightarrow>
           parse_body q (render_request m p hs @ rest) len (length (render_request m p hs) - 4) cl)"
    and "request_ok q" "headers_of q = []" "headers_length q = 0" "headers_max_length q = headers_max_length req"
    and "req_path q = Some (zt p)" "cstr (req_method q) = m" "req_body q = None"
proof -
  let ?L = "request_line m p" let ?buf = "render_request m p hs @ rest"
  have L: "line_text ?L" "?L \<noteq> []" using request_line_text [OF assms(2,4)] by auto
  have lines: "list_all (\<lambda>x. line_text x \<and> x \<noteq> []) (map header_line hs)"
    using assms(5) by (auto simp: list_all_iff header_line_def)
  have buf: "?buf = ?L @ CRLF @ render_headers hs @ CRLF @ rest" by (simp add: render_request_def)
  have H: "render_headers hs = concat (map (\<lambda>x. x @ CRLF) (map header_line hs))"
    by (simp add: render_headers_def comp_def)
  have cut: "length (render_request m p hs) - 4 = length ?L + length (render_headers hs)"
    by (simp add: render_request_def)
  obtain i' j' where "scan_end ?buf (zt (CRLF @ CRLF)) 0 0 0 = Some (True, i', j', length ?L + length (render_headers hs))"
    using headers_end_scan [OF L(1) lines, of 0 rest] L(2) unfolding buf H by auto
  then have he: "tstr_find_between ?buf None 0 (Some (zt (CRLF @ CRLF))) 0 =
      Some \<lparr>tok_start = 0, tok_end = length ?L + length (render_headers hs)\<rparr>"
    by (intro find_between_scan) (simp del: scan_end.simps)
  show ?thesis
    by (rule parse_upto_lines [OF assms(1-4) buf he, where len = len], use L(2) in simp)
       (rule that, simp_all only: cut)
qed

lemma parse_upto_body:
  assumes "blank_request req" and "m \<in> set http_methods" and "length m < 7" and "good_path p"
    and "list_all good_header hs"
  shows "if length hs \<le> headers_max_length req
         then \<exists>q. httpparser_parse_request req (render_request m p hs @ rest) len =
                parse_body q (render_request m p hs @ rest) len (length (render_request m p hs) - 4)
                  (declared_length hs) \<and>
              request_ok q \<and> headers_of q = lowered hs \<and> req_path q = Some (zt p) \<and>
              cstr (req_method q) = m \<and> req_body q = None
         else \<exists>q. httpparser_parse_request req (render_request m p hs @ rest) len = Some (- 1, q) \<and>
              req_path q = Some (zt p)"
proof -
  let ?buf = "render_request m p hs @ rest"
  let ?L = "request_line m p"
  let ?he = "length (render_request m p hs) - 4"
  have lines: "list_all (\<lambda>h. line_text (header_line h)) hs"
    using assms(5) by (auto simp: list_all_iff good_header_line)
  have L: "?L \<noteq> []" by (simp add: request_line_def)
  have buf: "?buf = ?L @ CRLF @ concat (map (\<lambda>h. header_line h @ CRLF) hs) @ CRLF @ rest"
    and he: "?he = length ?L + length (concat (map (\<lambda>h. header_line h @ CRLF) hs))"
    by (simp_all add: render_request_def render_headers_def)
  obtain q3 where q3: "httpparser_parse_request req ?buf len =
      (case parse_headers q3 ?buf ?he (length ?L) 0 of
         None \<Rightarrow> None
       | Some (Bad q) \<Rightarrow> Some (- 1, q)
       | Some (Next q cl) \<Rightarrow> parse_body q ?buf len (length (render_request m p hs) - 4) cl)"
    "request_ok q3" "headers_of q3 = []" "headers_length q3 = 0" "headers_max_length q3 = headers_max_length req"
    "req_path q3 = Some (zt p)" "cstr (req_method q3) = m" "req_body q3 = None"
    by (rule parse_upto_headers [OF assms(1-4) lines])
  show ?thesis
  proof (cases "length hs \<le> headers_max_length req")
    case True
    obtain q where "parse_headers q3 ?buf ?he (length ?L) 0 = Some (Next q (fold header_length hs 0))"
        "request_ok q" "headers_of q = headers_of q3 @ map (\<lambda>(k, v). (lower k, v)) hs"
        "req_path q = req_path q3" "req_method q = req_method q3" "req_body q = req_body q3"
      using parse_headers_good [OF assms(5) L q3(2) _ buf he, of 0] True q3(4,5) by auto
    then show ?thesis
      using True q3 by (auto simp: declared_length_def lowered_def)
  next
    case False
    obtain q where "parse_headers q3 ?buf ?he (length ?L) 0 = Some (Bad q)" "req_path q = req_path q3"
      using parse_headers_too_many [OF assms(5) L q3(2) _ buf he, of 0] False q3(4,5) by auto
    then show ?thesis using False q3(1,6) by simp
  qed
qed

lemma parse_body_none:
  assumes "request_ok q" and "map_of (headers_of q) ''transfer-encoding'' = None" and "cl \<le> 0"
  shows "parse_body q buf len he cl = Some (0, q)"
  using assms(2,3)
  by (cases rule: get_header_map_of [OF assms(1), of "''transfer-encoding''"]) (auto simp: parse_body_def)

lemma parse_body_plain:
  assumes "request_ok q" and "map_of (headers_of q) ''transfer-encoding'' = None" and "0 < cl"
    and "he + 4 + nat cl \<le> length buf"
  shows "parse_body q buf len he cl = Some (
           if map_of (headers_of q) ''content-type'' = None then (- 1, q)
           else if len - int he - 4 \<noteq> cl then (- 1, q)
           else (0, q\<lparr>req_body := Some (take (nat cl) (drop (he + 4) buf)),
                      body_length := nat cl, finished := True\<rparr>))"
proof -
  have te: "httpparser_get_header q (zt ''transfer-encoding'') = Some None"
    using get_header_map_of [OF assms(1), of "''transfer-encoding''"] assms(2) by auto
  have b: "c_memcpy (replicate (nat cl) NUL) 0 buf (he + 4) cl = Some (take (nat cl) (drop (he + 4) buf))"
    using assms(3,4) by (simp add: c_memcpy_def)
  show ?thesis
    by (rule get_header_map_of [OF assms(1), of "''content-type''"])
       (use te assms(3) b in \<open>simp_all add: parse_body_def\<close>)
qed

lemma parse_body_chunked:
  assumes "request_ok q" and "map_of (headers_of q) ''transfer-encoding'' = Some ''chunked''"
    and "map_of (headers_of q) ''content-type'' \<noteq> None"
  shows "parse_body q buf len he cl = parse_chunked q buf len he"
proof -
  obtain i where i: "httpparser_get_header q (zt ''transfer-encoding'') = Some (Some i)"
      "i < length (req_headers q)" "header_ok (req_headers q ! i)"
      "cstr (hvalue (req_headers q ! i)) = ''chunked''"
    by (rule get_header_map_of [OF assms(1), of "''transfer-encoding''"]) (use assms(2) in auto)
  obtain r where "hvalue (req_headers q ! i) = ''chunked'' @ NUL # r"
    using i(3,4) cstr_split by (fastforce simp: header_ok_def)
  then have ck: "c_strcmp (hvalue (req_headers q ! i)) (zt ''chunked'') = Some 0"
    using c_strcmp_refl [of "''chunked''" r "[]"] by (simp add: zt_def)
  show ?thesis
    by (rule get_header_map_of [OF assms(1), of "''content-type''"])
       (use i(1,2) ck assms(3) in \<open>simp_all add: parse_body_def\<close>)
qed

text \<open>Chunk sizes: up to four lower-case or upper-case hexadecimal digits.\<close>

definition is_hex :: "char \<Rightarrow> bool" where
  "is_hex c \<longleftrightarrow> hex_val c \<noteq> None"

definition hex_number :: "string \<Rightarrow> nat" where
  "hex_number s = foldl (\<lambda>n c. 16 * n + the (hex_val c)) 0 s"

lemma scan_hex_foldl: "list_all is_hex s \<Longrightarrow> scan_hex n s = foldl (\<lambda>n c. 16 * n + the (hex_val c)) n s"
  by (induction s arbitrary: n) (auto simp: is_hex_def)

lemma is_hex_facts:
  assumes "is_hex c"
  shows "\<not> is_space c" "c \<noteq> CHR ''-''" "c \<noteq> CHR ''+''" "c \<noteq> CHR ''x''" "c \<noteq> CHR ''X''" "c \<noteq> NUL" "c \<noteq> CR"
  using assms by (auto simp: is_hex_def hex_val_def is_space_def Let_def split: if_splits)

lemma strip_0x_hex: "list_all is_hex s \<Longrightarrow> strip_0x s = s"
  by (auto simp: strip_0x_def dest: is_hex_facts split: list.splits)

lemma c_strtol16_hex: "list_all is_hex s \<Longrightarrow> c_strtol16 s = int (hex_number s)"
proof (cases s)
  case Nil
  then show ?thesis by (simp add: c_strtol16_def hex_number_def)
next
  case (Cons c cs)
  assume s: "list_all is_hex s"
  then have "dropWhile is_space s = s" "c \<noteq> CHR ''-''" "c \<noteq> CHR ''+''"
    using Cons by (auto dest: is_hex_facts)
  moreover have "scan_hex 0 (strip_0x s) = hex_number s"
    using s by (simp add: strip_0x_hex scan_hex_foldl hex_number_def)
  ultimately show ?thesis using Cons by (simp add: c_strtol16_def)
qed

lemma parse_chunked_hex:
  assumes "list_all is_hex sz" and "sz \<noteq> []" and "length sz < 5"
    and "drop (he + 4) buf = sz @ CRLF @ rest"
    and "n = min (int (hex_number sz)) (len + int he - 4 - int (length sz) - 2)"
  shows "parse_chunked q buf len he =
           (if 0 \<le> n \<and> nat n \<le> length rest
            then Some (0, q\<lparr>chunk_length := int (hex_number sz), body_length := nat n,
                   req_body := Some (take (nat n) rest), finished := (n = int (hex_number sz))\<rparr>)
            else None)"
proof -
  have cs: "c_string sz" "CR \<notin> set sz" using assms(1) by (auto simp: c_string_def list_all_iff dest: is_hex_facts)
  have t: "tstr_find_between (drop (he + 4) buf) None 0 (Some (zt CRLF)) 0 =
      Some \<lparr>tok_start = 0, tok_end = length sz\<rparr>"
    unfolding assms(4) by (rule find_between_first) (use assms cs in auto)
  have c: "copy_terminated (replicate 5 NUL) (drop (he + 4) buf) 0 (int (length sz)) =
      Some (sz @ NUL # drop (Suc (length sz)) (replicate 5 NUL))"
    unfolding assms(4) using copy_terminated_fits [of sz "replicate 5 NUL" "[]"] assms(3) by simp
  have n: "(if len + int he - 4 - int (length sz) - 2 > int (hex_number sz) then int (hex_number sz)
      else len + int he - 4 - int (length sz) - 2) = n"
    using assms(5) by auto
  have d: "length (drop (he + 4) buf) = length sz + 2 + length rest" "drop (length sz + 2) (drop (he + 4) buf) = rest"
    unfolding assms(4) by auto
  have m: "c_memcpy (replicate (nat n) NUL) 0 (drop (he + 4) buf) (length sz + 2) n =
      (if 0 \<le> n \<and> nat n \<le> length rest then Some (take (nat n) rest) else None)"
    using d by (simp add: c_memcpy_def)
  have "parse_chunked q buf len he =
      Option.bind (c_memcpy (replicate (nat n) NUL) 0 (drop (he + 4) buf) (length sz + 2) n)
        (\<lambda>b. Some (0, q\<lparr>chunk_length := int (hex_number sz), body_length := nat n,
          req_body := Some b, finished := (n = int (hex_number sz))\<rparr>))"
    unfolding parse_chunked_def Let_def
    by (simp only: t c Option.bind.simps tstr_string_token.simps length_0_conv assms(2) if_False
        cstr_append_NUL [OF cs(1)] c_strtol16_hex [OF assms(1)] n)
  then show ?thesis unfolding m by simp
qed


section \<open>Headers that do not fit, and arbitrary input\<close>

definition wf_header :: "string \<times> string \<Rightarrow> bool" where
  "wf_header h \<longleftrightarrow> line_text (fst h) \<and> line_text (snd h) \<and> CHR '':'' \<notin> set (fst h) \<and>
     lower (fst h) \<noteq> ''content-length''"

definition fits :: "string \<times> string \<Rightarrow> bool" where
  "fits h \<longleftrightarrow> length (fst h) < 64 \<and> length (snd h) < 1024"

lemma parse_headers_overrun:
  assumes "list_all wf_header hs" and "\<not> list_all fits hs" and "pre \<noteq> []" and "request_ok req"
    and "headers_length req + length hs \<le> headers_max_length req"
    and "buf = pre @ CRLF @ concat (map (\<lambda>h. header_line h @ CRLF) hs) @ post"
    and "he = length pre + length (concat (map (\<lambda>h. header_line h @ CRLF) hs))"
  shows "parse_headers req buf he (length pre) cl = None"
  using assms
proof (induction hs arbitrary: req pre cl)
  case Nil
  then show ?case by simp
next
  case (Cons h hs)
  obtain k v where h: "h = (k, v)" by (cases h)
  have g: "line_text k" "line_text v" "CHR '':'' \<notin> set k" "lower k \<noteq> ''content-length''"
    using Cons.prems(1) h by (auto simp: wf_header_def)
  let ?pre = "pre @ CRLF @ header_line h"
  have one: "parse_header req buf (length pre) cl =
      (if 64 \<le> length k \<or> 1024 \<le> length v then None
       else Some (Next (add_header req k v) (header_length (k, v) cl, length ?pre)))"
    using parse_header_cases [of k v pre req buf "concat (map (\<lambda>h. header_line h @ CRLF) hs) @ post" cl]
      g Cons.prems h by (auto simp: request_ok_def)
  have he: "he \<noteq> length pre" using Cons.prems(7) by simp
  show ?case
  proof (cases "fits h")
    case False
    then have "parse_header req buf (length pre) cl = None"
      unfolding one using h by (auto simp: fits_def not_less)
    then show ?thesis using he by (subst parse_headers.simps) simp
  next
    case True
    then have f: "length k < 64" "length v < 1024" using h by (auto simp: fits_def)
    have "parse_headers (add_header req k v) buf he (length ?pre) (header_length (k, v) cl) = None"
      by (rule Cons.IH) (use Cons.prems True g f h add_header_ok(1) in auto)
    then show ?thesis using one he f by (subst parse_headers.simps) simp
  qed
qed

lemma copy_terminated_ok:
  "copy_terminated dst src from n = Some b \<Longrightarrow> length b = length dst \<and> NUL \<in> set b"
  by (auto simp: copy_terminated_def set_update_memI dest: c_memcpy_length split: bind_splits)

lemma to_lower_case_ok:
  "httpparser_to_lower_case b = Some b' \<Longrightarrow> length b' = length b \<and> NUL \<in> set b'"
  by (induction b arbitrary: b') (auto split: if_splits)

fun parse_keeps :: "(httpparser_request \<Rightarrow> bool) \<Rightarrow> 'a parse \<Rightarrow> bool" where
  "parse_keeps P (Bad q) = P q"
| "parse_keeps P (Next q x) = P q"

lemma parse_method_ok:
  "parse_method req buf = Some r \<Longrightarrow> request_ok req \<Longrightarrow>
   parse_keeps (\<lambda>q. request_ok q \<and> req_path q = req_path req \<and> req_body q = req_body req) r"
  by (auto simp: parse_method_def request_ok_def req_shape_def Let_def
      dest!: copy_terminated_ok split: bind_splits if_splits)

lemma parse_path_ok:
  assumes "parse_path req buf e = Some r" and "request_ok req"
  shows "case r of Bad q \<Rightarrow> q = req
         | Next q x \<Rightarrow> request_ok q \<and> (\<exists>p. req_path q = Some p \<and> NUL \<in> set p) \<and> req_body q = req_body req"
  using assms
  by (auto simp: parse_path_def request_ok_def req_shape_def Let_def
      dest!: copy_terminated_ok split: bind_splits if_splits)

lemma parse_version_ok:
  "parse_version req buf e = Some r \<Longrightarrow> request_ok req \<Longrightarrow>
   parse_keeps (\<lambda>q. request_ok q \<and> req_path q = req_path req \<and> req_body q = req_body req) r"
  by (auto simp: parse_version_def request_ok_def req_shape_def Let_def
      dest!: copy_terminated_ok split: bind_splits if_splits)

lemma parse_header_ok:
  assumes "parse_header req buf e cl = Some r" and "request_ok req"
  shows "parse_keeps (\<lambda>q. request_ok q \<and> req_path q = req_path req \<and> req_body q = req_body req) r"
proof (cases r)
  case (Bad q)
  then show ?thesis using assms
    by (auto simp: parse_header_def Let_def split: bind_splits if_splits)
next
  case (Next q x)
  then obtain k v where q: "q = req\<lparr>req_headers :=
        (req_headers req)[headers_length req := \<lparr>hkey = k, hvalue = v\<rparr>], headers_length := headers_length req + 1\<rparr>"
      and n: "headers_length req < length (req_headers req)"
      and k: "length k = length (hkey (req_headers req ! headers_length req))" "NUL \<in> set k"
      and v: "length v = length (hvalue (req_headers req ! headers_length req))" "NUL \<in> set v"
    using assms(1)
    by (auto simp: parse_header_def Let_def dest!: copy_terminated_ok to_lower_case_ok
        split: bind_splits if_splits)
  have sh: "header_shape \<lparr>hkey = k, hvalue = v\<rparr>"
    using assms(2) n k v by (auto simp: header_shape_def request_ok_def req_shape_def list_all_length)
  have "take (Suc (headers_length req)) ((req_headers req)[headers_length req := \<lparr>hkey = k, hvalue = v\<rparr>]) =
      take (headers_length req) (req_headers req) @ [\<lparr>hkey = k, hvalue = v\<rparr>]"
    using n by (simp add: take_Suc_conv_app_nth)
  then show ?thesis
    using assms(2) n k v sh unfolding q Next
    by (auto simp: request_ok_def req_shape_def header_ok_def list_all_iff
        dest!: set_update_subset_insert [THEN subsetD])
qed

lemma parse_headers_ok:
  assumes "parse_headers req buf he e cl = Some r" and "request_ok req"
  shows "parse_keeps (\<lambda>q. request_ok q \<and> req_path q = req_path req \<and> req_body q = req_body req) r"
  using assms
proof (induction req buf he e cl rule: parse_headers.induct)
  case (1 req buf he e cl)
  show ?case
  proof (cases "e = he")
    case True
    then show ?thesis using "1.prems" by (subst (asm) parse_headers.simps) auto
  next
    case False
    then obtain x where x: "parse_header req buf e cl = Some x"
      using "1.prems" by (subst (asm) parse_headers.simps) (auto split: bind_splits)
    note one = parse_header_ok [OF x "1.prems"(2)]
    show ?thesis
    proof (cases x)
      case (Bad q)
      then show ?thesis using "1.prems" x False one by (subst (asm) parse_headers.simps) auto
    next
      case (Next q y)
      obtain n l where y: "y = (n, l)" by (cases y)
      have "parse_headers q buf he l n = Some r"
        using "1.prems"(1) x False Next y by (subst (asm) parse_headers.simps) simp
      then show ?thesis
        using x False one "1.IH" [OF False x Next y [symmetric]] Next by (cases r; auto)
    qed
  qed
qed

lemma parse_body_ok:
  "parse_body req buf len he cl = Some (r, q) \<Longrightarrow> request_ok req \<Longrightarrow>
   request_ok q \<and> req_path q = req_path req \<and> (r = 0 \<or> r = - 1)"
  by (auto simp: parse_body_def parse_chunked_def request_ok_def req_shape_def Let_def
      split: bind_splits if_splits)


section \<open>Properties\<close>

text \<open>C15: A well-formed request without a body is parsed to exactly its parts, whatever
  bytes follow it in the receive buffer and whatever length was received: the method, the
  path, every header with its name in lower case, and no body; a later lookup of a header
  returns the value of the first header with that name.\<close>
theorem parse_valid_plain:
  assumes "blank_request req" and "m \<in> set http_methods" and "length m < 7" and "good_path p"
    and "list_all good_header hs" and "length hs \<le> headers_max_length req"
    and "declared_length hs = 0" and "map_of (lowered hs) ''transfer-encoding'' = None"
    and "c_string name"
  shows "\<exists>q. httpparser_parse_request req (render_request m p hs @ rest) len = Some (0, q) \<and>
           cstr (req_method q) = m \<and> req_path q = Some (zt p) \<and> headers_of q = lowered hs \<and>
           req_body q = None \<and> header_value q name = Some (map_of (lowered hs) name)"
proof -
  obtain q where q: "httpparser_parse_request req (render_request m p hs @ rest) len =
        parse_body q (render_request m p hs @ rest) len (length (render_request m p hs) - 4) 0"
      "request_ok q" "headers_of q = lowered hs" "req_path q = Some (zt p)"
      "cstr (req_method q) = m" "req_body q = None"
    using parse_upto_body [OF assms(1-5), of rest len] assms(6,7) by auto
  then show ?thesis
    using parse_body_none [of q 0] assms(8) header_value_map_of [OF q(2) assms(9)] by auto
qed

definition request_30 :: httpparser_request where
  "request_30 = \<lparr>req_method = replicate 7 CHR ''?'', req_path = None, req_version = replicate 4 CHR ''?'',
     headers_length = 0, headers_max_length = 30,
     req_headers = replicate 30 \<lparr>hkey = replicate 64 CHR ''?'', hvalue = replicate 1024 CHR ''?''\<rparr>,
     req_body = None, body_length = 0, chunk_length = 0, finished = False\<rparr>"

lemma request_30_blank: "blank_request request_30"
  by (simp add: blank_request_def request_30_def req_shape_def header_shape_def list_all_length)

lemma request_30_max: "headers_max_length request_30 = 30"
  by (simp add: request_30_def)

theorem parse_valid_plain_witness:
  "\<exists>q. httpparser_parse_request request_30
        (render_request ''GET'' ''/api/produtos/lista'' [(''Host'', ''a:80''), (''Accept'', ''*'')] @ ''stale'') 80 =
          Some (0, q) \<and> header_value q ''host'' = Some (Some ''a:80'')"
proof -
  have "lowered [(''Host'', ''a:80''), (''Accept'', ''*'')] = [(''host'', ''a:80''), (''accept'', ''*'')]"
    "declared_length [(''Host'', ''a:80''), (''Accept'', ''*'')] = 0"
    "list_all good_header [(''Host'', ''a:80''), (''Accept'', ''*'')]"
    "good_path ''/api/produtos/lista''" "''GET'' \<in> set http_methods"
    by code_simp+
  then show ?thesis
    using parse_valid_plain [OF request_30_blank, of "''GET''" "''/api/produtos/lista''"
        "[(''Host'', ''a:80''), (''Accept'', ''*'')]" "''host''" "''stale''" 80]
    by (auto simp: request_30_max)
qed

text \<open>C30: A well-formed request that declares a body is accepted if and only if the number
  of received bytes is exactly the length of its head plus the declared length and it has a
  Content-Type; then the body is the declared bytes behind the blank line. Otherwise the
  parser returns -1.\<close>
theorem parse_valid_body:
  assumes "blank_request req" and "m \<in> set http_methods" and "length m < 7" and "good_path p"
    and "list_all good_header hs" and "length hs \<le> headers_max_length req"
    and "declared_length hs = int (length body)" and "body \<noteq> []"
    and "map_of (lowered hs) ''transfer-encoding'' = None"
  shows "\<exists>q. httpparser_parse_request req (render_request m p hs @ body @ rest) len =
             Some (if len = int (length (render_request m p hs) + length body)
                      \<and> map_of (lowered hs) ''content-type'' \<noteq> None then 0 else - 1, q) \<and>
           req_path q = Some (zt p) \<and> headers_of q = lowered hs \<and>
           req_body q = (if len = int (length (render_request m p hs) + length body)
                      \<and> map_of (lowered hs) ''content-type'' \<noteq> None then Some body else None)"
proof -
  let ?r = "render_request m p hs"
  have four: "4 \<le> length ?r" by (simp add: render_request_def)
  obtain q where q: "httpparser_parse_request req (?r @ body @ rest) len =
        parse_body q (?r @ body @ rest) len (length ?r - 4) (int (length body))"
      "request_ok q" "headers_of q = lowered hs" "req_path q = Some (zt p)" "req_body q = None"
    using parse_upto_body [OF assms(1-5), of "body @ rest" len] assms(6,7) by auto
  have "parse_body q (?r @ body @ rest) len (length ?r - 4) (int (length body)) = Some (
           if map_of (headers_of q) ''content-type'' = None then (- 1, q)
           else if len - int (length ?r - 4) - 4 \<noteq> int (length body) then (- 1, q)
           else (0, q\<lparr>req_body := Some (take (nat (int (length body))) (drop (length ?r - 4 + 4) (?r @ body @ rest))),
                      body_length := nat (int (length body)), finished := True\<rparr>))"
    by (rule parse_body_plain) (use q(2,3) assms(8,9) four in auto)
  moreover have "len - int (length ?r - 4) - 4 = int (length body) \<longleftrightarrow> len = int (length ?r + length body)"
    using four by auto
  moreover have "headers_of (q\<lparr>req_body := b, body_length := n, finished := f\<rparr>) = headers_of q" for b n f
    by (simp add: headers_of_def)
  ultimately show ?thesis using q four by auto
qed

theorem parse_valid_body_witness:
  "\<exists>q. httpparser_parse_request request_30
        (render_request ''POST'' ''/a'' [(''Content-Length'', ''2''), (''Content-Type'', ''t'')] @ ''hi'' @ ''x'') 58 =
          Some (0, q) \<and> req_body q = Some ''hi''"
proof -
  have "lowered [(''Content-Length'', ''2''), (''Content-Type'', ''t'')] =
      [(''content-length'', ''2''), (''content-type'', ''t'')]"
    "declared_length [(''Content-Length'', ''2''), (''Content-Type'', ''t'')] = 2"
    "list_all good_header [(''Content-Length'', ''2''), (''Content-Type'', ''t'')]"
    "good_path ''/a''" "''POST'' \<in> set http_methods"
    "length (render_request ''POST'' ''/a'' [(''Content-Length'', ''2''), (''Content-Type'', ''t'')]) = 56"
    by code_simp+
  then show ?thesis
    using parse_valid_body [OF request_30_blank, of "''POST''" "''/a''"
        "[(''Content-Length'', ''2''), (''Content-Type'', ''t'')]" "''hi''" "''x''" 58]
    by (auto simp: request_30_max)
qed


text \<open>A chunked request is reported as finished, with the whole first chunk as its body,
  whatever was received of that chunk: the code adds the length of the head to the number of
  received bytes where it should subtract it, so any chunk up to twice the length of the head
  longer than what was received is copied from the buffer, received or not.\<close>
theorem parse_chunked_unreceived:
  assumes "blank_request req" and "m \<in> set http_methods" and "length m < 7" and "good_path p"
    and "list_all good_header hs" and "length hs \<le> headers_max_length req"
    and "map_of (lowered hs) ''transfer-encoding'' = Some ''chunked''"
    and "map_of (lowered hs) ''content-type'' \<noteq> None"
    and "list_all is_hex sz" and "sz \<noteq> []" and "length sz < 5" and "hex_number sz = length chunk"
    and "received \<le> length chunk"
    and "length chunk + 8 \<le> received + 2 * length (render_request m p hs)"
  shows "\<exists>q. httpparser_parse_request req (render_request m p hs @ sz @ CRLF @ chunk @ rest)
             (int (length (render_request m p hs) + length sz + 2 + received)) = Some (0, q) \<and>
           req_body q = Some chunk \<and> finished q"
proof -
  let ?r = "render_request m p hs"
  let ?len = "int (length ?r + length sz + 2 + received)"
  have four: "4 \<le> length ?r" by (simp add: render_request_def)
  obtain q where q: "httpparser_parse_request req (?r @ sz @ CRLF @ chunk @ rest) ?len =
        parse_body q (?r @ sz @ CRLF @ chunk @ rest) ?len (length ?r - 4) (declared_length hs)"
      "request_ok q" "headers_of q = lowered hs"
    using parse_upto_body [OF assms(1-5), of "sz @ CRLF @ chunk @ rest" ?len] assms(6) by auto
  have b: "parse_body q (?r @ sz @ CRLF @ chunk @ rest) ?len (length ?r - 4) (declared_length hs) =
      parse_chunked q (?r @ sz @ CRLF @ chunk @ rest) ?len (length ?r - 4)"
    by (rule parse_body_chunked) (use q(2,3) assms(7,8) in auto)
  have n: "int (length chunk) =
      min (int (hex_number sz)) (?len + int (length ?r - 4) - 4 - int (length sz) - 2)"
    using assms(12,14) four by simp
  show ?thesis
    unfolding q(1) b
    by (subst parse_chunked_hex [OF assms(9-11) _ n]) (use four assms(12) in auto)
qed

theorem parse_chunked_unreceived_witness:
  "\<exists>q. httpparser_parse_request request_30
        (render_request ''POST'' ''/a'' [(''Transfer-Encoding'', ''chunked''), (''Content-Type'', ''t'')]
          @ ''3'' @ CRLF @ ''abc'') 68 = Some (0, q) \<and> req_body q = Some ''abc'' \<and> finished q"
proof -
  have "lowered [(''Transfer-Encoding'', ''chunked''), (''Content-Type'', ''t'')] =
      [(''transfer-encoding'', ''chunked''), (''content-type'', ''t'')]"
    "list_all good_header [(''Transfer-Encoding'', ''chunked''), (''Content-Type'', ''t'')]"
    "good_path ''/a''" "''POST'' \<in> set http_methods" "list_all is_hex ''3''" "hex_number ''3'' = 3"
    "length (render_request ''POST'' ''/a'' [(''Transfer-Encoding'', ''chunked''), (''Content-Type'', ''t'')]) = 65"
    by code_simp+
  then show ?thesis
    using parse_chunked_unreceived [OF request_30_blank, of "''POST''" "''/a''"
        "[(''Transfer-Encoding'', ''chunked''), (''Content-Type'', ''t'')]" "''3''" "''abc''" 0 "[]"]
    by (auto simp: request_30_max)
qed

text \<open>The method field has 7 bytes. A first word of up to 6 characters that is not a known
  method is refused with -1 and no path is allocated; but a first word of 7 or more
  characters, which includes the methods CONNECT and OPTIONS that the parser knows, is
  copied behind the end of the field before it is checked.\<close>
theorem parse_method_limits:
  assumes "blank_request req" and "line_text m" and "SP \<notin> set m" and "m \<noteq> []"
    and "tstr_find_between (m @ '' '' @ post) None 0 (Some (zt (CRLF @ CRLF))) 0 = Some t"
    and "tok_end t \<noteq> 0" and "7 \<le> length m \<or> m \<notin> set http_methods"
  shows "if 7 \<le> length m then httpparser_parse_request req (m @ '' '' @ post) len = None
         else \<exists>q. httpparser_parse_request req (m @ '' '' @ post) len = Some (- 1, q) \<and> req_path q = None"
  using parse_method_cases [OF assms(2-4), of req post] assms(1,5-7)
  by (auto simp: httpparser_parse_request_def blank_request_def req_shape_def Let_def)

theorem parse_method_limits_witness:
  "httpparser_parse_request request_30 (''OPTIONS'' @ '' '' @ ''/ HTTP/1.1'' @ CRLF @ CRLF) 20 = None \<and>
   (\<exists>q. httpparser_parse_request request_30 (''BREW'' @ '' '' @ ''/ HTTP/1.1'' @ CRLF @ CRLF) 20 = Some (- 1, q))"
proof -
  have o: "tstr_find_between (''OPTIONS'' @ '' '' @ ''/ HTTP/1.1'' @ CRLF @ CRLF) None 0 (Some (zt (CRLF @ CRLF))) 0 =
      Some \<lparr>tok_start = 0, tok_end = 18\<rparr>"
    and b: "tstr_find_between (''BREW'' @ '' '' @ ''/ HTTP/1.1'' @ CRLF @ CRLF) None 0 (Some (zt (CRLF @ CRLF))) 0 =
      Some \<lparr>tok_start = 0, tok_end = 15\<rparr>"
    and "''BREW'' \<notin> set http_methods" by code_simp+
  then show ?thesis
    using parse_method_limits [OF request_30_blank _ _ _ o, of 20]
      parse_method_limits [OF request_30_blank _ _ _ b, of 20] by auto
qed

lemma wf_header_line: "wf_header h \<Longrightarrow> line_text (header_line h)"
  by (cases h) (simp add: wf_header_def header_line_def)

text \<open>C39: A header name of 64 or more characters, or a value of 1024 or more, anywhere among
  the headers of an otherwise well-formed request is an out-of-bounds write, although the
  table has room for all the headers: the lengths are not checked.\<close>
theorem parse_header_overrun:
  assumes "blank_request req" and "m \<in> set http_methods" and "length m < 7" and "good_path p"
    and "list_all wf_header hs" and "length hs \<le> headers_max_length req" and "\<not> list_all fits hs"
  shows "httpparser_parse_request req (render_request m p hs @ rest) len = None"
proof -
  let ?buf = "render_request m p hs @ rest"
  let ?L = "request_line m p"
  let ?he = "length (render_request m p hs) - 4"
  have lines: "list_all (\<lambda>h. line_text (header_line h)) hs"
    using assms(5) by (auto simp: list_all_iff wf_header_line)
  have L: "?L \<noteq> []" by (simp add: request_line_def)
  have buf: "?buf = ?L @ CRLF @ concat (map (\<lambda>h. header_line h @ CRLF) hs) @ CRLF @ rest"
    and he: "?he = length ?L + length (concat (map (\<lambda>h. header_line h @ CRLF) hs))"
    by (simp_all add: render_request_def render_headers_def)
  obtain q where q: "httpparser_parse_request req ?buf len =
      (case parse_headers q ?buf ?he (length ?L) 0 of
         None \<Rightarrow> None
       | Some (Bad q) \<Rightarrow> Some (- 1, q)
       | Some (Next q cl) \<Rightarrow> parse_body q ?buf len (length (render_request m p hs) - 4) cl)"
    "request_ok q" "headers_length q = 0" "headers_max_length q = headers_max_length req"
    by (rule parse_upto_headers [OF assms(1-4) lines])
  then show ?thesis
    using parse_headers_overrun [OF assms(5,7) L q(2) _ buf he, of 0] assms(6) by simp
qed

theorem parse_header_overrun_witness:
  "httpparser_parse_request request_30
     (render_request ''GET'' ''/'' [(''Host'', ''a''), (''Cookie'', replicate 1024 CHR ''x'')]) 2000 = None"
proof -
  have "list_all wf_header [(''Host'', ''a''), (''Cookie'', replicate 1024 CHR ''x'')]"
    by (simp add: wf_header_def line_text_def c_tolower_def)
  moreover have "good_path ''/''" "''GET'' \<in> set http_methods" by code_simp+
  ultimately show ?thesis
    using parse_header_overrun [OF request_30_blank, of "''GET''" "''/''" _ "[]" 2000]
    by (simp add: request_30_max fits_def)
qed

text \<open>A well-formed request with more headers than the table has entries is refused with
  -1, and the path that was allocated before is left in the request; freeing the request
  releases exactly that block, and freeing it again releases nothing.\<close>
theorem parse_too_many_headers:
  assumes "blank_request req" and "m \<in> set http_methods" and "length m < 7" and "good_path p"
    and "list_all good_header hs" and "headers_max_length req < length hs"
  shows "\<exists>q. httpparser_parse_request req (render_request m p hs @ rest) len = Some (- 1, q) \<and>
           zt p \<in> set (fst (httpparser_free_request q)) \<and>
           fst (httpparser_free_request (snd (httpparser_free_request q))) = []"
  using parse_upto_body [OF assms(1-5), of rest len] assms(6)
  by (auto simp: httpparser_free_request_def)

theorem parse_too_many_headers_witness:
  "\<exists>q. httpparser_parse_request request_30 (render_request ''GET'' ''/'' (replicate 31 (''a'', ''b''))) 20 =
     Some (- 1, q) \<and> zt ''/'' \<in> set (fst (httpparser_free_request q))"
proof -
  have "good_header (''a'', ''b'')" "good_path ''/''" "''GET'' \<in> set http_methods" by code_simp+
  then show ?thesis
    using parse_too_many_headers [OF request_30_blank, of "''GET''" "''/''" "replicate 31 (''a'', ''b'')" "[]" 20]
    by (auto simp: request_30_max list_all_iff)
qed

lemma parse_result_shape:
  assumes "blank_request req" and "httpparser_parse_request req buf len = Some (r, q)"
  shows "request_ok q \<and> (r = 0 \<or> r = - 1) \<and> (r = 0 \<longrightarrow> (\<exists>p. req_path q = Some p \<and> NUL \<in> set p))"
proof -
  have req: "request_ok req" using assms(1) by (simp add: request_ok_def blank_request_def)
  obtain t where t: "tstr_find_between buf None 0 (Some (zt (CRLF @ CRLF))) 0 = Some t"
    using assms(2) by (auto simp: httpparser_parse_request_def split: bind_splits)
  show ?thesis
  proof (cases "tok_end t = 0")
    case True
    then show ?thesis using assms(2) t req by (simp add: httpparser_parse_request_def)
  next
    case False
    obtain r1 where r1: "parse_method req buf = Some r1"
      using assms(2) t False by (auto simp: httpparser_parse_request_def split: bind_splits)
    note k1 = parse_method_ok [OF r1 req]
    show ?thesis
    proof (cases r1)
      case (Bad q1)
      then show ?thesis using assms(2) t False r1 k1 by (simp add: httpparser_parse_request_def)
    next
      case N1: (Next q1 e1)
      obtain r2 where r2: "parse_path q1 buf e1 = Some r2"
        using assms(2) t False r1 N1 by (auto simp: httpparser_parse_request_def split: bind_splits)
      have k2: "case r2 of Bad q \<Rightarrow> q = q1
         | Next q x \<Rightarrow> request_ok q \<and> (\<exists>p. req_path q = Some p \<and> NUL \<in> set p) \<and> req_body q = req_body q1"
        by (rule parse_path_ok [OF r2]) (use k1 N1 in simp)
      show ?thesis
      proof (cases r2)
        case (Bad q2)
        then show ?thesis using assms(2) t False r1 N1 k1 r2 k2
          by (simp add: httpparser_parse_request_def)
      next
        case N2: (Next q2 e2)
        then have ok2: "request_ok q2" "\<exists>p. req_path q2 = Some p \<and> NUL \<in> set p" using k2 by auto
        have rest: "(parse_version q2 buf e2 \<bind> (\<lambda>r3. case r3 of
            Bad q \<Rightarrow> Some (- 1, q)
          | Next q3 version_end \<Rightarrow> parse_headers q3 buf (tok_end t) version_end 0 \<bind> (\<lambda>r4. case r4 of
              Bad q \<Rightarrow> Some (- 1, q)
            | Next q4 cl \<Rightarrow> parse_body q4 buf len (tok_end t) cl))) = Some (r, q)"
          using assms(2) t False r1 N1 r2 N2 by (simp add: httpparser_parse_request_def)
        then show ?thesis
          using parse_version_ok [OF _ ok2(1)] ok2(2)
          by (fastforce split: bind_splits parse.splits dest: parse_headers_ok parse_body_ok)
      qed
    qed
  qed
qed

text \<open>C35: Whatever bytes are parsed, if the parser returns at all it returns 0 or -1 and the
  request is well formed: every array has its size, no more headers are counted than the
  table holds, and every counted header is terminated in both parts. After 0 the path is
  a terminated string, so the server never uses a null path.\<close>
theorem parse_result_ok:
  assumes "blank_request req" and "httpparser_parse_request req buf len = Some (r, q)"
  shows "request_ok q \<and> (r = 0 \<or> r = - 1) \<and> (r = 0 \<longrightarrow> (\<exists>p. req_path q = Some p \<and> NUL \<in> set p))"
  by (rule parse_result_shape [OF assms])

theorem parse_result_ok_witness:
  "\<exists>q. httpparser_parse_request request_30 (render_request ''GET'' ''/'' []) 18 = Some (0, q) \<and>
     request_ok q \<and> (\<exists>p. req_path q = Some p \<and> NUL \<in> set p)"
proof -
  have "good_path ''/''" "''GET'' \<in> set http_methods" by code_simp+
  then obtain q where q: "httpparser_parse_request request_30 (render_request ''GET'' ''/'' []) 18 = Some (0, q)"
    using parse_upto_body [OF request_30_blank, of "''GET''" "''/''" "[]" "[]" 18]
      parse_body_none by (force simp: declared_length_def lowered_def)
  then show ?thesis using parse_result_ok [OF request_30_blank q] by simp
qed

end
