(* ===== verification/Csocket_Server.thy ===== *)
theory Csocket_Server
  imports Libtstr
begin

text \<open>
  \<^verbatim>\<open>server/libs/csocket-server.c\<close> without TLS: thin wrappers around the socket system
  calls, as the repository's Makefile builds them and, where they differ, for Windows (prefix
  \<open>win_\<close>). The branches for TLS name fields and a function (\<^verbatim>\<open>connection\<close>,
  \<^verbatim>\<open>pcll_set_fd\<close>) that are declared nowhere; they are not modelled. The answers of the operating
  system are arguments of the definitions, and each wrapper also returns the calls it made,
  in order. Error messages are not modelled.
\<close>

section \<open>Data\<close>

record csocket_server =
  ss_socket :: int
  ss_port :: nat

record csocket_server_client =
  cs_socket :: int
  cs_addr :: "nat list"
  cs_sin_port :: "16 word"

datatype syscall =
    Sys_socket
  | Sys_setsockopt int
  | Sys_bind int nat
  | Sys_listen int int
  | Sys_accept int
  | Sys_send int outbuf nat
  | Sys_recv int nat
  | Sys_close int

text \<open>What the four calls of the server's start return.\<close>

record os_init =
  ret_socket :: int
  ret_setsockopt :: int
  ret_bind :: int
  ret_listen :: int

section \<open>Operations\<close>

definition csocket_server_init :: "os_init \<Rightarrow> csocket_server \<Rightarrow> int \<times> csocket_server \<times> syscall list" where
  "csocket_server_init os server = (
     let s = ret_socket os; server1 = server\<lparr>ss_socket := s\<rparr>;
         c1 = [Sys_socket]; c2 = c1 @ [Sys_setsockopt s]; c3 = c2 @ [Sys_bind s (ss_port server)];
         c4 = c3 @ [Sys_listen s (- 1)] in
     if s < 0 then (- 1, server1, c1)
     else if ret_setsockopt os < 0 then (- 1, server1, c2)
     else if ret_bind os < 0 then (- 1, server1, c3)
     else if ret_listen os < 0 then (- 1, server1, c4)
     else (0, server1, c4))"

text \<open>\<open>fd\<close> and \<open>peer\<close> are what \<^verbatim>\<open>accept\<close> returns and stores.\<close>

definition csocket_server_accept ::
  "int \<Rightarrow> nat list \<times> 16 word \<Rightarrow> csocket_server \<Rightarrow> csocket_server_client \<Rightarrow>
   int \<times> csocket_server_client \<times> syscall list"
where
  "csocket_server_accept fd peer server client = (
     let client1 = client\<lparr>cs_socket := fd\<rparr>; c = [Sys_accept (ss_socket server)] in
     if fd < 0 then (- 1, client1, c)
     else (0, client1\<lparr>cs_addr := fst peer, cs_sin_port := snd peer\<rparr>, c))"

definition csocket_server_send ::
  "int \<Rightarrow> csocket_server_client \<Rightarrow> outbuf \<Rightarrow> nat \<Rightarrow> int \<times> syscall list"
where
  "csocket_server_send sent client data n =
     ((if sent < 0 then - 1 else 0), [Sys_send (cs_socket client) (take n data) n])"

definition csocket_close_client :: "csocket_server_client \<Rightarrow> int \<times> syscall list" where
  "csocket_close_client client = (0, [Sys_close (cs_socket client)])"

definition csocket_server_recv ::
  "int \<Rightarrow> csocket_server_client \<Rightarrow> nat \<Rightarrow> int \<times> syscall list"
where
  "csocket_server_recv received client n =
     ((if received < 0 then - 1 else received), [Sys_recv (cs_socket client) n])"

definition csocket_server_close :: "csocket_server \<Rightarrow> int \<times> syscall list" where
  "csocket_server_close server = (0, [Sys_close (ss_socket server)])"

definition csocket_server_client_get_id :: "csocket_server_client \<Rightarrow> 32 word" where
  "csocket_server_client_get_id client = of_int (cs_socket client)"

text \<open>\<^verbatim>\<open>inet_ntop(AF_INET, ...)\<close>: four decimal numbers with dots between them.\<close>

fun dotted :: "nat list \<Rightarrow> string" where
  "dotted [] = []"
| "dotted [n] = show_nat n"
| "dotted (n # ns) = show_nat n @ ''.'' @ dotted ns"

definition csocket_server_client_get_ip :: "csocket_server_client \<Rightarrow> bytes \<Rightarrow> bytes option" where
  "csocket_server_client_get_ip client ip =
     (let s = dotted (cs_addr client) @ [NUL] in
      if length s \<le> 16 \<and> length s \<le> length ip then Some (put_at ip 0 s) else None)"

definition csocket_server_client_get_port :: "csocket_server_client \<Rightarrow> nat" where
  "csocket_server_client_get_port client =
     (let w = unat (cs_sin_port client) in (w mod 256) * 256 + w div 256)"

section \<open>The Windows branches\<close>

text \<open>The wrappers that differ on Windows: the library has to be started and stopped, and a
  socket is closed with \<^verbatim>\<open>closesocket\<close>. \<open>wsa\<close> is what
  \<^verbatim>\<open>WSAStartup\<close> returns.\<close>

datatype win_call = WSA_startup | WSA_cleanup | Win_call syscall

definition win_server_init :: "int \<Rightarrow> os_init \<Rightarrow> csocket_server \<Rightarrow> int \<times> csocket_server \<times> win_call list" where
  "win_server_init wsa os server = (
     let s = ret_socket os; server1 = server\<lparr>ss_socket := s\<rparr>;
         c0 = [WSA_startup]; c1 = c0 @ [Win_call Sys_socket]; c2 = c1 @ [Win_call (Sys_setsockopt s)];
         c3 = c2 @ [Win_call (Sys_bind s (ss_port server))]; c4 = c3 @ [Win_call (Sys_listen s (- 1))] in
     if wsa \<noteq> 0 then (- 1, server, c0)
     else if s = - 1 then (- 1, server1, c1)
     else if ret_setsockopt os = - 1 then (- 1, server1, c2)
     else if ret_bind os < 0 then (- 1, server1, c3)
     else if ret_listen os < 0 then (- 1, server1, c4)
     else (0, server1, c4))"

definition win_close_client :: "csocket_server_client \<Rightarrow> int \<times> win_call list" where
  "win_close_client client = (0, [Win_call (Sys_close (cs_socket client))])"

definition win_server_close :: "csocket_server \<Rightarrow> int \<times> win_call list" where
  "win_server_close server = (0, [Win_call (Sys_close (ss_socket server)), WSA_cleanup])"

section \<open>Properties\<close>

text \<open>Starting the socket makes the four system calls in order and stops behind the first
  one that fails. It returns 0 exactly when all succeeded and -1 otherwise, never another
  value, and it never closes the descriptor it opened.\<close>
theorem server_init_calls:
  shows "case csocket_server_init os server of (r, server', calls) \<Rightarrow>
           r \<in> {0, - 1} \<and>
           (r = 0 \<longleftrightarrow> 0 \<le> ret_socket os \<and> 0 \<le> ret_setsockopt os \<and> 0 \<le> ret_bind os \<and> 0 \<le> ret_listen os) \<and>
           ss_socket server' = ret_socket os \<and>
           calls = take (length calls) [Sys_socket, Sys_setsockopt (ret_socket os),
             Sys_bind (ret_socket os) (ss_port server), Sys_listen (ret_socket os) (- 1)] \<and>
           calls \<noteq> [] \<and> Sys_close (ret_socket os) \<notin> set calls"
  by (simp add: csocket_server_init_def Let_def)

text \<open>On Windows a failed start leaves the socket library started and the socket open: the
  start calls neither \<^verbatim>\<open>WSACleanup\<close> nor \<^verbatim>\<open>closesocket\<close> on any path,
  while closing a started server undoes both.\<close>
theorem win_init_leaves_open:
  "case win_server_init wsa os server of (r, server', calls) \<Rightarrow>
     (r = 0 \<longleftrightarrow> wsa = 0 \<and> ret_socket os \<noteq> - 1 \<and> ret_setsockopt os \<noteq> - 1 \<and> 0 \<le> ret_bind os \<and> 0 \<le> ret_listen os) \<and>
     WSA_cleanup \<notin> set calls \<and> (\<forall>fd. Win_call (Sys_close fd) \<notin> set calls) \<and>
     (r = 0 \<longrightarrow> set (snd (win_server_close server')) = {Win_call (Sys_close (ret_socket os)), WSA_cleanup})"
  by (auto simp: win_server_init_def win_server_close_def Let_def)

theorem win_init_leaves_open_witness:
  "WSA_cleanup \<notin> set (snd (snd (win_server_init 0 \<lparr>ret_socket = 3, ret_setsockopt = 0, ret_bind = - 1, ret_listen = 0\<rparr> server)))"
  using win_init_leaves_open [of 0 "\<lparr>ret_socket = 3, ret_setsockopt = 0, ret_bind = - 1, ret_listen = 0\<rparr>" server]
  by (simp split: prod.splits)

text \<open>The dotted address of a client is at most 15 characters, so with its terminator it
  fits the 16 bytes the server must provide, and the text is exactly the four numbers.\<close>
theorem client_ip_fits:
  assumes "cs_addr client = [a, b, c, d]" and "a < 256" and "b < 256" and "c < 256" and "d < 256"
    and "16 \<le> length ip"
  shows "\<exists>ip'. csocket_server_client_get_ip client ip = Some ip' \<and> length ip' = length ip \<and>
           cstr ip' = show_nat a @ ''.'' @ show_nat b @ ''.'' @ show_nat c @ ''.'' @ show_nat d"
proof -
  have l: "n < 256 \<Longrightarrow> length (show_nat n) \<le> 3" for n
    using show_nat_length_bound [of n 3] by simp
  have s: "dotted [a, b, c, d] = show_nat a @ ''.'' @ show_nat b @ ''.'' @ show_nat c @ ''.'' @ show_nat d"
    by simp
  have "length (dotted [a, b, c, d] @ [NUL]) \<le> 16"
    using l [OF assms(2)] l [OF assms(3)] l [OF assms(4)] l [OF assms(5)] by simp
  moreover have cs: "c_string (dotted [a, b, c, d])" by simp
  have "cstr (put_at ip 0 (dotted [a, b, c, d] @ [NUL])) = dotted [a, b, c, d]"
    unfolding put_at_def by (simp del: dotted.simps add: cstr_append_NUL [OF cs])
  ultimately show ?thesis using assms(1,6) s by (simp add: csocket_server_client_get_ip_def Let_def)
qed

theorem client_ip_fits_witness:
  "\<exists>ip'. csocket_server_client_get_ip \<lparr>cs_socket = 5, cs_addr = [127, 0, 0, 1], cs_sin_port = 0\<rparr> (replicate 16 NUL) = Some ip' \<and>
     cstr ip' = ''127.0.0.1''"
proof -
  have "show_nat 127 = ''127''" "show_nat 0 = ''0''" "show_nat 1 = ''1''" by code_simp+
  then show ?thesis
    using client_ip_fits [of "\<lparr>cs_socket = 5, cs_addr = [127, 0, 0, 1], cs_sin_port = 0\<rparr>" 127 0 0 1 "replicate 16 NUL"]
    by auto
qed

end
