(* ===== verification/Http_Server.thy ===== *)
theory Http_Server
  imports Http_Parser Csocket_Server "HOL-Library.Multiset"
begin

text \<open>
  \<^verbatim>\<open>server/libs/httpserver.c\<close>: the table of connection slots, the accept loop, the
  loop of one connection, and the serialisation of a response.
  Heap blocks of connection data are numbers; the live ones are listed, and freeing a block
  that is not live traps (a double free). The accept loop and the connections run on
  different threads without a lock, so their steps are separate definitions and the system is
  a step relation over them; one step is atomic, which is an assumption (the C code has data
  races inside a step too).
\<close>

section \<open>The slot table\<close>

text \<open>An entry of \<^verbatim>\<open>available_sockets\<close> is 0 or a slot index plus 1.\<close>

record 'd httpserver_client =
  hc_thread :: nat
  hc_thread_data :: "nat option"
  hc_socket :: int
  hc_upgraded :: bool
  hc_data :: "'d option"

record 'd httpserver =
  hs_server :: csocket_server
  hs_sockets :: "'d httpserver_client list"
  hs_available :: "nat list"
  hs_capacity :: nat
  hs_length :: int

definition fresh_client :: "'d httpserver_client" where
  "fresh_client = \<lparr>hc_thread = 0, hc_thread_data = None, hc_socket = - 1, hc_upgraded = False, hc_data = None\<rparr>"

text \<open>The port is \<^verbatim>\<open>PORT\<close>; \<open>Exit 1\<close> is the call of \<^verbatim>\<open>exit(1)\<close>.\<close>

definition httpserver_start_server :: "os_init \<Rightarrow> 'd httpserver outcome" where
  "httpserver_start_server os = (
     case csocket_server_init os \<lparr>ss_socket = 0, ss_port = 8888\<rparr> of (r, server, calls) \<Rightarrow>
       if r = 1 then Exit 1
       else Ret \<lparr>hs_server = server, hs_sockets = [fresh_client], hs_available = [1],
                 hs_capacity = 1, hs_length = 0\<rparr>)"

function first_available :: "nat list \<Rightarrow> nat \<Rightarrow> nat \<Rightarrow> nat option option" where
  "first_available avail cap i =
     (if i < cap then do {
        a \<leftarrow> rd avail i;
        if a = 0 then first_available avail cap (Suc i) else Some (Some i) }
      else Some None)"
  by pat_completeness auto
termination
  by (relation "measure (\<lambda>(avail, cap, i). cap - i)") auto

declare first_available.simps [simp del]

definition httpserver_select_position :: "'d httpserver \<Rightarrow> ('d httpserver \<times> nat) option" where
  "httpserver_select_position server = do {
     r \<leftarrow> first_available (hs_available server) (hs_capacity server) 0;
     case r of
       Some i \<Rightarrow> do {
         a \<leftarrow> rd (hs_available server) i;
         Some (server\<lparr>hs_available := (hs_available server)[i := 0]\<rparr>, a - 1) }
     | None \<Rightarrow> do {
         let capacity = hs_capacity server * 2;
         let avail = hs_available server @ map Suc [hs_capacity server ..< capacity];
         if hs_length server < 0 then None
         else do {
           avail' \<leftarrow> wr avail (nat (hs_length server)) 0;
           Some (server\<lparr>hs_capacity := capacity, hs_available := avail',
                   hs_sockets := hs_sockets server @ replicate (hs_capacity server) fresh_client\<rparr>,
                 nat (hs_length server)) } } }"

function first_taken :: "nat list \<Rightarrow> nat \<Rightarrow> nat \<Rightarrow> nat option option" where
  "first_taken avail cap i =
     (if i < cap then do {
        a \<leftarrow> rd avail i;
        if a \<noteq> 0 then first_taken avail cap (Suc i) else Some (Some i) }
      else Some None)"
  by pat_completeness auto
termination
  by (relation "measure (\<lambda>(avail, cap, i). cap - i)") auto

declare first_taken.simps [simp del]

definition httpserver_add_available_socket :: "'d httpserver \<Rightarrow> nat \<Rightarrow> 'd httpserver option" where
  "httpserver_add_available_socket server socket_index = do {
     r \<leftarrow> first_taken (hs_available server) (hs_capacity server) 0;
     case r of
       Some i \<Rightarrow> Some (server\<lparr>hs_available := (hs_available server)[i := socket_index + 1],
                       hs_length := hs_length server - 1\<rparr>)
     | None \<Rightarrow> Some server }"

text \<open>What the server asks of the socket and thread wrappers, in order.\<close>

datatype server_call =
    Socket_call syscall
  | Thread_create nat nat
  | Thread_detach nat
  | Thread_cancel nat

text \<open>The server together with the heap blocks of its connections: their client as it was
  accepted (\<open>w_data\<close>), and the calls made so far.\<close>

record 'd world =
  w_server :: "'d httpserver"
  w_live :: "nat list"
  w_next :: nat
  w_data :: "nat \<Rightarrow> csocket_server_client"
  w_calls :: "server_call list"

definition heap_free :: "nat option \<Rightarrow> nat list \<Rightarrow> nat list option" where
  "heap_free p live = (case p of
     None \<Rightarrow> Some live
   | Some b \<Rightarrow> if b \<in> set live then Some (remove1 b live) else None)"

definition httpserver_disconnect_client :: "'d world \<Rightarrow> csocket_server_client \<Rightarrow> nat \<Rightarrow> 'd world option" where
  "httpserver_disconnect_client w client socket_index = do {
     c \<leftarrow> rd (hs_sockets (w_server w)) socket_index;
     live \<leftarrow> heap_free (hc_thread_data c) (w_live w);
     let server = (w_server w)\<lparr>hs_sockets :=
       (hs_sockets (w_server w))[socket_index := c\<lparr>hc_socket := - 1, hc_upgraded := False\<rparr>]\<rparr>;
     server' \<leftarrow> httpserver_add_available_socket server socket_index;
     Some (w\<lparr>w_server := server', w_live := live,
       w_calls := w_calls w @ map Socket_call (snd (csocket_close_client client)) @ [Thread_cancel (hc_thread c)]\<rparr>) }"

text \<open>
  One turn of the accept loop up to the creation of the thread, and the store of the new
  client into its slot, which the code does after the thread was created. \<open>fd\<close> and
  \<open>peer\<close> are what the system's accept returns; an accept that fails ends the loop
  (\<^term>\<open>Inl\<close>). The code stores the result of its wrapper, which is 0, as the socket of
  the slot.
\<close>

definition accept_step ::
  "int \<Rightarrow> nat list \<times> 16 word \<Rightarrow> nat \<Rightarrow> csocket_server_client \<Rightarrow> 'd world \<Rightarrow>
   (csocket_server_client + 'd world \<times> nat \<times> 'd httpserver_client) option"
where
  "accept_step fd peer thread client w = (
     case csocket_server_accept fd peer (hs_server (w_server w)) client of (socket, client1, calls) \<Rightarrow>
       if socket \<noteq> 0 then Some (Inl client1)
       else do {
         (server, socket_index) \<leftarrow> httpserver_select_position (w_server w);
         let b = w_next w;
         Some (Inr (w\<lparr>w_server := server\<lparr>hs_length := hs_length server + 1\<rparr>, w_live := b # w_live w, w_next := b + 1,
                    w_data := (w_data w)(b := client1),
                    w_calls := w_calls w @ map Socket_call calls @ [Thread_create thread b, Thread_detach thread]\<rparr>,
               socket_index,
               \<lparr>hc_thread = thread, hc_thread_data = Some b, hc_socket = socket, hc_upgraded = False, hc_data = None\<rparr>)) })"

definition store_step :: "nat \<Rightarrow> 'd httpserver_client \<Rightarrow> 'd world \<Rightarrow> 'd world option" where
  "store_step socket_index http_client w = do {
     socks \<leftarrow> wr (hs_sockets (w_server w)) socket_index http_client;
     Some (w\<lparr>w_server := (w_server w)\<lparr>hs_sockets := socks\<rparr>\<rparr>) }"

function stop_loop :: "'d httpserver_client list \<Rightarrow> nat \<Rightarrow> nat \<Rightarrow> nat list \<Rightarrow> (nat list \<times> server_call list) option" where
  "stop_loop socks cap i live =
     (if i < cap then do {
        c \<leftarrow> rd socks i;
        if hc_socket c = - 1 then stop_loop socks cap (Suc i) live
        else do {
          live' \<leftarrow> heap_free (hc_thread_data c) live;
          (live2, calls) \<leftarrow> stop_loop socks cap (Suc i) live';
          Some (live2, Thread_cancel (hc_thread c) # calls) } }
      else Some (live, []))"
  by pat_completeness auto
termination
  by (relation "measure (\<lambda>(socks, cap, i, live). cap - i)") auto

declare stop_loop.simps [simp del]

text \<open>The blocks of connection data still live when the server has stopped, and the calls. The
  two arrays are freed, so nothing is left of the server itself.\<close>

definition httpserver_stop_server :: "'d world \<Rightarrow> (nat list \<times> server_call list) option" where
  "httpserver_stop_server w = do {
     (live, calls) \<leftarrow> stop_loop (hs_sockets (w_server w)) (hs_capacity (w_server w)) 0 (w_live w);
     Some (live, calls @ map Socket_call (snd (csocket_server_close (hs_server (w_server w))))) }"

definition httpserver_set_socket_data :: "'d httpserver \<Rightarrow> nat \<Rightarrow> 'd option \<Rightarrow> 'd httpserver option" where
  "httpserver_set_socket_data server i d = do {
     c \<leftarrow> rd (hs_sockets server) i;
     Some (server\<lparr>hs_sockets := (hs_sockets server)[i := c\<lparr>hc_data := d\<rparr>]\<rparr>) }"

definition httpserver_get_socket_data :: "'d httpserver \<Rightarrow> nat \<Rightarrow> 'd option option" where
  "httpserver_get_socket_data server i = map_option hc_data (rd (hs_sockets server) i)"

definition httpserver_upgrade_socket :: "'d httpserver \<Rightarrow> nat \<Rightarrow> 'd httpserver option" where
  "httpserver_upgrade_socket server i = do {
     c \<leftarrow> rd (hs_sockets server) i;
     Some (server\<lparr>hs_sockets := (hs_sockets server)[i := c\<lparr>hc_upgraded := True\<rparr>]\<rparr>) }"

section \<open>Responses\<close>

record httpserver_response =
  rs_status :: int
  rs_headers_length :: nat
  rs_headers :: "(string \<times> string) list"
  rs_body :: "bytes option"
  rs_body_length :: nat

definition status_texts :: "(int \<times> string) list" where
  "status_texts = [
     (100, ''Continue''), (101, ''Switching Protocols''), (102, ''Processing''), (103, ''Early Hints''),
     (200, ''OK''), (201, ''Created''), (202, ''Accepted''), (203, ''Non-Authoratative Information''),
     (204, ''No Content''), (205, ''Reset Content''), (206, ''Partial Content''), (207, ''Multi-Status''),
     (208, ''Already Reported''), (226, ''IM Used''), (300, ''Multiple Choices''),
     (301, ''Moved Permanently''), (302, ''Found''), (303, ''See Other''), (304, ''Not Modified''),
     (305, ''Use Proxy''), (307, ''Temporary Redirect''), (308, ''Permanent Redirect''),
     (400, ''Bad request''), (401, ''Unathorized''), (402, ''Payment Required''), (403, ''Forbidden''),
     (404, ''Not Found''), (405, ''Method Not Allowed''), (406, ''Not Acceptable''),
     (407, ''Proxy Authentication Required''), (408, ''Request Timeout''), (409, ''Conflict''),
     (410, ''Gone''), (411, ''Length Required''), (412, ''Precondition Failed''),
     (413, ''Payload Too Large''), (414, ''Request-URI Too Long''), (415, ''Unsupported Media Type''),
     (416, ''Requested Range Not Satisfiable''), (417, ''Expectation Failed''),
     (418, ''I'' @ [QUOTE] @ ''m a teapot''), (421, ''Misdirected Request''), (422, ''Unprocessable Entity''),
     (423, ''Locked''), (424, ''Failed Dependency''), (425, ''Too Early''), (426, ''Upgrade Required''),
     (428, ''Precondition Required''), (429, ''Too Many Requests''),
     (431, ''Request Header Fields Too Large''), (450, ''Blocked by Windows Parental Controls''),
     (451, ''Unavailable For Legal Reasons''), (497, ''HTTP Request Sent to HTTPS Port''),
     (498, ''Invalid Token''), (499, ''Client Closed Request''), (500, ''Internal Server Error''),
     (501, ''Not Implemented''), (502, ''Bad Gateway''), (503, ''Service Unavailable''),
     (504, ''Gateway Timeout''), (506, ''Variant Also Negotiates''), (507, ''Insufficient Storage''),
     (508, ''Loop Detected''), (509, ''Bandwidth Limit Exceeded''), (510, ''Not Extended''),
     (511, ''Network Authentication Required''), (521, ''Web Server Is Down''),
     (522, ''Connection Timed Out''), (523, ''Origin Is Unreachable''), (524, ''A Timeout Occurred''),
     (525, ''SSL Handshake Failed''), (530, ''Site Frozen''), (599, ''Network Connect Timeout Error'')]"

definition httpserver_get_status_text :: "int \<Rightarrow> string" where
  "httpserver_get_status_text status = (case map_of status_texts status of Some s \<Rightarrow> s | None \<Rightarrow> ''Unknown'')"

fun headers_size :: "(string \<times> string) list \<Rightarrow> nat \<Rightarrow> nat \<Rightarrow> nat option" where
  "headers_size hs 0 acc = Some acc"
| "headers_size [] (Suc n) acc = None"
| "headers_size ((k, v) # hs) (Suc n) acc = headers_size hs n (acc + length k + length v + 4)"

text \<open>\<^verbatim>\<open>sizeof("HTTP/1.1 ")\<close> is 10, one more than the characters. The source sums in an \<^verbatim>\<open>int\<close>, to which
  it casts every length; the model sums natural numbers, so it is exact for responses below
  \<open>2 ^ 31\<close> bytes, which every response of the shop is unless the database returns lists of that size.\<close>

definition calculate_response_length :: "httpserver_response \<Rightarrow> nat option" where
  "calculate_response_length r = do {
     n \<leftarrow> headers_size (rs_headers r) (rs_headers_length r)
           (10 + 3 + length (httpserver_get_status_text (rs_status r)) + 2);
     Some (n + 2 + (if rs_body r = None then 0 else rs_body_length r)) }"

fun append_headers :: "(string \<times> string) list \<Rightarrow> nat \<Rightarrow> outbuf \<Rightarrow> nat \<Rightarrow> (outbuf \<times> nat) option" where
  "append_headers hs 0 buf pos = Some (buf, pos)"
| "append_headers [] (Suc n) buf pos = None"
| "append_headers ((k, v) # hs) (Suc n) buf pos = do {
     (buf1, pos1) \<leftarrow> tstr_append buf (zt k) pos 0;
     (buf2, pos2) \<leftarrow> tstr_append buf1 (zt '': '') pos1 0;
     (buf3, pos3) \<leftarrow> tstr_append buf2 (zt v) pos2 0;
     (buf4, pos4) \<leftarrow> tstr_append buf3 (zt CRLF) pos3 0;
     append_headers hs n buf4 pos4 }"

text \<open>The bytes handed to \<^verbatim>\<open>csocket_server_send\<close>; \<^term>\<open>None\<close> inside is an
  uninitialised byte of the heap.\<close>

definition httpserver_send_response :: "httpserver_response \<Rightarrow> outbuf option" where
  "httpserver_send_response r = do {
     n \<leftarrow> calculate_response_length r;
     (b1, p1) \<leftarrow> tstr_append (replicate n None) (zt ''HTTP/1.1 '') 0 0;
     (b2, p2) \<leftarrow> tstr_append b1 (zt (c_snprintf 4 (show_int (rs_status r)))) p1 0;
     (b3, p3) \<leftarrow> tstr_append b2 (zt '' '') p2 0;
     (b4, p4) \<leftarrow> tstr_append b3 (zt (httpserver_get_status_text (rs_status r))) p3 0;
     (b5, p5) \<leftarrow> tstr_append b4 (zt CRLF) p4 0;
     (b6, p6) \<leftarrow> append_headers (rs_headers r) (rs_headers_length r) b5 p5;
     (b7, p7) \<leftarrow> tstr_append b6 (zt CRLF) p6 0;
     (b8, p8) \<leftarrow> (case rs_body r of
         None \<Rightarrow> Some (b7, p7)
       | Some body \<Rightarrow> tstr_append b7 body p7 (rs_body_length r));
     Some b8 }"

section \<open>The loop of one connection\<close>

text \<open>
  \<^verbatim>\<open>listen_messages\<close>. \<open>recvs\<close> are the results of \<^verbatim>\<open>recv\<close> in order: the
  data of a positive result, or the end of the connection (0 or an error) when the list ends;
  \<open>payload\<close> is the receive buffer, which is not cleared between two calls. The callback is an
  argument. The events are what the loop does to the outside.
\<close>

datatype event =
    Ev_request httpparser_request
  | Ev_response outbuf
  | Ev_freed bytes
  | Ev_disconnect

text \<open>One \<^verbatim>\<open>recv\<close> overwrites the front of the buffer. It delivers at most as many bytes as the
  buffer has, \<^verbatim>\<open>TCPLIMITS_PACKET_SIZE\<close>; the definition itself does not bound the message, so what is
  proved for any message holds in particular for those that fit.\<close>

definition recv_into :: "bytes \<Rightarrow> bytes \<Rightarrow> bytes" where
  "recv_into payload msg = msg @ drop (length msg) payload"

definition bad_request :: httpserver_response where
  "bad_request = \<lparr>rs_status = 400, rs_headers_length = 1, rs_headers = [(''Content-Length'', ''0'')],
     rs_body = None, rs_body_length = 0\<rparr>"

text \<open>The body of the loop: \<open>Inl\<close> leaves it behind a message that does not parse, with what was freed
  and the 400 that was sent; \<open>Inr\<close> goes on with the new state and the receive buffer. The
  request struct and the header array live on the stack of each turn; their initial contents
  \<open>junk\<close> are arbitrary.\<close>

definition connection_turn ::
  "httpparser_request \<Rightarrow> ('s \<Rightarrow> httpparser_request \<Rightarrow> ('s \<times> event list) option) \<Rightarrow> bytes \<Rightarrow> bytes \<Rightarrow> 's \<Rightarrow>
   (event list + 's \<times> bytes \<times> event list) option"
where
  "connection_turn junk callback payload msg s = do {
     (r, q) \<leftarrow> httpparser_parse_request
        (httpparser_init_request junk (take 30 (req_headers junk)) 30) (recv_into payload msg) (int (length msg));
     if r \<noteq> 0 then do {
       resp \<leftarrow> httpserver_send_response bad_request;
       Some (Inl (map Ev_freed (fst (httpparser_free_request q)) @ [Ev_response resp])) }
     else do {
       (s1, evs) \<leftarrow> callback s q;
       Some (Inr (s1, recv_into payload msg, [Ev_request q] @ evs @ map Ev_freed (fst (httpparser_free_request q)))) } }"

text \<open>The loop runs while \<^verbatim>\<open>payload_size > 0\<close>: an empty message ends the connection.\<close>

fun listen_messages ::
  "httpparser_request \<Rightarrow> ('s \<Rightarrow> httpparser_request \<Rightarrow> ('s \<times> event list) option) \<Rightarrow> bytes \<Rightarrow> bytes list \<Rightarrow> 's \<Rightarrow>
   ('s \<times> event list) option"
where
  "listen_messages junk callback payload [] s = Some (s, [Ev_disconnect])"
| "listen_messages junk callback payload (msg # recvs) s =
     (if msg = [] then Some (s, [Ev_disconnect])
      else do {
        r \<leftarrow> connection_turn junk callback payload msg s;
        case r of
          Inl evs \<Rightarrow> Some (s, evs @ [Ev_disconnect])
        | Inr (s1, payload', evs) \<Rightarrow> do {
            (s2, evs') \<leftarrow> listen_messages junk callback payload' recvs s1;
            Some (s2, evs @ evs') } })"

declare listen_messages.simps(2) [simp del]

lemma listen_empty [simp]: "listen_messages junk callback payload ([] # recvs) s = Some (s, [Ev_disconnect])"
  by (simp add: listen_messages.simps)

text \<open>The loop on a message that parses.\<close>

lemma listen_parsed:
  assumes "httpparser_parse_request (httpparser_init_request junk (take 30 (req_headers junk)) 30)
      (recv_into payload msg) (int (length msg)) = Some (0, q)" and "msg \<noteq> []"
  shows "listen_messages junk callback payload (msg # recvs) s = do {
     (s1, evs) \<leftarrow> callback s q;
     (s2, evs') \<leftarrow> listen_messages junk callback (recv_into payload msg) recvs s1;
     Some (s2, [Ev_request q] @ evs @ map Ev_freed (fst (httpparser_free_request q)) @ evs') }"
  using assms by (cases "callback s q") (auto simp: listen_messages.simps connection_turn_def)

lemma listen_traps:
  assumes "httpparser_parse_request (httpparser_init_request junk (take 30 (req_headers junk)) 30)
      (recv_into payload msg) (int (length msg)) = None" and "msg \<noteq> []"
  shows "listen_messages junk callback payload (msg # recvs) s = None"
  using assms by (simp add: listen_messages.simps connection_turn_def)

section \<open>The response fills its buffer exactly\<close>

definition response_text :: "httpserver_response \<Rightarrow> string" where
  "response_text r = ''HTTP/1.1 '' @ show_int (rs_status r) @ '' '' @
     httpserver_get_status_text (rs_status r) @ CRLF @
     render_headers (take (rs_headers_length r) (rs_headers r)) @ CRLF @
     (case rs_body r of None \<Rightarrow> [] | Some b \<Rightarrow> take (rs_body_length r) b)"

definition written :: "outbuf \<Rightarrow> string \<Rightarrow> bool" where
  "written buf s \<longleftrightarrow> take (length s) buf = map Some s"

definition response_ok :: "httpserver_response \<Rightarrow> bool" where
  "response_ok r \<longleftrightarrow> 100 \<le> rs_status r \<and> rs_status r < 1000 \<and> rs_headers_length r \<le> length (rs_headers r) \<and>
     list_all (\<lambda>h. c_string (fst h) \<and> c_string (snd h)) (rs_headers r) \<and>
     (case rs_body r of None \<Rightarrow> True | Some b \<Rightarrow> 0 < rs_body_length r \<and> rs_body_length r \<le> length b)"

lemma append_written:
  assumes "written buf s" and "c_string x" and "length s + length x \<le> length buf"
  shows "\<exists>b'. tstr_append buf (zt x) (length s) 0 = Some (b', length s + length x) \<and>
              written b' (s @ x) \<and> length b' = length buf"
proof -
  have "tstr_append buf (zt x) (length s) 0 = Some (put_bytes buf (length s) x, length s + length x)"
    using tstr_append_string [OF assms(2,3), of "[]"] by (simp add: zt_def)
  then show ?thesis using assms by (simp add: written_def put_bytes_def put_at_def)
qed

lemma append_bind:
  assumes "written buf s" and "c_string x" and "length s + length x \<le> length buf" and "pos = length s"
    and "\<And>b'. written b' (s @ x) \<Longrightarrow> length b' = length buf \<Longrightarrow> \<exists>r. f (b', length s + length x) = Some r \<and> Q r"
  shows "\<exists>r. tstr_append buf (zt x) pos 0 \<bind> f = Some r \<and> Q r"
  using append_written [OF assms(1-3)] assms(4,5) by fastforce

lemma headers_size_eq:
  "n \<le> length hs \<Longrightarrow> headers_size hs n acc = Some (acc + length (render_headers (take n hs)))"
  by (induction hs n acc rule: headers_size.induct) (auto simp: render_headers_def header_line_def)

lemma render_headers_Cons [simp]:
  "render_headers [] = []" "render_headers (h # hs) = header_line h @ CRLF @ render_headers hs"
  by (simp_all add: render_headers_def)

lemma append_headers_written:
  assumes "written buf s" and "n \<le> length hs" and "list_all (\<lambda>h. c_string (fst h) \<and> c_string (snd h)) hs"
    and "length s + length (render_headers (take n hs)) \<le> length buf" and "pos = length s"
  shows "\<exists>b'. append_headers hs n buf pos = Some (b', length s + length (render_headers (take n hs))) \<and>
              written b' (s @ render_headers (take n hs)) \<and> length b' = length buf"
  using assms
proof (induction hs n buf pos arbitrary: s rule: append_headers.induct)
  case (3 k v hs n buf pos)
  let ?R = "render_headers (take n hs)"
  have c: "c_string k" "c_string v" "list_all (\<lambda>h. c_string (fst h) \<and> c_string (snd h)) hs"
    using "3.prems"(3) by auto
  have len: "length s + length k + 2 + length v + 2 + length ?R \<le> length buf"
    using "3.prems"(4) by (simp add: header_line_def)
  obtain b1 where b1: "tstr_append buf (zt k) pos 0 = Some (b1, length (s @ k))"
      "written b1 (s @ k)" "length b1 = length buf"
    using append_written [OF "3.prems"(1) c(1)] len "3.prems"(5) by auto
  obtain b2 where b2: "tstr_append b1 (zt '': '') (length (s @ k)) 0 = Some (b2, length ((s @ k) @ '': ''))"
      "written b2 ((s @ k) @ '': '')" "length b2 = length buf"
    using append_written [OF b1(2), of "'': ''"] len b1(3) by auto
  obtain b3 where b3: "tstr_append b2 (zt v) (length ((s @ k) @ '': '')) 0 = Some (b3, length (((s @ k) @ '': '') @ v))"
      "written b3 (((s @ k) @ '': '') @ v)" "length b3 = length buf"
    using append_written [OF b2(2) c(2)] len b2(3) by auto
  obtain b4 where b4: "tstr_append b3 (zt CRLF) (length (((s @ k) @ '': '') @ v)) 0 =
        Some (b4, length ((((s @ k) @ '': '') @ v) @ CRLF))"
      "written b4 ((((s @ k) @ '': '') @ v) @ CRLF)" "length b4 = length buf"
    using append_written [OF b3(2), of CRLF] len b3(3) by auto
  have "\<exists>b'. append_headers hs n b4 (length ((((s @ k) @ '': '') @ v) @ CRLF)) =
        Some (b', length ((((s @ k) @ '': '') @ v) @ CRLF) + length ?R) \<and>
      written b' (((((s @ k) @ '': '') @ v) @ CRLF) @ ?R) \<and> length b' = length b4"
    by (rule "3.IH" [OF b1(1) refl b2(1) refl b3(1) refl b4(1) refl b4(2)])
       (use "3.prems"(2) c(3) len b4(3) in auto)
  then show ?case
    using b1(1) b2(1) b3(1) b4(1,3) by (auto simp: header_line_def)
qed auto

lemma show_nat_3: "100 \<le> n \<Longrightarrow> n < 1000 \<Longrightarrow> length (show_nat n) = 3"
  by (simp add: show_nat.simps [of n] show_nat.simps [of "n div 10"] show_nat.simps [of "n div 10 div 10"]
      less_mult_imp_div_less not_less div_le_mono div_less_iff_less_mult less_eq_div_iff_mult_less_eq)

lemma show_int_3: "100 \<le> i \<Longrightarrow> i < 1000 \<Longrightarrow> length (show_int i) = 3"
  using show_nat_3 [of "nat i"] by (simp add: show_int_def)

lemma status_text_c_string: "c_string (httpserver_get_status_text i)"
proof -
  have "list_all (\<lambda>p. c_string (snd p)) status_texts" by (simp add: status_texts_def)
  then show ?thesis
    by (auto simp: httpserver_get_status_text_def list_all_iff dest!: map_of_SomeD split: option.split)
qed

lemma response_length:
  assumes "response_ok r"
  shows "calculate_response_length r = Some (length (response_text r))"
  using assms show_int_3 [of "rs_status r"]
  by (auto simp: response_ok_def calculate_response_length_def headers_size_eq response_text_def
      split: option.splits)


lemma send_response_exact:
  assumes "response_ok r"
  shows "httpserver_send_response r = Some (map Some (response_text r))"
proof -
  let ?n = "length (response_text r)" and ?st = "show_int (rs_status r)"
  let ?R = "render_headers (take (rs_headers_length r) (rs_headers r))"
  have three: "length ?st = 3" and hl: "rs_headers_length r \<le> length (rs_headers r)"
    and cs: "list_all (\<lambda>h. c_string (fst h) \<and> c_string (snd h)) (rs_headers r)"
    using assms show_int_3 [of "rs_status r"] by (auto simp: response_ok_def)
  have snp: "c_snprintf 4 ?st = ?st" using three by (simp add: c_snprintf_def)
  define s5 where "s5 = ''HTTP/1.1 '' @ ?st @ '' '' @ httpserver_get_status_text (rs_status r) @ CRLF"
  define tl where "tl =
    (case rs_body r of None \<Rightarrow> [] | Some b \<Rightarrow> take (rs_body_length r) b)"
  have whole: "response_text r = s5 @ ?R @ CRLF @ tl" by (simp add: response_text_def s5_def tl_def)
  have w0: "written (replicate ?n None) []" by (simp add: written_def)
  have l5: "length s5 = 9 + 3 + 1 + length (httpserver_get_status_text (rs_status r)) + 2"
    using three by (simp add: s5_def)
  have fit: "length s5 + length ?R + 2 + length tl = ?n" by (simp add: whole)
  have body: "\<exists>b8 p8. (case rs_body r of None \<Rightarrow> Some (b7, p7)
        | Some body \<Rightarrow> tstr_append b7 body p7 (rs_body_length r)) = Some (b8, p8) \<and>
      b8 = map Some (response_text r)"
    if b7: "written b7 (s5 @ ?R @ CRLF)" "length b7 = ?n" "p7 = length (s5 @ ?R @ CRLF)" for b7 p7
  proof (cases "rs_body r")
    case None
    then have "response_text r = s5 @ ?R @ CRLF" by (simp add: whole tl_def)
    then show ?thesis using None b7 by (simp add: written_def)
  next
    case (Some b)
    then have b: "0 < rs_body_length r" "rs_body_length r \<le> length b" using assms by (auto simp: response_ok_def)
    have tlb: "tl = take (rs_body_length r) b" by (simp add: tl_def Some)
    have "tstr_append b7 (tl @ drop (rs_body_length r) b) p7 (length tl) =
        Some (put_bytes b7 p7 tl, p7 + length tl)"
      by (rule tstr_append_limit) (use b b7 fit tlb in auto)
    then have "tstr_append b7 b p7 (rs_body_length r) = Some (put_bytes b7 p7 tl, p7 + length tl)"
      using b tlb by simp
    moreover have "put_bytes b7 p7 tl = map Some (response_text r)"
      using b7 fit by (simp add: put_bytes_def put_at_def written_def whole)
    ultimately show ?thesis using Some by simp
  qed
  let ?h = "''HTTP/1.1 ''" and ?t = "httpserver_get_status_text (rs_status r)"
  obtain b1 where b1: "tstr_append (replicate ?n None) (zt ?h) 0 0 = Some (b1, length ?h)"
      "written b1 ?h" "length b1 = ?n"
    using append_written [OF w0, of ?h] fit l5 by auto
  obtain b2 where b2: "tstr_append b1 (zt ?st) (length ?h) 0 = Some (b2, length (?h @ ?st))"
      "written b2 (?h @ ?st)" "length b2 = ?n"
    using append_written [OF b1(2), of ?st] fit l5 three b1(3) by auto
  obtain b3 where b3: "tstr_append b2 (zt '' '') (length (?h @ ?st)) 0 = Some (b3, length ((?h @ ?st) @ '' ''))"
      "written b3 ((?h @ ?st) @ '' '')" "length b3 = ?n"
    using append_written [OF b2(2), of "'' ''"] fit l5 three b2(3) by auto
  obtain b4 where b4: "tstr_append b3 (zt ?t) (length ((?h @ ?st) @ '' '')) 0 =
        Some (b4, length (((?h @ ?st) @ '' '') @ ?t))"
      "written b4 (((?h @ ?st) @ '' '') @ ?t)" "length b4 = ?n"
    using append_written [OF b3(2) status_text_c_string, of "rs_status r"] fit l5 three b3(3) by auto
  obtain b5 where b5: "tstr_append b4 (zt CRLF) (length (((?h @ ?st) @ '' '') @ ?t)) 0 =
        Some (b5, length s5)" "written b5 s5" "length b5 = ?n"
    using append_written [OF b4(2), of CRLF] fit l5 three b4(3) by (auto simp: s5_def)
  obtain b6 where b6: "append_headers (rs_headers r) (rs_headers_length r) b5 (length s5) =
        Some (b6, length (s5 @ ?R))" "written b6 (s5 @ ?R)" "length b6 = ?n"
    using append_headers_written [OF b5(2) hl cs _ refl] b5(3) fit by auto
  obtain b7 where b7: "tstr_append b6 (zt CRLF) (length (s5 @ ?R)) 0 = Some (b7, length ((s5 @ ?R) @ CRLF))"
      "written b7 ((s5 @ ?R) @ CRLF)" "length b7 = ?n"
    using append_written [OF b6(2), of CRLF] b6(3) fit by auto
  obtain p8 where b8: "(case rs_body r of None \<Rightarrow> Some (b7, length ((s5 @ ?R) @ CRLF))
        | Some body \<Rightarrow> tstr_append b7 body (length ((s5 @ ?R) @ CRLF)) (rs_body_length r)) =
      Some (map Some (response_text r), p8)"
    using body [of b7 "length ((s5 @ ?R) @ CRLF)"] b7(2,3) by auto
  show ?thesis
    unfolding httpserver_send_response_def response_length [OF assms] snp
    by (simp only: Option.bind.simps prod.case b1(1) b2(1) b3(1) b4(1) b5(1) b6(1) b7(1) b8)
qed


section \<open>The slot pool\<close>

text \<open>
  What the accept loop and the connections share: taking a slot returns one that nobody
  holds, giving it back makes it free again. The lemma is about any history of such calls;
  \<open>Give k\<close> gives back the k-th slot still held.
\<close>

datatype pool_op = Take | Give nat

fun pool_run ::
  "('s \<Rightarrow> ('s \<times> nat) option) \<Rightarrow> ('s \<Rightarrow> nat \<Rightarrow> 's option) \<Rightarrow> pool_op list \<Rightarrow> 's \<Rightarrow> nat list \<Rightarrow>
   ('s \<times> nat list) option"
where
  "pool_run acquire release [] s held = Some (s, held)"
| "pool_run acquire release (Take # ops) s held = do {
     (s', i) \<leftarrow> acquire s;
     pool_run acquire release ops s' (held @ [i]) }"
| "pool_run acquire release (Give k # ops) s held =
     (if k < length held then do {
        s' \<leftarrow> release s (held ! k);
        pool_run acquire release ops s' (take k held @ drop (Suc k) held) }
      else pool_run acquire release ops s held)"

locale slot_pool =
  fixes ok :: "'s \<Rightarrow> bool"
    and busy :: "'s \<Rightarrow> nat set"
    and acquire :: "'s \<Rightarrow> ('s \<times> nat) option"
    and release :: "'s \<Rightarrow> nat \<Rightarrow> 's option"
  assumes acquire_law: "ok s \<Longrightarrow>
      \<exists>s' i. acquire s = Some (s', i) \<and> ok s' \<and> i \<notin> busy s \<and> busy s' = insert i (busy s)"
    and release_law: "ok s \<Longrightarrow> i \<in> busy s \<Longrightarrow> \<exists>s'. release s i = Some s' \<and> ok s' \<and> busy s' = busy s - {i}"
begin

lemma history_exclusive:
  assumes "ok s" and "distinct held" and "busy s = set held"
  shows "\<exists>s' held'. pool_run acquire release ops s held = Some (s', held') \<and>
           ok s' \<and> distinct held' \<and> busy s' = set held'"
  using assms
proof (induction ops arbitrary: s held)
  case Nil
  then show ?case by simp
next
  case (Cons op ops)
  show ?case
  proof (cases op)
    case Take
    obtain s' i where "acquire s = Some (s', i)" "ok s'" "i \<notin> busy s" "busy s' = insert i (busy s)"
      using acquire_law [OF Cons.prems(1)] by blast
    then show ?thesis using Cons.IH [of s' "held @ [i]"] Cons.prems Take by simp
  next
    case (Give k)
    show ?thesis
    proof (cases "k < length held")
      case True
      have h: "held = take k held @ held ! k # drop (Suc k) held" using True by (rule id_take_nth_drop)
      then have d: "distinct (take k held @ held ! k # drop (Suc k) held)" using Cons.prems(2) by metis
      have b: "set held - {held ! k} = set (take k held @ drop (Suc k) held)"
        by (subst h) (use d in auto)
      obtain s' where "release s (held ! k) = Some s'" "ok s'" "busy s' = busy s - {held ! k}"
        using release_law [OF Cons.prems(1), of "held ! k"] Cons.prems(3) True by auto
      then show ?thesis
        using Cons.IH [of s' "take k held @ drop (Suc k) held"] Cons.prems(3) Give True d b by auto
    next
      case False
      then show ?thesis using Cons Give by simp
    qed
  qed
qed

end

text \<open>The slot table as a pool.\<close>

definition pool_ok :: "'d httpserver \<Rightarrow> bool" where
  "pool_ok srv \<longleftrightarrow> 0 < hs_capacity srv \<and> length (hs_available srv) = hs_capacity srv \<and>
     length (hs_sockets srv) = hs_capacity srv \<and> distinct (filter (\<lambda>v. v \<noteq> 0) (hs_available srv)) \<and>
     list_all (\<lambda>v. v \<le> hs_capacity srv) (hs_available srv) \<and>
     hs_length srv = int (length (filter (\<lambda>v. v = 0) (hs_available srv)))"

definition busy_slots :: "'d httpserver \<Rightarrow> nat set" where
  "busy_slots srv = {i. i < hs_capacity srv \<and> Suc i \<notin> set (hs_available srv)}"

definition take_slot :: "'d httpserver \<Rightarrow> ('d httpserver \<times> nat) option" where
  "take_slot srv = do {
     (srv', i) \<leftarrow> httpserver_select_position srv;
     Some (srv'\<lparr>hs_length := hs_length srv' + 1\<rparr>, i) }"

lemma first_available_spec:
  "length avail = cap \<Longrightarrow> i \<le> cap \<Longrightarrow> case first_available avail cap i of
     None \<Rightarrow> False
   | Some None \<Rightarrow> \<forall>j<cap. i \<le> j \<longrightarrow> avail ! j = 0
   | Some (Some k) \<Rightarrow> k < cap \<and> avail ! k \<noteq> 0"
proof (induction avail cap i rule: first_available.induct)
  case (1 avail cap i)
  show ?case
  proof (cases "i < cap \<and> avail ! i = 0")
    case True
    then have step: "first_available avail cap i = first_available avail cap (Suc i)"
      using "1.prems" by (subst first_available.simps) simp
    have j: "i \<le> j \<Longrightarrow> j = i \<or> Suc i \<le> j" for j by linarith
    show ?thesis
      using "1.IH" [of "avail ! i"] "1.prems" True j unfolding step
      by (fastforce split: option.splits)
  next
    case False
    then show ?thesis
      using "1.prems" by (subst first_available.simps) auto
  qed
qed

lemma first_taken_spec:
  "length avail = cap \<Longrightarrow> i \<le> cap \<Longrightarrow> case first_taken avail cap i of
     None \<Rightarrow> False
   | Some None \<Rightarrow> \<forall>j<cap. i \<le> j \<longrightarrow> avail ! j \<noteq> 0
   | Some (Some k) \<Rightarrow> k < cap \<and> avail ! k = 0"
proof (induction avail cap i rule: first_taken.induct)
  case (1 avail cap i)
  show ?case
  proof (cases "i < cap \<and> avail ! i \<noteq> 0")
    case True
    then have step: "first_taken avail cap i = first_taken avail cap (Suc i)"
      using "1.prems" by (subst first_taken.simps) simp
    have j: "i \<le> j \<Longrightarrow> j = i \<or> Suc i \<le> j" for j by linarith
    show ?thesis
      using "1.IH" [of "avail ! i"] "1.prems" True j unfolding step
      by (fastforce split: option.splits)
  next
    case False
    then show ?thesis
      using "1.prems" by (subst first_taken.simps) auto
  qed
qed


lemma pool_update:
  assumes "pool_ok srv" and "k < hs_capacity srv"
  obtains xs ys where "hs_available srv = xs @ hs_available srv ! k # ys"
    "\<And>v. (hs_available srv)[k := v] = xs @ v # ys"
  using assms id_take_nth_drop [of k "hs_available srv"] upd_conv_take_nth_drop [of k "hs_available srv"]
  unfolding pool_ok_def by metis

lemma take_slot_law:
  assumes "pool_ok srv"
  shows "\<exists>srv' i. take_slot srv = Some (srv', i) \<and> pool_ok srv' \<and> i \<notin> busy_slots srv \<and>
           busy_slots srv' = insert i (busy_slots srv) \<and> i < hs_capacity srv' \<and>
           (hs_sockets srv' = hs_sockets srv \<or>
            hs_sockets srv' = hs_sockets srv @ replicate (hs_capacity srv) fresh_client)"
proof -
  have ok: "0 < hs_capacity srv" "length (hs_available srv) = hs_capacity srv"
    "length (hs_sockets srv) = hs_capacity srv" "distinct (filter (\<lambda>v. v \<noteq> 0) (hs_available srv))"
    "\<forall>v\<in>set (hs_available srv). v \<le> hs_capacity srv"
    "hs_length srv = int (length (filter (\<lambda>v. v = 0) (hs_available srv)))"
    using assms by (auto simp: pool_ok_def list_all_iff)
  obtain r where r: "first_available (hs_available srv) (hs_capacity srv) 0 = Some r"
    using first_available_spec [OF ok(2), of 0] by (auto split: option.splits)
  show ?thesis
  proof (cases r)
    case (Some k)
    then have k: "k < hs_capacity srv" "hs_available srv ! k \<noteq> 0"
      using first_available_spec [OF ok(2), of 0] r by auto
    obtain xs ys where e: "hs_available srv = xs @ hs_available srv ! k # ys"
        "(hs_available srv)[k := 0] = xs @ 0 # ys"
      using pool_update [OF assms k(1)] by metis
    obtain i where i: "hs_available srv ! k = Suc i" using k(2) by (cases "hs_available srv ! k") auto
    let ?srv = "srv\<lparr>hs_available := (hs_available srv)[k := 0], hs_length := hs_length srv + 1\<rparr>"
    have t: "take_slot srv = Some (?srv, i)"
      using r Some k ok(2) i by (simp add: take_slot_def httpserver_select_position_def)
    have av: "hs_available srv = xs @ Suc i # ys" using e(1) i by simp
    have up: "(xs @ Suc i # ys)[k := 0] = xs @ 0 # ys" using e(2) av by simp
    have "pool_ok ?srv"
      using ok unfolding pool_ok_def by (auto simp: up av list_all_iff)
    moreover have "Suc i \<notin> set xs" "Suc i \<notin> set ys" "i < hs_capacity srv"
      using ok(4,5) by (auto simp: av)
    ultimately show ?thesis using t by (auto simp: busy_slots_def up av)
  next
    case None
    let ?n = "hs_capacity srv"
    have "\<forall>j<?n. hs_available srv ! j = 0"
      using first_available_spec [OF ok(2), of 0] r None by auto
    then have av: "hs_available srv = replicate ?n 0"
      using ok(2) by (auto intro: nth_equalityI)
    have len: "hs_length srv = int ?n" using ok(6) by (simp add: av)
    have "[?n..<?n * 2] = ?n # [Suc ?n..<?n * 2]" using ok(1) by (simp add: upt_conv_Cons)
    then have av': "(replicate ?n 0 @ map Suc [?n..<?n * 2])[?n := 0] = replicate (Suc ?n) 0 @ map Suc [Suc ?n..<?n * 2]"
      by (simp add: list_update_append replicate_append_same)
    let ?srv = "srv\<lparr>hs_capacity := ?n * 2, hs_available := replicate (Suc ?n) 0 @ map Suc [Suc ?n..<?n * 2],
        hs_sockets := hs_sockets srv @ replicate ?n fresh_client, hs_length := hs_length srv + 1\<rparr>"
    have t: "take_slot srv = Some (?srv, ?n)"
      using r None len ok(1) by (simp add: take_slot_def httpserver_select_position_def Let_def av av'
          del: replicate_Suc)
    have "pool_ok ?srv"
      using ok(1,3) len by (auto simp: pool_ok_def list_all_iff distinct_map filter_map comp_def)
    moreover have "busy_slots ?srv = insert ?n (busy_slots srv)"
      using ok(1) by (auto simp: busy_slots_def av less_Suc_eq_le)
    moreover have "?n \<notin> busy_slots srv" by (simp add: busy_slots_def)
    ultimately show ?thesis using t ok(1) by auto
  qed
qed

lemma release_law:
  assumes "pool_ok srv" and "i \<in> busy_slots srv"
  shows "\<exists>srv'. httpserver_add_available_socket srv i = Some srv' \<and> pool_ok srv' \<and>
           busy_slots srv' = busy_slots srv - {i} \<and> hs_sockets srv' = hs_sockets srv"
proof -
  have ok: "0 < hs_capacity srv" "length (hs_available srv) = hs_capacity srv"
    "length (hs_sockets srv) = hs_capacity srv" "distinct (filter (\<lambda>v. v \<noteq> 0) (hs_available srv))"
    "\<forall>v\<in>set (hs_available srv). v \<le> hs_capacity srv"
    "hs_length srv = int (length (filter (\<lambda>v. v = 0) (hs_available srv)))"
    using assms by (auto simp: pool_ok_def list_all_iff)
  have i: "i < hs_capacity srv" "Suc i \<notin> set (hs_available srv)" using assms(2) by (auto simp: busy_slots_def)
  have zero: "0 \<in> set (hs_available srv)"
  proof (rule ccontr)
    assume "0 \<notin> set (hs_available srv)"
    then have f: "filter (\<lambda>v. v \<noteq> 0) (hs_available srv) = hs_available srv"
      by (metis (mono_tags, lifting) filter_id_conv)
    then have "card (set (hs_available srv)) = hs_capacity srv"
      using ok(2,4) distinct_card by fastforce
    moreover have "set (hs_available srv) \<subseteq> {1..hs_capacity srv} - {Suc i}"
      using ok(5) i(2) \<open>0 \<notin> set (hs_available srv)\<close> by (auto simp: Suc_le_eq intro: gr0I)
    then have "card (set (hs_available srv)) \<le> card ({1..hs_capacity srv} - {Suc i})"
      by (intro card_mono) auto
    ultimately show False using i(1) ok(1) by simp
  qed
  obtain r where r: "first_taken (hs_available srv) (hs_capacity srv) 0 = Some r"
    using first_taken_spec [OF ok(2), of 0] by (auto split: option.splits)
  obtain k where k: "r = Some k" "k < hs_capacity srv" "hs_available srv ! k = 0"
    using first_taken_spec [OF ok(2), of 0] r zero ok(2)
    by (cases r) (auto simp: in_set_conv_nth)
  obtain xs ys where e: "hs_available srv = xs @ 0 # ys" "(hs_available srv)[k := Suc i] = xs @ Suc i # ys"
    using pool_update [OF assms(1) k(2)] k(3) by metis
  let ?srv = "srv\<lparr>hs_available := (hs_available srv)[k := Suc i], hs_length := hs_length srv - 1\<rparr>"
  have t: "httpserver_add_available_socket srv i = Some ?srv"
    using r k(1) by (simp add: httpserver_add_available_socket_def)
  have n: "Suc i \<notin> set xs" "Suc i \<notin> set ys" using i(2) by (auto simp: e(1))
  have up: "(xs @ 0 # ys)[k := Suc i] = xs @ Suc i # ys" using e by simp
  have "pool_ok ?srv"
    using ok i(1) n unfolding pool_ok_def by (auto simp: up e(1) list_all_iff)
  moreover have "busy_slots ?srv = busy_slots srv - {i}"
    by (auto simp: busy_slots_def up e(1))
  ultimately show ?thesis using t by auto
qed

interpretation slots: slot_pool pool_ok busy_slots take_slot httpserver_add_available_socket
proof unfold_locales
  show "\<exists>s' i. take_slot s = Some (s', i) \<and> pool_ok s' \<and> i \<notin> busy_slots s \<and> busy_slots s' = insert i (busy_slots s)"
    if "pool_ok s" for s :: "'a httpserver"
    using take_slot_law [OF that] by blast
  show "\<exists>s'. httpserver_add_available_socket s i = Some s' \<and> pool_ok s' \<and> busy_slots s' = busy_slots s - {i}"
    if "pool_ok s" "i \<in> busy_slots s" for s :: "'a httpserver" and i
    using release_law [OF that] by blast
qed


section \<open>The server as a transition system\<close>

text \<open>
  \<open>sys_running\<close> are the connections whose thread has not ended, with their slot and their
  block; \<open>sys_pending\<close> is the client that the accept loop has created a thread for but not
  yet stored. In this relation a connection ends only after its client was stored; that this
  order is not enforced by the code is the subject of a theorem below.
\<close>

record 'd system =
  sys_world :: "'d world"
  sys_running :: "(nat \<times> nat) list"
  sys_pending :: "(nat \<times> 'd httpserver_client) option"

definition pending_slot :: "'d system \<Rightarrow> nat \<Rightarrow> bool" where
  "pending_slot s i = (case sys_pending s of None \<Rightarrow> False | Some (j, c) \<Rightarrow> i = j)"

text \<open>The client record of the accept loop before the first accept.\<close>

definition no_client :: csocket_server_client where
  "no_client = \<lparr>cs_socket = 0, cs_addr = [0, 0, 0, 0], cs_sin_port = 0\<rparr>"

definition sys_start :: "'d httpserver \<Rightarrow> 'd system" where
  "sys_start srv = \<lparr>sys_world = \<lparr>w_server = srv, w_live = [], w_next = 0, w_data = (\<lambda>b. no_client), w_calls = []\<rparr>, sys_running = [], sys_pending = None\<rparr>"

inductive sys_step :: "'d system \<Rightarrow> 'd system \<Rightarrow> bool" where
  step_accept: "sys_pending s = None \<Longrightarrow> accept_step fd peer th client (sys_world s) = Some (Inr (w, i, c)) \<Longrightarrow>
    sys_step s \<lparr>sys_world = w, sys_running = (i, w_next (sys_world s)) # sys_running s, sys_pending = Some (i, c)\<rparr>"
| step_store: "sys_pending s = Some (i, c) \<Longrightarrow> store_step i c (sys_world s) = Some w \<Longrightarrow>
    sys_step s \<lparr>sys_world = w, sys_running = sys_running s, sys_pending = None\<rparr>"
| step_disconnect: "(i, b) \<in> set (sys_running s) \<Longrightarrow> \<not> pending_slot s i \<Longrightarrow>
    httpserver_disconnect_client (sys_world s) (w_data (sys_world s) b) i = Some w \<Longrightarrow>
    sys_step s \<lparr>sys_world = w, sys_running = remove1 (i, b) (sys_running s), sys_pending = sys_pending s\<rparr>"

inductive sys_reachable :: "'d system \<Rightarrow> bool" where
  reach_start: "httpserver_start_server os = Ret srv \<Longrightarrow> sys_reachable (sys_start srv)"
| reach_step: "sys_reachable s \<Longrightarrow> sys_step s s' \<Longrightarrow> sys_reachable s'"

definition slot_ok :: "'d system \<Rightarrow> nat \<Rightarrow> bool" where
  "slot_ok s j \<longleftrightarrow> (let c = hs_sockets (w_server (sys_world s)) ! j in
     if j \<in> fst ` set (sys_running s) \<and> \<not> pending_slot s j
     then hc_socket c \<noteq> - 1 \<and> (\<exists>b. hc_thread_data c = Some b \<and> (j, b) \<in> set (sys_running s))
     else hc_socket c = - 1)"

definition sys_ok :: "'d system \<Rightarrow> bool" where
  "sys_ok s \<longleftrightarrow> (let w = sys_world s in
     pool_ok (w_server w) \<and> busy_slots (w_server w) = fst ` set (sys_running s) \<and>
     distinct (map fst (sys_running s)) \<and> distinct (map snd (sys_running s)) \<and>
     distinct (w_live w) \<and> set (w_live w) = snd ` set (sys_running s) \<and>
     (\<forall>b\<in>set (w_live w). b < w_next w) \<and>
     (\<forall>i c. sys_pending s = Some (i, c) \<longrightarrow> hc_socket c = 0 \<and>
        (\<exists>b. hc_thread_data c = Some b \<and> (i, b) \<in> set (sys_running s))) \<and>
     (\<forall>j<hs_capacity (w_server w). slot_ok s j))"

lemma start_server: "httpserver_start_server os = Ret srv \<Longrightarrow>
    pool_ok srv \<and> busy_slots srv = {} \<and> hs_sockets srv = [fresh_client]"
  by (auto simp: httpserver_start_server_def pool_ok_def busy_slots_def split: prod.splits if_splits)

lemma start_ok: "httpserver_start_server os = Ret srv \<Longrightarrow> sys_ok (sys_start srv)"
  using start_server [of os srv]
  by (auto simp: sys_ok_def sys_start_def slot_ok_def fresh_client_def pool_ok_def nth_Cons' Let_def)

lemma sys_ok_D:
  assumes "sys_ok s"
  shows "pool_ok (w_server (sys_world s))" and "busy_slots (w_server (sys_world s)) = fst ` set (sys_running s)"
    and "distinct (map fst (sys_running s))" and "distinct (map snd (sys_running s))"
    and "distinct (w_live (sys_world s))" and "set (w_live (sys_world s)) = snd ` set (sys_running s)"
    and "\<And>b. b \<in> set (w_live (sys_world s)) \<Longrightarrow> b < w_next (sys_world s)"
    and "\<And>i c. sys_pending s = Some (i, c) \<Longrightarrow> hc_socket c = 0 \<and>
        (\<exists>b. hc_thread_data c = Some b \<and> (i, b) \<in> set (sys_running s))"
    and "\<And>j. j < hs_capacity (w_server (sys_world s)) \<Longrightarrow> slot_ok s j"
  using assms unfolding sys_ok_def Let_def by auto

lemma accept_step_enabled:
  assumes "sys_ok s" and "0 \<le> fd"
  shows "\<exists>w i c. accept_step fd peer th client (sys_world s) = Some (Inr (w, i, c))"
  using take_slot_law [OF sys_ok_D(1) [OF assms(1)]] assms(2)
  by (auto simp: accept_step_def csocket_server_accept_def take_slot_def Let_def split: bind_splits)

lemma accept_step_ok:
  assumes "sys_ok s" and "sys_pending s = None" and "accept_step fd peer th client (sys_world s) = Some (Inr (w, i, c))"
  shows "sys_ok \<lparr>sys_world = w, sys_running = (i, w_next (sys_world s)) # sys_running s, sys_pending = Some (i, c)\<rparr>"
    (is "sys_ok ?s'")
proof -
  let ?srv = "w_server (sys_world s)"
  note ok = sys_ok_D [OF assms(1)]
  obtain srv' where t: "take_slot ?srv = Some (srv', i)" "w_server w = srv'"
    "w_live w = w_next (sys_world s) # w_live (sys_world s)" "w_next w = w_next (sys_world s) + 1"
    "hc_thread_data c = Some (w_next (sys_world s))" "hc_socket c = 0"
    using assms(3) by (auto simp: accept_step_def csocket_server_accept_def take_slot_def Let_def split: bind_splits if_splits)
  have l: "pool_ok srv'" "i \<notin> busy_slots ?srv" "busy_slots srv' = insert i (busy_slots ?srv)" "i < hs_capacity srv'"
    "hs_sockets srv' = hs_sockets ?srv \<or> hs_sockets srv' = hs_sockets ?srv @ replicate (hs_capacity ?srv) fresh_client"
    using take_slot_law [OF ok(1)] t(1) by auto
  have cap: "length (hs_sockets ?srv) = hs_capacity ?srv" "length (hs_sockets srv') = hs_capacity srv'"
    using ok(1) l(1) by (auto simp: pool_ok_def)
  have busy: "fst ` set (sys_running s) \<subseteq> {j. j < hs_capacity ?srv}"
    using ok(2) by (auto simp: busy_slots_def)
  have slots: "slot_ok ?s' j" if "j < hs_capacity srv'" for j
  proof (cases "j < hs_capacity ?srv")
    case True
    then have same: "hs_sockets srv' ! j = hs_sockets ?srv ! j" using l(5) cap(1) by (auto simp: nth_append)
    have "i \<notin> fst ` set (sys_running s)" using l(2) ok(2) by simp
    then show ?thesis
      using ok(9) [OF True] assms(2) same t(2)
      by (auto simp: slot_ok_def pending_slot_def Let_def split: if_splits)
  next
    case False
    then have "hs_sockets srv' ! j = fresh_client" using l(5) cap that by (auto simp: nth_append)
    moreover have "j \<notin> fst ` set (sys_running s)" using busy False by auto
    ultimately show ?thesis using t(2) by (auto simp: slot_ok_def pending_slot_def fresh_client_def Let_def)
  qed
  have new: "w_next (sys_world s) \<notin> set (w_live (sys_world s))" using ok(7) by blast
  show ?thesis
    unfolding sys_ok_def Let_def
    using l(1,2,3) ok(2-7) t new slots by (auto simp: less_Suc_eq)
qed

lemma store_step_enabled:
  assumes "sys_ok s" and "sys_pending s = Some (i, c)"
  shows "\<exists>w. store_step i c (sys_world s) = Some w"
proof -
  have "i \<in> busy_slots (w_server (sys_world s))"
    using sys_ok_D(2,8) [OF assms(1)] assms(2) by force
  then show ?thesis
    using sys_ok_D(1) [OF assms(1)] by (auto simp: store_step_def busy_slots_def pool_ok_def)
qed

lemma store_step_ok:
  assumes "sys_ok s" and "sys_pending s = Some (i, c)" and "store_step i c (sys_world s) = Some w"
  shows "sys_ok \<lparr>sys_world = w, sys_running = sys_running s, sys_pending = None\<rparr>" (is "sys_ok ?s'")
proof -
  let ?srv = "w_server (sys_world s)"
  note ok = sys_ok_D [OF assms(1)]
  have w: "w = (sys_world s)\<lparr>w_server := ?srv\<lparr>hs_sockets := (hs_sockets ?srv)[i := c]\<rparr>\<rparr>"
    and i: "i < length (hs_sockets ?srv)"
    using assms(3) by (auto simp: store_step_def split: bind_splits)
  have len: "length (hs_sockets ?srv) = hs_capacity ?srv" using ok(1) by (auto simp: pool_ok_def)
  obtain b where b: "hc_thread_data c = Some b" "(i, b) \<in> set (sys_running s)" "hc_socket c = 0"
    using ok(8) assms(2) by blast
  have slots: "slot_ok ?s' j" if "j < hs_capacity ?srv" for j
  proof (cases "j = i")
    case True
    then show ?thesis using b i w by (force simp: slot_ok_def pending_slot_def Let_def)
  next
    case False
    then show ?thesis
      using ok(9) [OF that] assms(2) w by (auto simp: slot_ok_def pending_slot_def Let_def split: if_splits)
  qed
  have "pool_ok (w_server w)" "busy_slots (w_server w) = busy_slots ?srv" "hs_capacity (w_server w) = hs_capacity ?srv"
    using ok(1) w by (auto simp: pool_ok_def busy_slots_def)
  then show ?thesis
    unfolding sys_ok_def Let_def using ok(2-7) slots w by auto
qed


lemma running_block_unique:
  "distinct (map fst xs) \<Longrightarrow> (i, b) \<in> set xs \<Longrightarrow> (i, b') \<in> set xs \<Longrightarrow> b = b'"
  by (metis eq_key_imp_eq_value)

lemma remove1_image:
  assumes "distinct (map f xs)" and "x \<in> set xs"
  shows "f ` set (remove1 x xs) = f ` set xs - {f x}" and "distinct (map f (remove1 x xs))"
proof -
  have d: "distinct xs" "inj_on f (set xs)" using assms(1) by (simp_all add: distinct_map)
  have set: "set (remove1 x xs) = set xs - {x}" using d(1) by simp
  show "f ` set (remove1 x xs) = f ` set xs - {f x}"
    unfolding set using inj_on_image_set_diff [OF d(2), of "set xs" "{x}"] assms(2) by simp
  show "distinct (map f (remove1 x xs))"
    using d by (auto simp: distinct_map set intro: inj_on_subset)
qed

lemma remove1_fst:
  assumes "distinct (map fst xs)" and "distinct (map snd xs)" and "(i, b) \<in> set xs"
  shows "fst ` set (remove1 (i, b) xs) = fst ` set xs - {i}" "snd ` set (remove1 (i, b) xs) = snd ` set xs - {b}"
    "distinct (map fst (remove1 (i, b) xs))" "distinct (map snd (remove1 (i, b) xs))"
  using remove1_image [OF assms(1,3)] remove1_image [OF assms(2,3)] by simp_all

lemma disconnect_enabled:
  assumes "sys_ok s" and "(i, b) \<in> set (sys_running s)" and "\<not> pending_slot s i"
  shows "\<exists>w. httpserver_disconnect_client (sys_world s) client i = Some w \<and>
    sys_ok \<lparr>sys_world = w, sys_running = remove1 (i, b) (sys_running s), sys_pending = sys_pending s\<rparr>"
proof -
  let ?srv = "w_server (sys_world s)"
  let ?c = "hs_sockets ?srv ! i"
  note ok = sys_ok_D [OF assms(1)]
  have mem: "i \<in> fst ` set (sys_running s)" using assms(2) by force
  then have cap: "i < hs_capacity ?srv" and busy: "i \<in> busy_slots ?srv"
    using ok(2) by (auto simp: busy_slots_def)
  have len: "length (hs_sockets ?srv) = hs_capacity ?srv" using ok(1) by (auto simp: pool_ok_def)
  obtain b' where b': "hc_thread_data ?c = Some b'" "(i, b') \<in> set (sys_running s)"
    using ok(9) [OF cap] mem assms(3) unfolding slot_ok_def Let_def by simp blast
  have data: "hc_thread_data ?c = Some b"
    using b' running_block_unique [OF ok(3) assms(2) b'(2)] by simp
  have live: "b \<in> set (w_live (sys_world s))" using ok(6) assms(2) by force
  let ?srv1 = "?srv\<lparr>hs_sockets := (hs_sockets ?srv)[i := ?c\<lparr>hc_socket := - 1, hc_upgraded := False\<rparr>]\<rparr>"
  have ok1: "pool_ok ?srv1" "busy_slots ?srv1 = busy_slots ?srv"
    using ok(1) by (auto simp: pool_ok_def busy_slots_def)
  obtain srv2 where srv2: "httpserver_add_available_socket ?srv1 i = Some srv2" "pool_ok srv2"
      "busy_slots srv2 = busy_slots ?srv - {i}" "hs_sockets srv2 = hs_sockets ?srv1"
    using release_law [OF ok1(1), of i] ok1(2) busy by auto
  let ?w = "(sys_world s)\<lparr>w_server := srv2, w_live := remove1 b (w_live (sys_world s)),
      w_calls := w_calls (sys_world s) @ [Socket_call (Sys_close (cs_socket client)), Thread_cancel (hc_thread ?c)]\<rparr>"
  let ?s' = "\<lparr>sys_world = ?w, sys_running = remove1 (i, b) (sys_running s), sys_pending = sys_pending s\<rparr>"
  have d: "httpserver_disconnect_client (sys_world s) client i = Some ?w"
    using cap len data live srv2(1) by (simp add: httpserver_disconnect_client_def csocket_close_client_def heap_free_def Let_def)
  note rm = remove1_fst [OF ok(3,4) assms(2)]
  have cap2: "hs_capacity srv2 = hs_capacity ?srv"
    using srv2(2,4) len by (auto simp: pool_ok_def)
  have slots: "slot_ok ?s' j" if "j < hs_capacity ?srv" for j
  proof (cases "j = i")
    case True
    have "i \<notin> fst ` set (remove1 (i, b) (sys_running s))" using rm(1) by simp
    then show ?thesis using True srv2(4) cap len by (simp add: slot_ok_def Let_def)
  next
    case False
    have m: "(j, b') \<in> set (remove1 (i, b) (sys_running s)) \<longleftrightarrow> (j, b') \<in> set (sys_running s)" for b'
      using False by (simp add: in_set_remove1)
    have f: "j \<in> fst ` set (remove1 (i, b) (sys_running s)) \<longleftrightarrow> j \<in> fst ` set (sys_running s)"
      using rm(1) False by simp
    have c: "hs_sockets (w_server ?w) ! j = hs_sockets ?srv ! j" using srv2(4) False by simp
    have p: "pending_slot ?s' j = pending_slot s j" by (simp add: pending_slot_def)
    have "slot_ok ?s' j = slot_ok s j"
      by (simp only: slot_ok_def Let_def p m f c system.simps world.simps)
    then show ?thesis using ok(9) [OF that] by simp
  qed
  have pend: "\<exists>b'. hc_thread_data c = Some b' \<and> (k, b') \<in> set (remove1 (i, b) (sys_running s))"
    if "sys_pending s = Some (k, c)" for k c
  proof -
    have "k \<noteq> i" using assms(3) that by (auto simp: pending_slot_def)
    then show ?thesis using ok(8) [OF that] by (auto simp: in_set_remove1)
  qed
  have l2: "distinct (remove1 b (w_live (sys_world s)))"
      "set (remove1 b (w_live (sys_world s))) = snd ` set (sys_running s) - {b}"
    using ok(5,6) by simp_all
  have b2: "busy_slots srv2 = fst ` set (sys_running s) - {i}" using srv2(3) ok(2) by simp
  have n2: "\<forall>x\<in>set (remove1 b (w_live (sys_world s))). x < w_next (sys_world s)"
    using ok(7) by (meson notin_set_remove1)
  have p2: "\<forall>k c. sys_pending s = Some (k, c) \<longrightarrow> hc_socket c = 0 \<and>
      (\<exists>b'. hc_thread_data c = Some b' \<and> (k, b') \<in> set (remove1 (i, b) (sys_running s)))"
    using pend ok(8) by blast
  have "sys_ok ?s'"
    using srv2(2) b2 rm(3,4) l2 n2 p2 slots cap2
    by (simp add: sys_ok_def Let_def rm(1,2) del: set_remove1_eq)
  then show ?thesis using d by blast
qed

lemma sys_step_ok: "sys_step s s' \<Longrightarrow> sys_ok s \<Longrightarrow> sys_ok s'"
proof (induction rule: sys_step.induct)
  case (step_accept s fd peer th client w i c)
  then show ?case using accept_step_ok by blast
next
  case (step_store s i c w)
  then show ?case using store_step_ok by blast
next
  case (step_disconnect i b s w)
  then show ?case using disconnect_enabled [of s i b "w_data (sys_world s) b"] by auto
qed

lemma reachable_ok: "sys_reachable s \<Longrightarrow> sys_ok s"
  by (induction rule: sys_reachable.induct) (auto intro: start_ok sys_step_ok)

text \<open>The descriptors the server has closed, against the connections that have ended.\<close>

definition closed_sockets :: "server_call list \<Rightarrow> int list" where
  "closed_sockets calls = concat (map (\<lambda>c. case c of Socket_call (Sys_close fd) \<Rightarrow> [fd] | _ \<Rightarrow> []) calls)"

lemma closed_sockets_simps [simp]:
  "closed_sockets [] = []" "closed_sockets (a @ b) = closed_sockets a @ closed_sockets b"
  "closed_sockets (Socket_call (Sys_close fd) # a) = fd # closed_sockets a"
  "closed_sockets (Socket_call (Sys_accept l) # a) = closed_sockets a"
  "closed_sockets (Thread_create t d # a) = closed_sockets a" "closed_sockets (Thread_detach t # a) = closed_sockets a"
  "closed_sockets (Thread_cancel t # a) = closed_sockets a"
  by (simp_all add: closed_sockets_def)

definition ended :: "'d world \<Rightarrow> nat list" where
  "ended w = filter (\<lambda>b. b \<notin> set (w_live w)) [0..<w_next w]"

definition descriptors_ok :: "'d world \<Rightarrow> bool" where
  "descriptors_ok w \<longleftrightarrow> mset (closed_sockets (w_calls w)) = mset (map (\<lambda>b. cs_socket (w_data w b)) (ended w))"

lemma ended_remove:
  assumes "distinct xs" and "b \<in> set xs" and "b \<in> L"
  shows "mset (filter (\<lambda>x. x \<notin> L - {b}) xs) = add_mset b (mset (filter (\<lambda>x. x \<notin> L) xs))"
  using assms
proof (induction xs)
  case Nil
  then show ?case by simp
next
  case (Cons x xs)
  show ?case
  proof (cases "x = b")
    case True
    then have "filter (\<lambda>x. x \<notin> L - {b}) xs = filter (\<lambda>x. x \<notin> L) xs" using Cons.prems(1) by (auto intro: filter_cong)
    then show ?thesis using True Cons.prems(3) by simp
  next
    case False
    then show ?thesis using Cons by simp
  qed
qed

lemma accept_descriptors:
  assumes "descriptors_ok w" and "accept_step fd peer th client w = Some (Inr (w', i, c))"
  shows "descriptors_ok w'"
proof -
  have w: "w_live w' = w_next w # w_live w" "w_next w' = w_next w + 1" "closed_sockets (w_calls w') = closed_sockets (w_calls w)"
    "b \<noteq> w_next w \<Longrightarrow> w_data w' b = w_data w b" for b
    using assms(2) by (auto simp: accept_step_def csocket_server_accept_def Let_def split: bind_splits if_splits)
  have "ended w' = ended w" unfolding ended_def w(1,2) by (auto intro: filter_cong)
  moreover have "b \<in> set (ended w) \<Longrightarrow> w_data w' b = w_data w b" for b using w(4) by (auto simp: ended_def)
  ultimately have "map (\<lambda>b. cs_socket (w_data w' b)) (ended w') = map (\<lambda>b. cs_socket (w_data w b)) (ended w)" by simp
  then show ?thesis using assms(1) w(3) by (simp add: descriptors_ok_def)
qed

lemma disconnect_descriptors:
  assumes "descriptors_ok (sys_world s)" and "sys_ok s" and "(i, b) \<in> set (sys_running s)" and "\<not> pending_slot s i"
    and "httpserver_disconnect_client (sys_world s) (w_data (sys_world s) b) i = Some w'"
  shows "descriptors_ok w'"
proof -
  let ?w = "sys_world s"
  note ok = sys_ok_D [OF assms(2)]
  have b: "b \<in> set (w_live ?w)" "b < w_next ?w" using ok(6,7) assms(3) by force+
  have i: "i \<in> busy_slots (w_server ?w)" "i \<in> fst ` set (sys_running s)" using ok(2) assms(3) by force+
  then have cap: "i < hs_capacity (w_server ?w)" by (simp add: busy_slots_def)
  have "hc_thread_data (hs_sockets (w_server ?w) ! i) = Some b"
    using ok(9) [OF cap] i(2) assms(4) running_block_unique [OF ok(3) assms(3)] by (auto simp: slot_ok_def Let_def)
  then have w': "w_live w' = remove1 b (w_live ?w)" "w_next w' = w_next ?w" "w_data w' = w_data ?w"
    "closed_sockets (w_calls w') = closed_sockets (w_calls ?w) @ [cs_socket (w_data ?w b)]"
    using assms(5) b(1)
    by (auto simp: httpserver_disconnect_client_def csocket_close_client_def heap_free_def Let_def split: bind_splits)
  have "mset (ended w') = add_mset b (mset (ended ?w))"
    using ended_remove [of "[0..<w_next ?w]" b "set (w_live ?w)"] b ok(5) by (simp add: ended_def w'(1,2))
  then show ?thesis using assms(1) by (simp add: descriptors_ok_def w'(3,4))
qed

lemma reachable_descriptors: "sys_reachable s \<Longrightarrow> descriptors_ok (sys_world s)"
proof (induction rule: sys_reachable.induct)
  case (reach_start os srv)
  then show ?case by (simp add: descriptors_ok_def sys_start_def ended_def)
next
  case (reach_step s s')
  from reach_step.hyps(2) show ?case
  proof cases
    case (step_accept fd peer th client w i c)
    then show ?thesis using accept_descriptors [OF reach_step.IH] by simp
  next
    case (step_store i c w)
    then show ?thesis using reach_step.IH by (auto simp: store_step_def descriptors_ok_def ended_def split: bind_splits)
  next
    case (step_disconnect i b w)
    then show ?thesis using disconnect_descriptors [OF reach_step.IH reachable_ok [OF reach_step.hyps(1)]] by simp
  qed
qed

text \<open>Stopping: the slots that are in use hold exactly the live blocks.\<close>

definition cancelled :: "'d httpserver_client list \<Rightarrow> server_call list" where
  "cancelled socks = map (\<lambda>c. Thread_cancel (hc_thread c)) (filter (\<lambda>c. hc_socket c \<noteq> - 1) socks)"

lemma cancelled_drop:
  "i < length socks \<Longrightarrow> cancelled (drop i socks) =
     (if hc_socket (socks ! i) = - 1 then [] else [Thread_cancel (hc_thread (socks ! i))]) @ cancelled (drop (Suc i) socks)"
  by (simp add: cancelled_def Cons_nth_drop_Suc [symmetric])

lemma stop_loop_all:
  assumes "i \<le> cap" and "length socks = cap" and "distinct live"
    and "\<And>j. i \<le> j \<Longrightarrow> j < cap \<Longrightarrow> hc_socket (socks ! j) \<noteq> - 1 \<Longrightarrow> \<exists>b. hc_thread_data (socks ! j) = Some b \<and> b \<in> set live"
    and "\<And>b. b \<in> set live \<Longrightarrow> \<exists>j. i \<le> j \<and> j < cap \<and> hc_socket (socks ! j) \<noteq> - 1 \<and> hc_thread_data (socks ! j) = Some b"
    and "\<And>j k b. i \<le> j \<Longrightarrow> j < cap \<Longrightarrow> i \<le> k \<Longrightarrow> k < cap \<Longrightarrow> hc_socket (socks ! j) \<noteq> - 1 \<Longrightarrow>
           hc_socket (socks ! k) \<noteq> - 1 \<Longrightarrow> hc_thread_data (socks ! j) = Some b \<Longrightarrow> hc_thread_data (socks ! k) = Some b \<Longrightarrow> j = k"
  shows "stop_loop socks cap i live = Some ([], cancelled (drop i socks))"
  using assms
proof (induction socks cap i live rule: stop_loop.induct)
  case (1 socks cap i live)
  show ?case
  proof (cases "i < cap")
    case False
    then have "live = []" using "1.prems"(1,5) by (metis le_antisym leI list.set_intros(1) not_le neq_Nil_conv)
    then show ?thesis using False "1.prems"(2) by (subst stop_loop.simps) (simp add: cancelled_def)
  next
    case True
    have split: "i \<le> j \<longleftrightarrow> j = i \<or> Suc i \<le> j" for j by linarith
    show ?thesis
    proof (cases "hc_socket (socks ! i) = - 1")
      case skip: True
      have "stop_loop socks cap (Suc i) live = Some ([], cancelled (drop (Suc i) socks))"
      proof (rule "1.IH"(1) [OF True _ skip])
        show "rd socks i = Some (socks ! i)" using True "1.prems"(2) by simp
        show "\<exists>j\<ge>Suc i. j < cap \<and> hc_socket (socks ! j) \<noteq> - 1 \<and> hc_thread_data (socks ! j) = Some b"
          if "b \<in> set live" for b
          using "1.prems"(5) [OF that] skip split by metis
      qed (use True "1.prems" in auto)
      then show ?thesis using True skip "1.prems"(2) by (subst stop_loop.simps) (simp add: cancelled_drop)
    next
      case use_it: False
      obtain b where b: "hc_thread_data (socks ! i) = Some b" "b \<in> set live"
        using "1.prems"(4) [OF order_refl True use_it] by blast
      have f: "heap_free (hc_thread_data (socks ! i)) live = Some (remove1 b live)"
        using b by (simp add: heap_free_def)
      have rm: "set (remove1 b live) = set live - {b}" using "1.prems"(3) by simp
      have "stop_loop socks cap (Suc i) (remove1 b live) = Some ([], cancelled (drop (Suc i) socks))"
      proof (rule "1.IH"(2) [OF True _ use_it f])
        show "rd socks i = Some (socks ! i)" using True "1.prems"(2) by simp
        show "\<exists>ba. hc_thread_data (socks ! j) = Some ba \<and> ba \<in> set (remove1 b live)"
          if j: "Suc i \<le> j" "j < cap" "hc_socket (socks ! j) \<noteq> - 1" for j
        proof -
          obtain ba where ba: "hc_thread_data (socks ! j) = Some ba" "ba \<in> set live"
            using "1.prems"(4) [of j] j by auto
          then have "ba \<noteq> b" using "1.prems"(6) [of j i b] j True use_it b(1) by auto
          then show ?thesis using ba rm by simp
        qed
        show "\<exists>j\<ge>Suc i. j < cap \<and> hc_socket (socks ! j) \<noteq> - 1 \<and> hc_thread_data (socks ! j) = Some ba"
          if "ba \<in> set (remove1 b live)" for ba
          using "1.prems"(5) [of ba] that rm b(1) split by (metis Diff_iff option.inject singletonI)
        show "Suc i \<le> j \<Longrightarrow> j < cap \<Longrightarrow> Suc i \<le> k \<Longrightarrow> k < cap \<Longrightarrow> hc_socket (socks ! j) \<noteq> - 1 \<Longrightarrow>
           hc_socket (socks ! k) \<noteq> - 1 \<Longrightarrow> hc_thread_data (socks ! j) = Some ba \<Longrightarrow>
           hc_thread_data (socks ! k) = Some ba \<Longrightarrow> j = k" for j k ba
          using "1.prems"(6) [of j k ba] by simp
      qed (use True "1.prems" in auto)
      then show ?thesis using True use_it f "1.prems"(2) by (subst stop_loop.simps) (simp add: cancelled_drop)
    qed
  qed
qed

lemma stop_frees_all:
  assumes "sys_ok s" and "sys_pending s = None"
  shows "httpserver_stop_server (sys_world s) = Some ([], cancelled (hs_sockets (w_server (sys_world s))) @
    [Socket_call (Sys_close (ss_socket (hs_server (w_server (sys_world s)))))])"
proof -
  let ?srv = "w_server (sys_world s)"
  note ok = sys_ok_D [OF assms(1)]
  have len: "length (hs_sockets ?srv) = hs_capacity ?srv" using ok(1) by (auto simp: pool_ok_def)
  have np: "\<not> pending_slot s j" for j using assms(2) by (simp add: pending_slot_def)
  have used: "\<exists>b. hc_thread_data (hs_sockets ?srv ! j) = Some b \<and> (j, b) \<in> set (sys_running s)"
    if "j < hs_capacity ?srv" "hc_socket (hs_sockets ?srv ! j) \<noteq> - 1" for j
    using ok(9) [OF that(1)] that(2) by (auto simp: slot_ok_def Let_def split: if_splits)
  have run: "j < hs_capacity ?srv \<and> hc_socket (hs_sockets ?srv ! j) \<noteq> - 1 \<and> hc_thread_data (hs_sockets ?srv ! j) = Some b"
    if "(j, b) \<in> set (sys_running s)" for j b
  proof -
    have m: "j \<in> fst ` set (sys_running s)" using that by force
    then have c: "j < hs_capacity ?srv" using ok(2) by (auto simp: busy_slots_def)
    then show ?thesis
      using ok(9) [OF c] m np running_block_unique [OF ok(3) that] by (auto simp: slot_ok_def Let_def)
  qed
  have "stop_loop (hs_sockets ?srv) (hs_capacity ?srv) 0 (w_live (sys_world s)) = Some ([], cancelled (drop 0 (hs_sockets ?srv)))"
  proof (rule stop_loop_all [OF _ len ok(5)])
    show "\<exists>b. hc_thread_data (hs_sockets ?srv ! j) = Some b \<and> b \<in> set (w_live (sys_world s))"
      if "j < hs_capacity ?srv" "hc_socket (hs_sockets ?srv ! j) \<noteq> - 1" for j
      using used [OF that] ok(6) by force
    show "\<exists>j\<ge>0. j < hs_capacity ?srv \<and> hc_socket (hs_sockets ?srv ! j) \<noteq> - 1 \<and> hc_thread_data (hs_sockets ?srv ! j) = Some b"
      if "b \<in> set (w_live (sys_world s))" for b
      using that ok(6) run by fastforce
    show "j = k" if "j < hs_capacity ?srv" "k < hs_capacity ?srv" "hc_socket (hs_sockets ?srv ! j) \<noteq> - 1"
      "hc_socket (hs_sockets ?srv ! k) \<noteq> - 1" "hc_thread_data (hs_sockets ?srv ! j) = Some b"
      "hc_thread_data (hs_sockets ?srv ! k) = Some b" for j k b
    proof -
      have "(j, b) \<in> set (sys_running s)" "(k, b) \<in> set (sys_running s)"
        using used [OF that(1,3)] used [OF that(2,4)] that(5,6) by auto
      then show ?thesis using ok(4) by (metis eq_key_imp_eq_value distinct_map inj_onD prod.inject snd_conv)
    qed
  qed simp
  then show ?thesis by (simp add: httpserver_stop_server_def csocket_server_close_def)
qed











section \<open>Properties\<close>

text \<open>C22: A response is sent exactly: with a three-digit status, the buffer is allocated with
  precisely the length of the response text, every append stays inside it, and the bytes
  sent are the status line, the headers, the blank line and the body, none of them
  uninitialised.\<close>
theorem response_bytes_exact:
  assumes "response_ok r"
  shows "httpserver_send_response r = Some (map Some (response_text r))"
  by (rule send_response_exact [OF assms])

theorem response_bytes_exact_witness:
  "httpserver_send_response \<lparr>rs_status = 200, rs_headers_length = 1, rs_headers = [(''A'', ''b'')],
     rs_body = Some ''xyz'', rs_body_length = 2\<rparr> =
   Some (map Some (''HTTP/1.1 200 OK'' @ CRLF @ ''A: b'' @ CRLF @ CRLF @ ''xy''))"
proof -
  let ?r = "\<lparr>rs_status = 200, rs_headers_length = 1, rs_headers = [(''A'', ''b'')],
     rs_body = Some ''xyz'', rs_body_length = 2\<rparr>"
  have "response_text ?r = ''HTTP/1.1 200 OK'' @ CRLF @ ''A: b'' @ CRLF @ CRLF @ ''xy''" by code_simp
  moreover have "response_ok ?r" by (simp add: response_ok_def)
  ultimately show ?thesis using response_bytes_exact [of ?r] by metis
qed

text \<open>Slots are exclusive over every history: from a started server, whatever sequence of
  connections is accepted and ended, every operation succeeds, the table grows as needed, and
  no slot is ever held by two connections at once.\<close>
theorem slot_history_exclusive:
  assumes "httpserver_start_server os = Ret srv"
  shows "\<exists>srv' held. pool_run take_slot httpserver_add_available_socket ops srv [] = Some (srv', held) \<and>
           distinct held \<and> busy_slots srv' = set held \<and> pool_ok srv'"
  using slots.history_exclusive [of srv "[]" ops] start_server [OF assms] by auto

theorem slot_history_exclusive_witness:
  "\<exists>srv srv' held. httpserver_start_server \<lparr>ret_socket = 3, ret_setsockopt = 0, ret_bind = 0, ret_listen = 0\<rparr> = Ret srv \<and>
     pool_run take_slot httpserver_add_available_socket [Take, Take, Give 0, Take, Take] (srv :: nat httpserver) [] =
       Some (srv', held) \<and> distinct held"
proof -
  obtain srv :: "nat httpserver" where srv:
    "httpserver_start_server \<lparr>ret_socket = 3, ret_setsockopt = 0, ret_bind = 0, ret_listen = 0\<rparr> = Ret srv"
    by (simp add: httpserver_start_server_def csocket_server_init_def Let_def)
  then show ?thesis using slot_history_exclusive [OF srv] by blast
qed

text \<open>C16: As long as a connection ends only after the accept loop has stored it, the server
  never goes wrong, in any reachable state: two running connections never share a slot or a
  block of connection data, the next connection can be accepted or the accepted one stored,
  and every stored connection can be closed, which frees its own block exactly once.\<close>
theorem reachable_safe:
  assumes "sys_reachable s"
  shows "distinct (map fst (sys_running s)) \<and> distinct (map snd (sys_running s)) \<and>
         set (w_live (sys_world s)) = snd ` set (sys_running s) \<and>
         (case sys_pending s of
            None \<Rightarrow> \<exists>w i c. accept_step (int fd) peer th client (sys_world s) = Some (Inr (w, i, c))
          | Some (i, c) \<Rightarrow> store_step i c (sys_world s) \<noteq> None) \<and>
         list_all (\<lambda>(i, b). pending_slot s i \<or>
           httpserver_disconnect_client (sys_world s) (w_data (sys_world s) b) i \<noteq> None) (sys_running s)"
proof -
  have ok: "sys_ok s" by (rule reachable_ok [OF assms])
  have "case sys_pending s of None \<Rightarrow> \<exists>w i c. accept_step (int fd) peer th client (sys_world s) = Some (Inr (w, i, c))
      | Some (i, c) \<Rightarrow> store_step i c (sys_world s) \<noteq> None"
    using accept_step_enabled [OF ok, of "int fd" peer th client] store_step_enabled [OF ok] by (auto split: option.split)
  moreover have "pending_slot s i \<or> httpserver_disconnect_client (sys_world s) (w_data (sys_world s) b) i \<noteq> None"
    if "(i, b) \<in> set (sys_running s)" for i b
    using disconnect_enabled [OF ok that] by auto
  ultimately show ?thesis using sys_ok_D(3,4,6) [OF ok] by (auto simp: list_all_iff)
qed

definition started :: "nat httpserver" where
  "started = \<lparr>hs_server = \<lparr>ss_socket = 3, ss_port = 8888\<rparr>, hs_sockets = [fresh_client], hs_available = [1],
     hs_capacity = 1, hs_length = 0\<rparr>"

lemma started_start:
  "httpserver_start_server \<lparr>ret_socket = 3, ret_setsockopt = 0, ret_bind = 0, ret_listen = 0\<rparr> = Ret started"
  by (simp add: httpserver_start_server_def csocket_server_init_def started_def Let_def)

text \<open>The first connection of a started server, from its accept to its end: \<open>one_slot\<close> is the
  world while the table has one slot.\<close>

definition one_slot :: "nat httpserver_client \<Rightarrow> nat \<Rightarrow> int \<Rightarrow> nat list \<Rightarrow> server_call list \<Rightarrow> nat world" where
  "one_slot c a l live calls = \<lparr>w_server = \<lparr>hs_server = \<lparr>ss_socket = 3, ss_port = 8888\<rparr>, hs_sockets = [c], hs_available = [a],
       hs_capacity = 1, hs_length = l\<rparr>, w_live = live, w_next = 1,
     w_data = (\<lambda>b. no_client)(0 := \<lparr>cs_socket = 5, cs_addr = [127, 0, 0, 1], cs_sin_port = 80\<rparr>), w_calls = calls\<rparr>"

definition first_client :: "nat httpserver_client" where
  "first_client = \<lparr>hc_thread = 1, hc_thread_data = Some 0, hc_socket = 0, hc_upgraded = False, hc_data = None\<rparr>"

definition first_calls :: "server_call list" where
  "first_calls = [Socket_call (Sys_accept 3), Thread_create 1 0, Thread_detach 1]"

lemmas first_defs = one_slot_def first_client_def first_calls_def no_client_def started_def sys_start_def fresh_client_def

lemma first_connection:
  "accept_step 5 ([127, 0, 0, 1], 80) 1 no_client (sys_world (sys_start started)) =
     Some (Inr (one_slot fresh_client 0 1 [0] first_calls, 0, first_client))"
  "store_step 0 first_client (one_slot fresh_client 0 1 [0] first_calls) = Some (one_slot first_client 0 1 [0] first_calls)"
  "httpserver_disconnect_client (one_slot first_client 0 1 [0] first_calls) (w_data (one_slot first_client 0 1 [0] first_calls) 0) 0 =
     Some (one_slot (first_client\<lparr>hc_socket := - 1\<rparr>) 1 0 [] (first_calls @ [Socket_call (Sys_close 5), Thread_cancel 1]))"
  by (simp_all add: accept_step_def csocket_server_accept_def store_step_def httpserver_select_position_def first_available.simps
      httpserver_disconnect_client_def csocket_close_client_def heap_free_def httpserver_add_available_socket_def first_taken.simps
      first_defs Let_def)

lemma first_stored:
  "sys_reachable \<lparr>sys_world = one_slot first_client 0 1 [0] first_calls, sys_running = [(0, 0)], sys_pending = None\<rparr>"
proof -
  have start: "sys_reachable (sys_start started)" by (rule reach_start [OF started_start])
  have "sys_step (sys_start started) \<lparr>sys_world = one_slot fresh_client 0 1 [0] first_calls, sys_running = [(0, 0)], sys_pending = Some (0, first_client)\<rparr>"
    using step_accept [OF _ first_connection(1)] by (simp add: sys_start_def)
  note a = reach_step [OF start this]
  have "sys_step \<lparr>sys_world = one_slot fresh_client 0 1 [0] first_calls, sys_running = [(0, 0)], sys_pending = Some (0, first_client)\<rparr>
      \<lparr>sys_world = one_slot first_client 0 1 [0] first_calls, sys_running = [(0, 0)], sys_pending = None\<rparr>"
    using step_store [of "\<lparr>sys_world = one_slot fresh_client 0 1 [0] first_calls, sys_running = [(0, 0)], sys_pending = Some (0, first_client)\<rparr>"]
      first_connection(2) by simp
  then show ?thesis by (rule reach_step [OF a])
qed

lemma first_reachable:
  "sys_reachable \<lparr>sys_world = one_slot (first_client\<lparr>hc_socket := - 1\<rparr>) 1 0 [] (first_calls @ [Socket_call (Sys_close 5), Thread_cancel 1]),
     sys_running = [], sys_pending = None\<rparr>"
proof -
  have "sys_step \<lparr>sys_world = one_slot first_client 0 1 [0] first_calls, sys_running = [(0, 0)], sys_pending = None\<rparr>
      \<lparr>sys_world = one_slot (first_client\<lparr>hc_socket := - 1\<rparr>) 1 0 [] (first_calls @ [Socket_call (Sys_close 5), Thread_cancel 1]),
        sys_running = [], sys_pending = None\<rparr>"
    using step_disconnect [of 0 0 "\<lparr>sys_world = one_slot first_client 0 1 [0] first_calls, sys_running = [(0, 0)], sys_pending = None\<rparr>"]
      first_connection(3) by (simp add: pending_slot_def)
  then show ?thesis by (rule reach_step [OF first_stored])
qed

theorem reachable_safe_witness:
  "\<exists>w i c. accept_step 5 ([127, 0, 0, 1], 80) 1 no_client (sys_world (sys_start started)) = Some (Inr (w, i, c))"
  using reachable_safe [OF reach_start [OF started_start], of 5 "([127, 0, 0, 1], 80)" 1 no_client] by (simp add: sys_start_def)

text \<open>C17: Descriptors are closed exactly once: in every reachable state the sockets the server has
  closed are those of the connections that have ended, each as often as it was accepted, and
  none of a connection that still runs.\<close>
theorem descriptors_closed_once:
  assumes "sys_reachable s"
  shows "mset (closed_sockets (w_calls (sys_world s))) =
    mset (map (\<lambda>b. cs_socket (w_data (sys_world s) b))
      (filter (\<lambda>b. b \<notin> snd ` set (sys_running s)) [0..<w_next (sys_world s)]))"
  using reachable_descriptors [OF assms] sys_ok_D(6) [OF reachable_ok [OF assms]]
  by (simp add: descriptors_ok_def ended_def)

theorem descriptors_closed_once_witness:
  "mset (closed_sockets (first_calls @ [Socket_call (Sys_close 5), Thread_cancel 1])) = {#5#}"
  using descriptors_closed_once [OF first_reachable] by (simp add: one_slot_def)

text \<open>C33: Stopping the server between two accepts frees the block of every running connection
  exactly once and leaves none; it cancels the thread of each slot that is in use, once and in
  the order of the slots, and then closes the listening socket.\<close>
theorem stop_releases_all:
  assumes "sys_reachable s" and "sys_pending s = None"
  shows "httpserver_stop_server (sys_world s) = Some ([], cancelled (hs_sockets (w_server (sys_world s))) @
    [Socket_call (Sys_close (ss_socket (hs_server (w_server (sys_world s)))))])"
  by (rule stop_frees_all [OF reachable_ok [OF assms(1)] assms(2)])

theorem stop_releases_all_witness:
  "httpserver_stop_server (one_slot first_client 0 1 [0] first_calls) = Some ([], [Thread_cancel 1, Socket_call (Sys_close 3)])"
  using stop_releases_all [OF first_stored]
  by (simp add: one_slot_def cancelled_def first_client_def)



text \<open>The server starts whatever the socket calls return: a failed start of the socket
  returns -1 and is compared with 1, so the exit is never taken and the accept loop runs on a
  server whose socket does not listen.\<close>
theorem start_ignores_failure:
  "\<exists>srv. httpserver_start_server os = Ret srv \<and> ss_socket (hs_server srv) = ret_socket os"
  by (auto simp: httpserver_start_server_def csocket_server_init_def Let_def)

lemma bad_request_text:
  "response_ok bad_request" "response_text bad_request =
     ''HTTP/1.1 400 Bad request'' @ CRLF @ ''Content-Length: 0'' @ CRLF @ CRLF"
  by (code_simp, code_simp)

text \<open>A request that does not parse ends its connection: the blocks the parser had
  allocated are freed, exactly one response is sent, the complete 400 response, and neither
  the callback nor any later message of the connection is processed.\<close>
theorem bad_request_ends:
  assumes "httpparser_parse_request (httpparser_init_request junk (take 30 (req_headers junk)) 30)
             (recv_into payload msg) (int (length msg)) = Some (r, q)" and "r \<noteq> 0" and "msg \<noteq> []"
  shows "listen_messages junk callback payload (msg # recvs) s =
           Some (s, map Ev_freed (fst (httpparser_free_request q)) @
             [Ev_response (map Some (''HTTP/1.1 400 Bad request'' @ CRLF @ ''Content-Length: 0'' @ CRLF @ CRLF)),
              Ev_disconnect])"
  using assms send_response_exact [OF bad_request_text(1)] by (simp add: bad_request_text(2) listen_messages.simps connection_turn_def)

lemma take_30_request: "take 30 (req_headers request_30) = req_headers request_30"
  by (simp add: request_30_def)

lemma init_request_30: "httpparser_init_request request_30 (take 30 (req_headers request_30)) 30 = request_30"
  by (simp add: httpparser_init_request_def request_30_def)

definition small_request :: httpparser_request where
  "small_request = \<lparr>req_method = replicate 7 NUL, req_path = None, req_version = replicate 4 NUL,
     headers_length = 0, headers_max_length = 0, req_headers = [], req_body = None, body_length = 0,
     chunk_length = 0, finished = False\<rparr>"

theorem bad_request_ends_witness:
  "\<exists>evs. listen_messages small_request (\<lambda>(s :: nat) q. Some (s + 1, [])) (replicate 8 NUL) [''x'' @ CRLF @ CRLF, ''y''] 0 =
     Some (0, evs) \<and> last evs = Ev_disconnect"
proof -
  have "\<exists>q. httpparser_parse_request (httpparser_init_request small_request (take 30 (req_headers small_request)) 30)
      (recv_into (replicate 8 NUL) (''x'' @ CRLF @ CRLF)) (int (length (''x'' @ CRLF @ CRLF))) = Some (- 1, q)"
    by (rule exI, code_simp)
  then obtain q where q: "httpparser_parse_request (httpparser_init_request small_request (take 30 (req_headers small_request)) 30)
      (recv_into (replicate 8 NUL) (''x'' @ CRLF @ CRLF)) (int (length (''x'' @ CRLF @ CRLF))) = Some (- 1, q)" ..
  show ?thesis
    using bad_request_ends [OF q, of "\<lambda>(s :: nat) q. Some (s + 1, [])" "[''y'']" 0] by simp
qed

lemma replayed_request:
  assumes "blank_request (httpparser_init_request junk (take 30 (req_headers junk)) 30)"
    and "m \<in> set http_methods" and "length m < 7" and "good_path p" and "list_all good_header hs"
    and "length hs \<le> 30" and "declared_length hs = 0" and "map_of (lowered hs) ''transfer-encoding'' = None"
  obtains q where "httpparser_parse_request (httpparser_init_request junk (take 30 (req_headers junk)) 30)
      (render_request m p hs @ rest) n = Some (0, q)" "req_path q = Some (zt p)" "headers_of q = lowered hs"
proof -
  have max: "headers_max_length (httpparser_init_request junk (take 30 (req_headers junk)) 30) = 30"
    by (simp add: httpparser_init_request_def)
  show ?thesis
    using parse_upto_body [OF assms(1-5), of rest n] assms(6,7,8) max parse_body_none that by fastforce
qed

text \<open>Messages that leave a request in the buffer as it is, each of them handled as that request.\<close>

lemma replay_run:
  assumes "blank_request (httpparser_init_request junk (take 30 (req_headers junk)) 30)"
    and "m \<in> set http_methods" and "length m < 7" and "good_path p" and "list_all good_header hs"
    and "length hs \<le> 30" and "declared_length hs = 0" and "map_of (lowered hs) ''transfer-encoding'' = None"
    and "recv_into payload pre = render_request m p hs @ rest" and "pre \<noteq> []"
    and "list_all (\<lambda>pre. pre \<noteq> [] \<and> prefix pre (render_request m p hs)) pres"
  shows "\<exists>evs. listen_messages junk (\<lambda>log q. Some (log @ [(req_path q, headers_of q)], [])) payload (pre # pres) log =
    Some (log @ replicate (Suc (length pres)) (Some (zt p), lowered hs), evs)"
  using assms(9-11)
proof (induction pres arbitrary: payload pre log)
  case Nil
  obtain q where q: "httpparser_parse_request (httpparser_init_request junk (take 30 (req_headers junk)) 30)
      (recv_into payload pre) (int (length pre)) = Some (0, q)" "req_path q = Some (zt p)" "headers_of q = lowered hs"
    unfolding Nil(1) by (rule replayed_request [OF assms(1-8)])
  show ?case using q(2,3) by (simp add: listen_parsed [OF q(1) Nil(2)])
next
  case (Cons x pres)
  obtain q where q: "httpparser_parse_request (httpparser_init_request junk (take 30 (req_headers junk)) 30)
      (recv_into payload pre) (int (length pre)) = Some (0, q)" "req_path q = Some (zt p)" "headers_of q = lowered hs"
    unfolding Cons.prems(1) by (rule replayed_request [OF assms(1-8)])
  have x: "x \<noteq> []" "list_all (\<lambda>pre. pre \<noteq> [] \<and> prefix pre (render_request m p hs)) pres" using Cons.prems(3) by simp_all
  have "recv_into (recv_into payload pre) x = render_request m p hs @ rest"
    using Cons.prems(1,3) by (auto simp: recv_into_def prefix_def)
  then obtain evs where "listen_messages junk (\<lambda>log q. Some (log @ [(req_path q, headers_of q)], [])) (recv_into payload pre)
      (x # pres) (log @ [(Some (zt p), lowered hs)]) =
        Some ((log @ [(Some (zt p), lowered hs)]) @ replicate (Suc (length pres)) (Some (zt p), lowered hs), evs)"
    using Cons.IH x by blast
  then show ?case using q(2,3) by (simp add: listen_parsed [OF q(1) Cons.prems(2)])
qed

text \<open>C40: The receive buffer is not cleared, so a connection can replay a request without sending
  it again: after a well-formed request without a body, each of the messages that follow it
  directly makes the server handle the whole request once more, as long as every one of them
  is a prefix of the request; one byte is enough. (An empty message ends the connection.)\<close>
theorem stale_buffer_replay:
  assumes "blank_request (httpparser_init_request junk (take 30 (req_headers junk)) 30)"
    and "m \<in> set http_methods" and "length m < 7" and "good_path p" and "list_all good_header hs"
    and "length hs \<le> 30" and "declared_length hs = 0" and "map_of (lowered hs) ''transfer-encoding'' = None"
    and "list_all (\<lambda>pre. pre \<noteq> [] \<and> prefix pre (render_request m p hs)) pres"
  shows "\<exists>evs. listen_messages junk (\<lambda>log q. Some (log @ [(req_path q, headers_of q)], [])) payload
             (render_request m p hs # pres) [] =
           Some (replicate (Suc (length pres)) (Some (zt p), lowered hs), evs)"
proof -
  let ?R = "render_request m p hs" let ?rest = "drop (length (render_request m p hs)) payload"
  have "?R \<noteq> []" by (simp add: render_request_def)
  then show ?thesis
    using replay_run [OF assms(1-8), of payload ?R ?rest pres "[]"] assms(9) by (simp add: recv_into_def)
qed

theorem stale_buffer_replay_witness:
  "\<exists>evs. listen_messages request_30 (\<lambda>log q. Some (log @ [(req_path q, headers_of q)], [])) (replicate 100 NUL)
      [render_request ''GET'' ''/api/produtos/del?nome=x&senha=senha'' [], ''G'', ''GET''] [] =
    Some (replicate 3 (Some (zt ''/api/produtos/del?nome=x&senha=senha''), []), evs)"
proof -
  have "good_path ''/api/produtos/del?nome=x&senha=senha''" "''GET'' \<in> set http_methods"
    "list_all (\<lambda>pre. pre \<noteq> [] \<and> prefix pre (render_request ''GET'' ''/api/produtos/del?nome=x&senha=senha'' [])) [''G'', ''GET'']" by code_simp+
  then show ?thesis
    using stale_buffer_replay [of request_30 "''GET''" "''/api/produtos/del?nome=x&senha=senha''" "[]" "[''G'', ''GET'']"
        "replicate 100 NUL"]
    by (simp add: init_request_30 request_30_blank declared_length_def lowered_def numeral_3_eq_3)
qed

end
