(* ===== verification/Fq_Utils.thy ===== *)
theory Fq_Utils
  imports Prelude
begin

text \<open>
  \<^verbatim>\<open>server/libs/fq_utils.c\<close>: the session identifiers. The random sources of the
  platform are parameters: \<open>getrandom\<close> is the seed the kernel delivered (\<open>None\<close> when
  the system call fails), \<open>srand\<close> maps a seed to a generator state and \<open>rand\<close> draws
  one non-negative number. The Linux branch of the seeding, which the Makefile builds, is the
  one the identifiers use below; all four branches are \<open>frequenc_safe_seeding_on\<close>. The
  branch for \<^verbatim>\<open>HARDCODED_SESSION_ID\<close> calls a function that is not in the
  repository; it is an argument.
\<close>

section \<open>Operations\<close>

definition frequenc_safe_seeding :: "32 word option \<Rightarrow> 32 word outcome" where
  "frequenc_safe_seeding getrandom = (case getrandom of None \<Rightarrow> Exit 1 | Some seed \<Rightarrow> Ret seed)"

text \<open>The seeding on every platform, with the calls it makes: the Windows provider, the Linux
  system call, the clock (\<^verbatim>\<open>ALLOW_UNSECURE_RANDOM\<close>), and \<^verbatim>\<open>/dev/urandom\<close>.\<close>

datatype seed_source = SEED_WINDOWS | SEED_LINUX | SEED_CLOCK | SEED_URANDOM

datatype seed_call = Crypt_acquire | Crypt_gen | Crypt_release | Get_random | Clock | Urandom_open | Urandom_read | Urandom_close

record seed_answers =
  an_crypt_acquire :: bool
  an_crypt_gen :: "32 word option"
  an_getrandom :: "32 word option"
  an_time :: "32 word"
  an_urandom_open :: bool
  an_urandom_read :: "32 word option"

definition frequenc_safe_seeding_on :: "seed_source \<Rightarrow> seed_answers \<Rightarrow> 32 word outcome \<times> seed_call list" where
  "frequenc_safe_seeding_on source ans = (case source of
     SEED_WINDOWS \<Rightarrow>
       if \<not> an_crypt_acquire ans then (Exit 1, [Crypt_acquire])
       else (case an_crypt_gen ans of
           None \<Rightarrow> (Exit 1, [Crypt_acquire, Crypt_gen, Crypt_release])
         | Some seed \<Rightarrow> (Ret seed, [Crypt_acquire, Crypt_gen, Crypt_release]))
   | SEED_LINUX \<Rightarrow> (frequenc_safe_seeding (an_getrandom ans), [Get_random])
   | SEED_CLOCK \<Rightarrow> (Ret (an_time ans), [Clock])
   | SEED_URANDOM \<Rightarrow>
       if \<not> an_urandom_open ans then (Exit 1, [Urandom_open])
       else (case an_urandom_read ans of
           None \<Rightarrow> (Exit 1, [Urandom_open, Urandom_read, Urandom_close])
         | Some seed \<Rightarrow> (Ret seed, [Urandom_open, Urandom_read, Urandom_close])))"

definition characters :: string where
  "characters = ''ABCDEFGHIJKLMNOPQRSTUVWXYZabcdefghijklmnopqrstuvwxyz0123456789''"

function id_loop :: "('s \<Rightarrow> nat \<times> 's) \<Rightarrow> 's \<Rightarrow> bytes \<Rightarrow> nat \<Rightarrow> (bytes \<times> nat) option" where
  "id_loop rand g result i =
     (if i < 16 then
        (case rand g of (r, g') \<Rightarrow> do {
           c \<leftarrow> rd (zt characters) (r mod 62);
           result' \<leftarrow> wr result i c;
           id_loop rand g' result' (i + 1) })
      else Some (result, i))"
  by pat_completeness auto
termination
  by (relation "measure (\<lambda>(rand, g, result, i). 16 - i)") auto

declare id_loop.simps [simp del]

definition frequenc_generate_session_id ::
  "32 word option \<Rightarrow> (32 word \<Rightarrow> 's) \<Rightarrow> ('s \<Rightarrow> nat \<times> 's) \<Rightarrow> bytes \<Rightarrow> bytes outcome option"
where
  "frequenc_generate_session_id getrandom srand rand result =
     (case frequenc_safe_seeding getrandom of
        Exit code \<Rightarrow> Some (Exit code)
      | Ret seed \<Rightarrow> do {
          (result', i) \<leftarrow> id_loop rand (srand seed) result 0;
          result'' \<leftarrow> wr result' i NUL;
          Some (Ret result'') })"

text \<open>\<open>fast_copy\<close> is the function the hard-coded branch calls.\<close>

definition hardcoded_session_id :: "(string \<Rightarrow> bytes \<Rightarrow> nat \<Rightarrow> bytes option) \<Rightarrow> bytes \<Rightarrow> bytes option" where
  "hardcoded_session_id fast_copy result = do {
     result' \<leftarrow> fast_copy ''FrequenC_Develop'' result 17;
     wr result' 16 NUL }"

section \<open>The identifier as a function of the draws\<close>

fun draws :: "('s \<Rightarrow> nat \<times> 's) \<Rightarrow> 's \<Rightarrow> nat \<Rightarrow> nat list" where
  "draws rand g 0 = []"
| "draws rand g (Suc n) = (case rand g of (r, g') \<Rightarrow> r # draws rand g' n)"

definition session_id :: "(32 word \<Rightarrow> 's) \<Rightarrow> ('s \<Rightarrow> nat \<times> 's) \<Rightarrow> 32 word \<Rightarrow> string" where
  "session_id srand rand seed = map (\<lambda>r. characters ! (r mod 62)) (draws rand (srand seed) 16)"

definition id_char :: "char \<Rightarrow> bool" where
  "id_char c \<longleftrightarrow> c \<in> set characters"

lemma length_characters [simp]: "length characters = 62"
  by (simp add: characters_def)

lemma draws_length [simp]: "length (draws rand g n) = n"
  by (induction n arbitrary: g) (auto split: prod.splits)

lemma session_id_length [simp]: "length (session_id srand rand seed) = 16"
  by (simp add: session_id_def)

lemma session_id_chars: "set (session_id srand rand seed) \<subseteq> set characters"
  by (auto simp: session_id_def)

lemma id_char_plain:
  "id_char c \<Longrightarrow> c \<notin> {NUL, CHR ''?'', CHR ''='', CHR ''&'', CHR ''+'', SP, QUOTE, DQUOTE, CR, LF}"
  by (auto simp: id_char_def characters_def)

lemma id_loop_draws:
  assumes "n = 16 - i" and "i \<le> 16" and "16 < length result"
  shows "id_loop rand g result i =
    Some (take i result @ map (\<lambda>r. characters ! (r mod 62)) (draws rand g n) @ drop 16 result, 16)"
  using assms
proof (induction n arbitrary: i g result)
  case 0
  then show ?case by (subst id_loop.simps) simp
next
  case (Suc n)
  obtain r g' where r: "rand g = (r, g')" by fastforce
  have i: "16 - i = Suc n" "15 - i = n" using Suc.prems(1) by simp_all
  have "id_loop rand g result i = id_loop rand g' (result[i := characters ! (r mod 62)]) (i + 1)"
    using Suc.prems r by (subst id_loop.simps) (auto simp: zt_def nth_append)
  then show ?case
    using Suc.IH [of "i + 1" "result[i := characters ! (r mod 62)]" g'] Suc.prems r i
    by (simp add: take_Suc_conv_app_nth)
qed

lemma session_id_result:
  assumes "17 \<le> length result"
  shows "frequenc_generate_session_id (Some seed) srand rand result =
           Some (Ret (session_id srand rand seed @ NUL # drop 17 result))"
proof -
  have "drop 16 result = result ! 16 # drop 17 result"
    using assms Cons_nth_drop_Suc [of 16 result] by simp
  moreover have "id_loop rand (srand seed) result 0 = Some (session_id srand rand seed @ drop 16 result, 16)"
    using id_loop_draws [of 16 0 result rand "srand seed"] assms by (simp add: session_id_def)
  ultimately show ?thesis
    by (simp add: frequenc_generate_session_id_def frequenc_safe_seeding_def list_update_append)
qed

section \<open>Properties\<close>

text \<open>The seeding never goes on with a seed it did not get: on every platform it either
  returns the number its source delivered or ends the process with code 1, and before either
  it has given back what it acquired. Only the clock needs no source that can fail.\<close>
theorem seeding_fails_closed:
  "case frequenc_safe_seeding_on source ans of (r, calls) \<Rightarrow>
     (r = (case (case source of
        SEED_WINDOWS \<Rightarrow> if an_crypt_acquire ans then an_crypt_gen ans else None
      | SEED_LINUX \<Rightarrow> an_getrandom ans
      | SEED_CLOCK \<Rightarrow> Some (an_time ans)
      | SEED_URANDOM \<Rightarrow> if an_urandom_open ans then an_urandom_read ans else None) of
        None \<Rightarrow> Exit 1 | Some seed \<Rightarrow> Ret seed)) \<and>
     (Crypt_gen \<in> set calls \<longleftrightarrow> last calls = Crypt_release) \<and> (Urandom_read \<in> set calls \<longleftrightarrow> last calls = Urandom_close)"
  by (cases source) (simp_all add: frequenc_safe_seeding_on_def frequenc_safe_seeding_def split: option.split)

text \<open>Whatever the random source draws, a buffer of at least 17 bytes receives a
  terminated string of exactly 16 characters of the alphabet, character \<open>k\<close> being chosen
  by the \<open>k\<close>-th draw modulo 62, and no byte behind the terminator changes.\<close>
theorem generate_session_id_result:
  assumes "17 \<le> length result"
  shows "frequenc_generate_session_id (Some seed) srand rand result =
           Some (Ret (session_id srand rand seed @ NUL # drop 17 result))"
  by (rule session_id_result [OF assms])

theorem generate_session_id_result_witness:
  "\<exists>r. frequenc_generate_session_id (Some 7) (\<lambda>seed. unat seed) (\<lambda>g. (g, g + 1)) (replicate 17 NUL) = Some (Ret r)
     \<and> cstr r = ''HIJKLMNOPQRSTUVW''"
proof -
  have s: "session_id (\<lambda>seed. unat seed) (\<lambda>g. (g, g + 1)) (7 :: 32 word) = ''HIJKLMNOPQRSTUVW''"
    by code_simp
  show ?thesis
    using generate_session_id_result [of "replicate 17 NUL" 7 "\<lambda>seed. unat seed" "\<lambda>g. (g, g + 1)"]
    unfolding s by (simp add: cstr_def)
qed

text \<open>A buffer of fewer than 17 bytes is overrun: generating an identifier into it is an
  out-of-bounds write.\<close>
theorem generate_session_id_overrun:
  assumes "length result \<le> 16"
  shows "frequenc_generate_session_id (Some seed) srand rand result = None"
proof -
  have "length result \<le> 16 \<Longrightarrow> i \<le> 16 \<Longrightarrow>
      (case id_loop rand g result i of None \<Rightarrow> True | Some (r, k) \<Rightarrow> k = 16 \<and> length r \<le> 16)" for g i
  proof (induction rand g result i rule: id_loop.induct)
    case (1 rand g result i)
    show ?case
    proof (cases "i < 16 \<and> i < length result")
      case False
      then show ?thesis using 1(2,3)
        by (subst id_loop.simps) (auto split: prod.splits bind_splits option.splits simp: wr_def)
    next
      case True
      obtain r g' where r: "rand g = (r, g')" by fastforce
      show ?thesis
        using True r 1
        by (subst id_loop.simps) (auto simp: zt_def nth_append)
    qed
  qed
  from this [OF assms, of 0 "srand seed"] show ?thesis
    by (auto simp: frequenc_generate_session_id_def frequenc_safe_seeding_def wr_def split: option.splits)
qed

theorem generate_session_id_overrun_witness:
  "frequenc_generate_session_id (Some 7) (\<lambda>seed. unat seed) (\<lambda>g. (g, g + 1)) (replicate 16 NUL) = None"
  by (rule generate_session_id_overrun) simp

text \<open>The identifier is a function of the 32-bit seed, so a server can hand out at most
  \<open>2 ^ 32\<close> different identifiers, although there are \<open>62 ^ 16\<close> strings of this
  form.\<close>
theorem session_id_space:
  "card (range (session_id srand rand)) \<le> 2 ^ 32"
proof -
  have "card (range (session_id srand rand)) \<le> card (UNIV :: 32 word set)"
    by (rule card_image_le) simp
  then show ?thesis by (simp add: card_word)
qed

end
