(* ===== verification/Main_App.thy ===== *)
theory Main_App
  imports Query_Parser Tablec Pjsonb Http_Server Fq_Utils
begin

text \<open>
  \<^verbatim>\<open>server/main.c\<close>: the shop's request handler. The C callback is one chain of
  \<^verbatim>\<open>if\<close>s over prefixes of the path; each branch is a definition. The state is the
  table of sessions, the database, and four ghost counters: the libpq objects (connections and
  results) not yet released, the products and the JSON builders allocated and not freed, and
  the seeds drawn from the random source.

  libpq is not part of the repository: \<open>pq_connect\<close> and \<open>pq_exec\<close> are parameters, on an
  abstract database state. A result is a list of rows of strings, the success of a command, or
  an error; reading a column that does not exist yields a null pointer and traps where it is
  used. The random source of the session identifiers is a parameter as in the theory of the
  identifiers; \<open>env_getrandom env n\<close> is what the draw number \<open>n\<close> of the process delivers. Logging is
  not modelled. The second part of a result is the list of the responses that were sent.
\<close>

section \<open>Data\<close>

datatype pq_result = PGRES_TUPLES_OK "string list list" | PGRES_COMMAND_OK | PGRES_ERROR

record ('db, 'g) env =
  pq_connect :: "'db \<Rightarrow> bool \<times> 'db"
  pq_exec :: "'db \<Rightarrow> string \<Rightarrow> pq_result \<times> 'db"
  env_getrandom :: "nat \<Rightarrow> 32 word option"
  env_srand :: "32 word \<Rightarrow> 'g"
  env_rand :: "'g \<Rightarrow> nat \<times> 'g"

record 'db app =
  app_sessions :: "string tablec_ht"
  app_db :: 'db
  app_open :: nat
  app_products :: nat
  app_builders :: nat
  app_draws :: nat

record produto =
  p_nome :: string
  p_tipo :: string
  p_imagem :: string
  p_preco :: int
  p_avaliacao :: int

type_synonym 'db reply = "('db app \<times> outbuf list) outcome option"

section \<open>Strings\<close>

text \<open>The two in-place loops over a string.\<close>

fun normalize_string :: "bytes \<Rightarrow> bytes option" where
  "normalize_string [] = None"
| "normalize_string (c # cs) =
     (if c = NUL then Some (c # cs)
      else map_option ((#) (if c = QUOTE then DQUOTE else c)) (normalize_string cs))"

fun normalize_query_value :: "bytes \<Rightarrow> bytes option" where
  "normalize_query_value [] = None"
| "normalize_query_value (c # cs) =
     (if c = NUL then Some (c # cs)
      else map_option ((#) (if c = CHR ''+'' then SP else c)) (normalize_query_value cs))"

text \<open>The value of a query as a pointer, \<^term>\<open>Some None\<close> for a null result of the lookup; and
  the value where the code dereferences the result without a check.\<close>

definition get_value :: "qparser_info \<Rightarrow> string \<Rightarrow> bytes option option" where
  "get_value info key = do {
     r \<leftarrow> qparser_get_query info (zt key);
     case r of
       None \<Rightarrow> Some None
     | Some i \<Rightarrow> do { q \<leftarrow> rd (queries info) i; Some (Some (qvalue q)) } }"

definition deref_value :: "qparser_info \<Rightarrow> string \<Rightarrow> bytes option" where
  "deref_value info key = Option.bind (get_value info key) id"

text \<open>\<^verbatim>\<open>get(a) == NULL || get(b) == NULL || ...\<close>, left to right.\<close>

fun any_missing :: "qparser_info \<Rightarrow> string list \<Rightarrow> bool option" where
  "any_missing info [] = Some False"
| "any_missing info (k # ks) = do {
     v \<leftarrow> get_value info k;
     if v = None then Some True else any_missing info ks }"

definition SENHA :: string where
  "SENHA = ''senha''"

section \<open>Responses and SQL\<close>

definition cors_response :: "int \<Rightarrow> httpserver_response" where
  "cors_response st = \<lparr>rs_status = st, rs_headers_length = 1,
     rs_headers = [(''Access-Control-Allow-Origin'', ''*'')], rs_body = None, rs_body_length = 0\<rparr>"

definition json_response :: "int \<Rightarrow> string \<Rightarrow> bytes \<Rightarrow> nat \<Rightarrow> httpserver_response" where
  "json_response st content_length body n = \<lparr>rs_status = st, rs_headers_length = 3,
     rs_headers = [(''Content-Type'', ''application/json''), (''Content-Length'', content_length),
                   (''Access-Control-Allow-Origin'', ''*'')],
     rs_body = Some body, rs_body_length = n\<rparr>"

definition reply :: "'db app \<Rightarrow> httpserver_response \<Rightarrow> 'db reply" where
  "reply app r = map_option (\<lambda>b. Ret (app, [b])) (httpserver_send_response r)"

text \<open>
  The block that every branch with SQL repeats: connect, answer 500 if that failed, execute,
  answer 400 if the result is not of the expected kind. \<open>Inl\<close> is the status of the early
  response, with everything released; \<open>Inr\<close> the rows, with the connection and the result
  still held, which \<open>pq_done\<close> (\<^verbatim>\<open>PQclear\<close>, \<^verbatim>\<open>PQfinish\<close>) releases.
\<close>

definition run_sql ::
  "('db, 'g) env \<Rightarrow> bool \<Rightarrow> string \<Rightarrow> 'db app \<Rightarrow> 'db app \<times> (int + string list list)"
where
  "run_sql env want_tuples sql app = (
     case pq_connect env (app_db app) of (connected, db1) \<Rightarrow>
     let app1 = app\<lparr>app_db := db1, app_open := app_open app + 1\<rparr> in
     if \<not> connected then (app1\<lparr>app_open := app_open app1 - 1\<rparr>, Inl 500)
     else case pq_exec env db1 sql of (res, db2) \<Rightarrow>
       let app2 = app1\<lparr>app_db := db2, app_open := app_open app1 + 1\<rparr> in
       case res of
         PGRES_TUPLES_OK rows \<Rightarrow>
           if want_tuples then (app2, Inr rows) else (app2\<lparr>app_open := app_open app2 - 2\<rparr>, Inl 400)
       | PGRES_COMMAND_OK \<Rightarrow>
           if want_tuples then (app2\<lparr>app_open := app_open app2 - 2\<rparr>, Inl 400) else (app2, Inr [])
       | PGRES_ERROR \<Rightarrow> (app2\<lparr>app_open := app_open app2 - 2\<rparr>, Inl 400))"

definition pq_done :: "'db app \<Rightarrow> 'db app" where
  "pq_done app = app\<lparr>app_open := app_open app - 2\<rparr>"

text \<open>A command without a result: 500, 400 or the given answer.\<close>

definition command_route ::
  "('db, 'g) env \<Rightarrow> string \<Rightarrow> httpserver_response \<Rightarrow> 'db app \<Rightarrow> 'db reply"
where
  "command_route env sql success app = (
     case run_sql env False sql app of
       (app', Inl st) \<Rightarrow> reply app' (cors_response st)
     | (app', Inr rows) \<Rightarrow> reply (pq_done app') success)"

section \<open>Products\<close>

text \<open>\<^verbatim>\<open>None\<close> is the null pointer; the allocation is counted.\<close>

definition produto_sql :: "string \<Rightarrow> string" where
  "produto_sql nome = c_snprintf 1024 (''SELECT * FROM produtos WHERE nome='' @ [QUOTE] @ nome @ [QUOTE] @ '';'')"

text \<open>The copy of a string on the heap, \<^verbatim>\<open>malloc(strlen(s) + 1)\<close> and \<^verbatim>\<open>strcpy\<close>. The columns of a row are
  C strings, so the copies of them are the columns.\<close>

definition strdup :: "bytes \<Rightarrow> bytes option" where
  "strdup s = do {
     n \<leftarrow> c_strlen s;
     c_memcpy (replicate (n + 1) NUL) 0 s 0 (int n + 1) }"

lemma strdup_zt: "c_string s \<Longrightarrow> strdup (s @ NUL # r) = Some (zt s)"
proof -
  assume s: "c_string s"
  then have "c_strlen (s @ NUL # r) = Some (length s)" by (simp add: c_strlen_def cstr_append_NUL)
  moreover have "nat (int (length s) + 1) = Suc (length s)" by simp
  ultimately show ?thesis by (simp add: strdup_def c_memcpy_def zt_def)
qed

definition get_produto_by_name ::
  "('db, 'g) env \<Rightarrow> string \<Rightarrow> 'db app \<Rightarrow> ('db app \<times> produto option) option"
where
  "get_produto_by_name env nome app = (
     case run_sql env True (produto_sql nome) app of
       (app', Inl st) \<Rightarrow> Some (app', None)
     | (app', Inr []) \<Rightarrow> Some (pq_done app', None)
     | (app', Inr (row # rows)) \<Rightarrow> do {
         pnome \<leftarrow> rd row 0;
         tipo \<leftarrow> rd row 1;
         imagem \<leftarrow> rd row 2;
         preco_text \<leftarrow> rd row 3;
         preco \<leftarrow> c_atoi (zt preco_text);
         Some ((pq_done app')\<lparr>app_products := app_products app' + 1\<rparr>,
               Some \<lparr>p_nome = pnome, p_tipo = tipo, p_imagem = imagem, p_preco = preco, p_avaliacao = 5\<rparr>) })"

text \<open>Defined in the source and never called there.\<close>

definition free_produto :: "'db app \<Rightarrow> 'db app" where
  "free_produto app = app\<lparr>app_products := app_products app - 1\<rparr>"

definition put_product ::
  "pjsonb \<Rightarrow> string \<Rightarrow> string \<Rightarrow> string \<Rightarrow> int \<Rightarrow> pjsonb option"
where
  "put_product b nome tipo imagem preco = do {
     nome_length \<leftarrow> c_strlen (zt nome);
     b1 \<leftarrow> pjsonb_set_string b (Some ''nome'') (zt nome) nome_length;
     tipo_length \<leftarrow> c_strlen (zt tipo);
     b2 \<leftarrow> pjsonb_set_string b1 (Some ''tipo'') (zt tipo) tipo_length;
     imagem_length \<leftarrow> c_strlen (zt imagem);
     b3 \<leftarrow> pjsonb_set_string b2 (Some ''imagem'') (zt imagem) imagem_length;
     b4 \<leftarrow> pjsonb_set_int b3 (Some ''preco'') preco;
     pjsonb_set_int b4 (Some ''avaliacao'') 5 }"

text \<open>The bytes of a finished builder as the response body: its block up to its position, all
  of which must be initialised.\<close>

definition builder_body :: "pjsonb \<Rightarrow> bytes option" where
  "builder_body b =
     (if list_all (\<lambda>x. x \<noteq> None) (take (pj_position b) (pj_string b)) \<and> pj_position b \<le> length (pj_string b)
      then Some (map the (take (pj_position b) (pj_string b))) else None)"

definition list_response :: "pjsonb \<Rightarrow> httpserver_response option" where
  "list_response b = do {
     body \<leftarrow> builder_body b;
     Some (json_response 200 (c_snprintf 10 (show_nat (pj_position b))) body (pj_position b)) }"

text \<open>The block of a builder between \<^verbatim>\<open>pjsonb_init\<close> and \<^verbatim>\<open>pjsonb_free\<close>, and the end of the two routes
  that answer with a list: the array is closed and sent, and its block is freed.\<close>

definition builder_new :: "'db app \<Rightarrow> 'db app" where
  "builder_new app = app\<lparr>app_builders := app_builders app + 1\<rparr>"

definition builder_free :: "'db app \<Rightarrow> 'db app" where
  "builder_free app = app\<lparr>app_builders := app_builders app - 1\<rparr>"

definition send_list :: "'db app \<Rightarrow> pjsonb \<Rightarrow> 'db reply" where
  "send_list app b = do {
     b1 \<leftarrow> pjsonb_end b;
     r \<leftarrow> list_response b1;
     out \<leftarrow> httpserver_send_response r;
     Some (Ret (builder_free app, [out])) }"

section \<open>The routes\<close>

text \<open>\<^verbatim>\<open>/api/produtos/lista\<close>. The price is read from column 2, as the source has it.\<close>

definition produtos_row :: "string list \<Rightarrow> pjsonb \<Rightarrow> pjsonb option" where
  "produtos_row row b = do {
     b1 \<leftarrow> pjsonb_enter_object b None;
     nome \<leftarrow> rd row 0;
     tipo \<leftarrow> rd row 1;
     imagem \<leftarrow> rd row 2;
     preco_text \<leftarrow> rd row 2;
     preco \<leftarrow> c_atoi (zt preco_text);
     b2 \<leftarrow> put_product b1 nome tipo imagem preco;
     pjsonb_leave_object b2 }"

definition produtos_lista :: "('db, 'g) env \<Rightarrow> 'db app \<Rightarrow> 'db reply" where
  "produtos_lista env app = (
     case run_sql env True (c_snprintf 1024 ''SELECT * FROM produtos;'') app of
       (app', Inl st) \<Rightarrow> reply app' (cors_response st)
     | (app', Inr rows) \<Rightarrow> do {
         b \<leftarrow> build_all produtos_row rows (pjsonb_init PJSONB_ARRAY);
         send_list (pq_done (builder_new app')) b })"

text \<open>\<^verbatim>\<open>/api/register\<close>.\<close>

definition register_sql :: "string \<Rightarrow> string \<Rightarrow> string \<Rightarrow> string" where
  "register_sql name email password = c_snprintf 4096
     (''INSERT INTO usuarios (nome, email, senha) VALUES ('' @ [QUOTE] @ name @ [QUOTE] @ '', '' @ [QUOTE] @ email @
      [QUOTE] @ '', '' @ [QUOTE] @ password @ [QUOTE] @ '');'')"

definition register_route :: "('db, 'g) env \<Rightarrow> qparser_info \<Rightarrow> 'db app \<Rightarrow> 'db reply" where
  "register_route env info app = do {
     missing \<leftarrow> any_missing info [''name'', ''email'', ''password''];
     if missing then reply app (cors_response 400)
     else do {
       name \<leftarrow> deref_value info ''name'';
       email \<leftarrow> deref_value info ''email'';
       password \<leftarrow> deref_value info ''password'';
       name1 \<leftarrow> normalize_string name;
       email1 \<leftarrow> normalize_string email;
       password1 \<leftarrow> normalize_string password;
       command_route env (register_sql (cstr name1) (cstr email1) (cstr password1)) (cors_response 204) app } }"

text \<open>\<^verbatim>\<open>/api/login\<close>. The session block has 17 bytes; the table keeps the pointers to
  the identifier and to a copy of the normalised address.\<close>

definition login_sql :: "string \<Rightarrow> string \<Rightarrow> string" where
  "login_sql email password = c_snprintf (1024 * 2 + 68 + 1)
     (''SELECT * FROM usuarios WHERE email='' @ [QUOTE] @ email @ [QUOTE] @ '' AND senha='' @ [QUOTE] @ password @
      [QUOTE] @ '';'')"

definition login_route :: "('db, 'g) env \<Rightarrow> qparser_info \<Rightarrow> 'db app \<Rightarrow> 'db reply" where
  "login_route env info app = do {
     missing \<leftarrow> any_missing info [''email'', ''password''];
     if missing then reply app (cors_response 400)
     else do {
       email \<leftarrow> deref_value info ''email'';
       password \<leftarrow> deref_value info ''password'';
       email1 \<leftarrow> normalize_string email;
       password1 \<leftarrow> normalize_string password;
       case run_sql env True (login_sql (cstr email1) (cstr password1)) app of
         (app', Inl st) \<Rightarrow> reply app' (cors_response st)
       | (app', Inr rows) \<Rightarrow>
           if rows = [] then reply (pq_done app') (cors_response 403)
           else do {
             gen \<leftarrow> frequenc_generate_session_id (env_getrandom env (app_draws app')) (env_srand env) (env_rand env)
                      (replicate 17 NUL);
             case gen of
               Exit code \<Rightarrow> Some (Exit code)
             | Ret session \<Rightarrow> do {
                 sessions \<leftarrow> tablec_set (app_sessions app') (cstr session) (Some (cstr email1));
                 reply ((pq_done app')\<lparr>app_sessions := sessions, app_draws := app_draws app' + 1\<rparr>) (json_response 200 ''16'' session 16) } } } }"

text \<open>\<^verbatim>\<open>/api/produtos/add\<close> and \<^verbatim>\<open>/api/produtos/del\<close>, guarded by the
  shop's password.\<close>

definition wrong_password :: "qparser_info \<Rightarrow> bool option" where
  "wrong_password info = do {
     senha \<leftarrow> get_value info ''senha'';
     case senha of
       None \<Rightarrow> Some True
     | Some v \<Rightarrow> do { r \<leftarrow> c_strcmp v (zt SENHA); Some (r \<noteq> 0) } }"

definition add_sql :: "string \<Rightarrow> string \<Rightarrow> string \<Rightarrow> int \<Rightarrow> string" where
  "add_sql nome tipo imagem preco = c_snprintf (1024 * 3 + 68 + 4 * 3 + 1)
     (''INSERT INTO produtos (nome, tipo, imagem, preco) VALUES ('' @ [QUOTE] @ nome @ [QUOTE] @ '', '' @ [QUOTE] @ tipo @
      [QUOTE] @ '', '' @ [QUOTE] @ imagem @ [QUOTE] @ '', '' @ show_int preco @ '');'')"

definition produtos_add :: "('db, 'g) env \<Rightarrow> qparser_info \<Rightarrow> 'db app \<Rightarrow> 'db reply" where
  "produtos_add env info app = do {
     missing \<leftarrow> any_missing info [''nome'', ''tipo'', ''imagem'', ''preco''];
     if missing then reply app (cors_response 400)
     else do {
       wrong \<leftarrow> wrong_password info;
       if wrong then reply app (cors_response 403)
       else do {
         nome \<leftarrow> deref_value info ''nome'';
         tipo \<leftarrow> deref_value info ''tipo'';
         imagem \<leftarrow> deref_value info ''imagem'';
         preco_text \<leftarrow> deref_value info ''preco'';
         preco \<leftarrow> c_atoi preco_text;
         if preco = 0 then reply app (cors_response 400)
         else do {
           nome1 \<leftarrow> normalize_string nome;
           nome2 \<leftarrow> normalize_query_value nome1;
           tipo1 \<leftarrow> normalize_string tipo;
           imagem1 \<leftarrow> normalize_string imagem;
           command_route env (add_sql (cstr nome2) (cstr tipo1) (cstr imagem1) preco) (cors_response 204) app } } } }"

definition del_sql :: "string \<Rightarrow> string" where
  "del_sql nome = c_snprintf (1024 + 33 + 1) (''DELETE from produtos WHERE='' @ [QUOTE] @ nome @ [QUOTE] @ '';'')"

definition produtos_del :: "('db, 'g) env \<Rightarrow> qparser_info \<Rightarrow> 'db app \<Rightarrow> 'db reply" where
  "produtos_del env info app = do {
     missing \<leftarrow> any_missing info [''nome''];
     if missing then reply app (cors_response 400)
     else do {
       wrong \<leftarrow> wrong_password info;
       if wrong then reply app (cors_response 403)
       else do {
         nome \<leftarrow> deref_value info ''nome'';
         nome1 \<leftarrow> normalize_string nome;
         nome2 \<leftarrow> normalize_query_value nome1;
         command_route env (del_sql (cstr nome2)) ((cors_response 204)\<lparr>rs_headers_length := 0\<rparr>) app } } }"

text \<open>
  \<^verbatim>\<open>/api/carrinho/add\<close>, \<^verbatim>\<open>del\<close> and \<^verbatim>\<open>lista\<close>: the cart of the
  user of a session. The session parameter is not checked for being there.
\<close>

definition session_user :: "'db app \<Rightarrow> bytes \<Rightarrow> string option option option" where
  "session_user app session =
     (if NUL \<in> set session then map_option (map_option bvalue) (tablec_get (app_sessions app) (cstr session))
      else None)"

definition cart_add_sql :: "string \<Rightarrow> string \<Rightarrow> string" where
  "cart_add_sql user produto = c_snprintf 2048
     (''INSERT INTO carrinho (usuario, produto) VALUES ('' @ [QUOTE] @ user @ [QUOTE] @ '', '' @ [QUOTE] @ produto @
      [QUOTE] @ '');'')"

definition cart_del_sql :: "string \<Rightarrow> string \<Rightarrow> string" where
  "cart_del_sql user produto = c_snprintf 2048
     (''DELETE from carrinho WHERE usuario='' @ [QUOTE] @ user @ [QUOTE] @ '' AND produto='' @ [QUOTE] @ produto @
      [QUOTE] @ '';'')"

definition cart_command ::
  "(string \<Rightarrow> string \<Rightarrow> string) \<Rightarrow> ('db, 'g) env \<Rightarrow> qparser_info \<Rightarrow> 'db app \<Rightarrow> 'db reply"
where
  "cart_command sql env info app = do {
     missing \<leftarrow> any_missing info [''produto''];
     if missing then reply app (cors_response 400)
     else do {
       produto \<leftarrow> deref_value info ''produto'';
       produto1 \<leftarrow> normalize_string produto;
       produto2 \<leftarrow> normalize_query_value produto1;
       session \<leftarrow> deref_value info ''session'';
       session_info \<leftarrow> session_user app session;
       case session_info of
         None \<Rightarrow> reply app (cors_response 403)
       | Some value \<Rightarrow> do {
           user \<leftarrow> value;
           command_route env (sql user (cstr produto2)) (cors_response 204) app } } }"

definition carrinho_add :: "('db, 'g) env \<Rightarrow> qparser_info \<Rightarrow> 'db app \<Rightarrow> 'db reply" where
  "carrinho_add = cart_command cart_add_sql"

definition carrinho_del :: "('db, 'g) env \<Rightarrow> qparser_info \<Rightarrow> 'db app \<Rightarrow> 'db reply" where
  "carrinho_del = cart_command cart_del_sql"

definition cart_list_sql :: "string \<Rightarrow> string" where
  "cart_list_sql user = c_snprintf (1024 + 33 + 1)
     (''SELECT * FROM carrinho WHERE usuario='' @ [QUOTE] @ user @ [QUOTE] @ '';'')"

text \<open>One row of the cart: the product is looked up by its name on a connection of its own; a null
  product is dereferenced.\<close>

fun cart_rows ::
  "('db, 'g) env \<Rightarrow> string list list \<Rightarrow> 'db app \<Rightarrow> pjsonb \<Rightarrow> ('db app \<times> pjsonb) option"
where
  "cart_rows env [] app b = Some (app, b)"
| "cart_rows env (row # rows) app b = do {
     b1 \<leftarrow> pjsonb_enter_object b None;
     name \<leftarrow> rd row 1;
     (app1, product) \<leftarrow> get_produto_by_name env name app;
     p \<leftarrow> product;
     b2 \<leftarrow> put_product b1 (p_nome p) (p_tipo p) (p_imagem p) (p_preco p);
     b3 \<leftarrow> pjsonb_leave_object b2;
     cart_rows env rows app1 b3 }"

definition carrinho_lista :: "('db, 'g) env \<Rightarrow> qparser_info \<Rightarrow> 'db app \<Rightarrow> 'db reply" where
  "carrinho_lista env info app = do {
     session \<leftarrow> deref_value info ''session'';
     session_info \<leftarrow> session_user app session;
     case session_info of
       None \<Rightarrow> reply app (cors_response 403)
     | Some value \<Rightarrow> do {
         user \<leftarrow> value;
         case run_sql env True (cart_list_sql user) app of
           (app', Inl st) \<Rightarrow> reply app' (cors_response st)
         | (app', Inr rows) \<Rightarrow> do {
             (app1, b) \<leftarrow> cart_rows env rows (builder_new app') (pjsonb_init PJSONB_ARRAY);
             send_list (pq_done app1) b } } }"

text \<open>The code behind the chain of branches.\<close>

definition not_found_body :: string where
  "not_found_body = ''Base para o projeto da UCP :)''"

definition not_found :: "'db app \<Rightarrow> 'db reply" where
  "not_found app =
     reply app (json_response 404 (c_snprintf 10 (show_nat (length not_found_body))) (zt not_found_body)
       (length not_found_body))"

section \<open>The callback\<close>

definition starts_with :: "bytes \<Rightarrow> string \<Rightarrow> bool option" where
  "starts_with path p = map_option (\<lambda>r. r = 0) (c_strncmp path (zt p) (length p))"

datatype route =
    Produtos_lista | Register | Login | Session_check | Produtos_add | Produtos_del
  | Carrinho_add | Carrinho_del | Carrinho_lista

definition routes :: "(string \<times> route) list" where
  "routes = [(''/api/produtos/lista'', Produtos_lista), (''/api/register'', Register), (''/api/login'', Login),
     (''/api/session/check'', Session_check), (''/api/produtos/add'', Produtos_add),
     (''/api/produtos/del'', Produtos_del), (''/api/carrinho/add'', Carrinho_add),
     (''/api/carrinho/del'', Carrinho_del), (''/api/carrinho/lista'', Carrinho_lista)]"

text \<open>The conditions of the chain, tested in order.\<close>

fun select_route :: "bytes \<Rightarrow> (string \<times> route) list \<Rightarrow> route option option" where
  "select_route path [] = Some None"
| "select_route path ((p, r) # rs) = do {
     hit \<leftarrow> starts_with path p;
     if hit then Some (Some r) else select_route path rs }"

text \<open>\<^verbatim>\<open>/api/session/check\<close> is recognised but has no code of its own and falls through to
  the 404 response.\<close>

definition run_route :: "('db, 'g) env \<Rightarrow> qparser_info \<Rightarrow> route option \<Rightarrow> 'db app \<Rightarrow> 'db reply" where
  "run_route env info r app = (case r of
     Some Produtos_lista \<Rightarrow> produtos_lista env app
   | Some Register \<Rightarrow> register_route env info app
   | Some Login \<Rightarrow> login_route env info app
   | Some Session_check \<Rightarrow> not_found app
   | Some Produtos_add \<Rightarrow> produtos_add env info app
   | Some Produtos_del \<Rightarrow> produtos_del env info app
   | Some Carrinho_add \<Rightarrow> carrinho_add env info app
   | Some Carrinho_del \<Rightarrow> carrinho_del env info app
   | Some Carrinho_lista \<Rightarrow> carrinho_lista env info app
   | None \<Rightarrow> not_found app)"

text \<open>The ten queries on the stack are all overwritten by the initialisation, so their previous
  contents do not matter.\<close>

definition callback :: "('db, 'g) env \<Rightarrow> httpparser_request \<Rightarrow> 'db app \<Rightarrow> 'db reply" where
  "callback env request app = do {
     parse_info \<leftarrow> qparser_init (replicate 10 zero_query) 10;
     path \<leftarrow> req_path request;
     (info, e) \<leftarrow> qparser_parse parse_info path;
     r \<leftarrow> select_route path routes;
     run_route env info r app }"

section \<open>Startup\<close>

text \<open>
  \<^verbatim>\<open>main\<close> up to the accept loop: the exit code of an early return, or the server and
  the state the callback starts from.
\<close>

definition create_tables :: "string list" where
  "create_tables = [
     ''CREATE TABLE IF NOT EXISTS produtos (nome TEXT NOT NULL, tipo TEXT NOT NULL, imagem TEXT NOT NULL, preco INT NOT NULL);'',
     ''CREATE TABLE IF NOT EXISTS usuarios (nome TEXT NOT NULL, email TEXT NOT NULL, senha TEXT NOT NULL);'',
     ''CREATE TABLE IF NOT EXISTS carrinho (usuario TEXT NOT NULL, produto TEXT NOT NULL);'']"

fun run_commands :: "('db, 'g) env \<Rightarrow> string list \<Rightarrow> 'db \<Rightarrow> bool \<times> 'db" where
  "run_commands env [] db = (True, db)"
| "run_commands env (sql # sqls) db =
     (case pq_exec env db sql of (res, db') \<Rightarrow>
        if res = PGRES_COMMAND_OK then run_commands env sqls db' else (False, db'))"

definition main_start ::
  "('db, 'g) env \<Rightarrow> os_init \<Rightarrow> 'db \<Rightarrow> ('d httpserver \<times> 'db app) outcome"
where
  "main_start env os db = (case httpserver_start_server os of
     Exit code \<Rightarrow> Exit code
   | Ret server \<Rightarrow> (case pq_connect env db of (connected, db1) \<Rightarrow>
       if \<not> connected then Exit 1
       else case run_commands env create_tables db1 of (ok, db2) \<Rightarrow>
         if \<not> ok then Exit 1
         else Ret (server, \<lparr>app_sessions = tablec_init 4, app_db = db2, app_open = 0, app_products = 0,
           app_builders = 0, app_draws = 0\<rparr>)))"


text \<open>Whether a notice of the database is printed.\<close>

definition libpq_notice_processor :: "string \<Rightarrow> bool" where
  "libpq_notice_processor message \<longleftrightarrow> \<not> sublist (DQUOTE # ''produtos'' @ DQUOTE # '' already exists'') message"

text \<open>The signal handler stops the server.\<close>

definition handle_sig_int :: "'d world \<Rightarrow> (nat list \<times> server_call list) option" where
  "handle_sig_int w = httpserver_stop_server w"

section \<open>What the parameters of a request are\<close>

definition norm :: "string \<Rightarrow> string" where
  "norm s = map (\<lambda>c. if c = QUOTE then DQUOTE else c) s"

definition unplus :: "string \<Rightarrow> string" where
  "unplus s = map (\<lambda>c. if c = CHR ''+'' then SP else c) s"

lemma normalize_string_norm:
  assumes "NUL \<in> set b"
  shows "\<exists>b'. normalize_string b = Some b' \<and> cstr b' = norm (cstr b) \<and> NUL \<in> set b'"
  using assms
proof (induction b)
  case Nil
  then show ?case by simp
next
  case (Cons c b)
  then show ?case by (cases "c = NUL") (auto simp: cstr_def norm_def)
qed

lemma normalize_query_value_unplus:
  assumes "NUL \<in> set b"
  shows "\<exists>b'. normalize_query_value b = Some b' \<and> cstr b' = unplus (cstr b) \<and> NUL \<in> set b'"
  using assms
proof (induction b)
  case Nil
  then show ?case by simp
next
  case (Cons c b)
  then show ?case by (cases "c = NUL") (auto simp: cstr_def unplus_def)
qed

lemma norm_c_string [simp]: "c_string (norm s) = c_string s" "c_string (unplus s) = c_string s"
  by (auto simp: c_string_def norm_def unplus_def split: if_splits)

lemma norm_no_quote [simp]: "QUOTE \<notin> set (norm s)" "QUOTE \<notin> set (unplus s) \<longleftrightarrow> QUOTE \<notin> set s"
  by (auto simp: norm_def unplus_def)

lemma norm_length [simp]: "length (norm s) = length s" "length (unplus s) = length s"
  by (simp_all add: norm_def unplus_def)

text \<open>\<open>param\<close> is the value of a key among the parsed pairs.\<close>

definition param :: "(string \<times> string) list \<Rightarrow> string \<Rightarrow> string option" where
  "param ps k = map_of ps k"

lemma value_lookup:
  assumes "info_ok info" and "c_string k" and "k \<noteq> []"
  shows "case param (visible info) k of
           None \<Rightarrow> get_value info k = Some None
         | Some v \<Rightarrow> \<exists>b. get_value info k = Some (Some b) \<and> NUL \<in> set b \<and> cstr b = v \<and> length b = 1024"
proof -
  have q: "query_value info k = Some (map_of (visible info) k)"
    using query_value_map_of [OF assms(1,2)] assms(3) by simp
  obtain r where r: "qparser_get_query info (zt k) = Some r"
    using get_query_find [OF assms(1,2)] by blast
  show ?thesis
  proof (cases r)
    case None
    then show ?thesis using q r by (simp add: query_value_def get_value_def param_def)
  next
    case (Some i)
    have "find (matches info k) [0..<queries_length info] = Some i"
      using get_query_find [OF assms(1,2)] r Some by simp
    from find_in_set [OF this] have "i < queries_length info" by simp
    then have "i < length (queries info)" "query_terminated (queries info ! i)" "query_ok (queries info ! i)"
      using assms(1) by (auto simp: info_ok_def list_all_length)
    moreover have "param (visible info) k = Some (cstr (qvalue (queries info ! i)))"
      using q r Some by (simp add: query_value_def param_def)
    ultimately show ?thesis
      using r Some by (simp add: get_value_def query_terminated_def query_ok_def)
  qed
qed

lemma deref_lookup:
  assumes "info_ok info" and "c_string k" and "k \<noteq> []"
  shows "param (visible info) k = None \<Longrightarrow> deref_value info k = None"
    and "param (visible info) k = Some v \<Longrightarrow>
      \<exists>b. deref_value info k = Some b \<and> NUL \<in> set b \<and> cstr b = v"
  using value_lookup [OF assms] by (auto simp: deref_value_def)

lemma any_missing_param:
  assumes "info_ok info" and "list_all (\<lambda>k. c_string k \<and> k \<noteq> []) ks"
  shows "any_missing info ks = Some (\<exists>k\<in>set ks. param (visible info) k = None)"
  using assms(2)
proof (induction ks)
  case Nil
  then show ?case by simp
next
  case (Cons k ks)
  then show ?case
    using value_lookup [OF assms(1), of k] by (cases "param (visible info) k") auto
qed

declare any_missing.simps [simp del]

text \<open>\<open>wrong_password\<close> in terms of the parameters.\<close>

lemma wrong_password_param:
  assumes "info_ok info"
  shows "wrong_password info = Some (param (visible info) ''senha'' \<noteq> Some SENHA)"
proof (cases "param (visible info) ''senha''")
  case None
  then show ?thesis using value_lookup [OF assms, of "''senha''"] by (simp add: wrong_password_def)
next
  case (Some v)
  then obtain b where b: "get_value info ''senha'' = Some (Some b)" "NUL \<in> set b" "cstr b = v"
    using value_lookup [OF assms, of "''senha''"] by auto
  obtain r where r: "b = v @ NUL # r" using cstr_split [OF b(2)] b(3) by auto
  have v: "c_string v" using b(3) by auto
  obtain x where "c_strcmp b (zt SENHA) = Some x" "x = 0 \<longleftrightarrow> v = SENHA"
    using c_strcmp_defined [OF v, of SENHA r "[]"] c_strcmp_eq_0 [OF v, of SENHA r "[]"]
    by (auto simp: r zt_def SENHA_def)
  then show ?thesis using b(1) Some by (simp add: wrong_password_def)
qed


lemma cstr_length_less: "NUL \<in> set b \<Longrightarrow> length (cstr b) < length b"
  by (induction b) (auto simp: cstr_def)

lemma param_bounds:
  assumes "info_ok info" and "c_string k" and "k \<noteq> []" and "param (visible info) k = Some v"
  shows "c_string v \<and> length v < 1024"
proof -
  obtain b where b: "NUL \<in> set b" "cstr b = v" "length b = 1024"
    using value_lookup [OF assms(1-3)] unfolding assms(4) option.case by blast
  show ?thesis using cstr_length_less [OF b(1)] c_string_cstr [of b] unfolding b(2,3) by blast
qed

section \<open>Replies\<close>

lemma reply_cors:
  "100 \<le> st \<Longrightarrow> st < 1000 \<Longrightarrow> reply app (cors_response st) = Some (Ret (app, [map Some (response_text (cors_response st))]))"
  by (simp add: reply_def send_response_exact response_ok_def cors_response_def)

lemma json_response_ok:
  "100 \<le> st \<Longrightarrow> st < 1000 \<Longrightarrow> c_string l \<Longrightarrow> 0 < n \<Longrightarrow> n \<le> length body \<Longrightarrow> response_ok (json_response st l body n)"
  by (simp add: response_ok_def json_response_def)

lemma reply_ok: "response_ok r \<Longrightarrow> reply app r = Some (Ret (app, [map Some (response_text r)]))"
  by (simp add: reply_def send_response_exact)

text \<open>The result of a statement as the routes see it, without the bookkeeping.\<close>

definition sql_result :: "('db, 'g) env \<Rightarrow> bool \<Rightarrow> string \<Rightarrow> 'db \<Rightarrow> 'db \<times> (int + string list list)" where
  "sql_result env want_tuples sql db = (case pq_connect env db of (connected, db1) \<Rightarrow>
     if \<not> connected then (db1, Inl 500)
     else case pq_exec env db1 sql of (res, db2) \<Rightarrow>
       (db2, case res of
          PGRES_TUPLES_OK rows \<Rightarrow> if want_tuples then Inr rows else Inl 400
        | PGRES_COMMAND_OK \<Rightarrow> if want_tuples then Inl 400 else Inr []
        | PGRES_ERROR \<Rightarrow> Inl 400))"

lemma run_sql_result:
  "run_sql env want_tuples sql app = (case sql_result env want_tuples sql (app_db app) of
     (db, Inl st) \<Rightarrow> (app\<lparr>app_db := db\<rparr>, Inl st)
   | (db, Inr rows) \<Rightarrow> (app\<lparr>app_db := db, app_open := app_open app + 2\<rparr>, Inr rows))"
  by (auto simp: run_sql_def sql_result_def Let_def split: prod.splits pq_result.splits)

lemma sql_status: "sql_result env want_tuples sql db = (db', Inl st) \<Longrightarrow> st = 500 \<or> st = 400"
  by (auto simp: sql_result_def split: prod.splits pq_result.splits if_splits)

lemma pq_done_open:
  "pq_done (app\<lparr>app_db := db, app_open := app_open app + 2\<rparr>) = app\<lparr>app_db := db\<rparr>"
  "pq_done (app\<lparr>app_db := db, app_open := Suc (Suc (app_open app))\<rparr>) = app\<lparr>app_db := db\<rparr>"
  by (simp_all add: pq_done_def)

text \<open>A command route always answers, with 204, 400 or 500, and releases everything.\<close>

lemma command_route_result:
  assumes "response_ok success"
  shows "command_route env sql success app =
    (case sql_result env False sql (app_db app) of
       (db, Inl st) \<Rightarrow> Some (Ret (app\<lparr>app_db := db\<rparr>, [map Some (response_text (cors_response st))]))
     | (db, Inr rows) \<Rightarrow> Some (Ret (app\<lparr>app_db := db\<rparr>, [map Some (response_text success)])))"
proof -
  have "reply a (cors_response st) = Some (Ret (a, [map Some (response_text (cors_response st))]))"
    if "sql_result env False sql (app_db app) = (db, Inl st)" for db st and a :: "'a app"
    using sql_status [OF that] by (auto simp: reply_cors)
  then show ?thesis
    by (auto simp: command_route_def run_sql_result pq_done_open reply_ok [OF assms]
        split: prod.splits sum.splits)
qed

section \<open>Routing\<close>

lemma starts_with_prefix:
  "c_string s \<Longrightarrow> c_string p \<Longrightarrow> starts_with (s @ NUL # r) p = Some (prefix p s)"
  using c_strncmp_prefix [of s p r "[]"] c_strncmp_defined [of s p r "[]"]
  by (auto simp: starts_with_def zt_def)

fun route_spec :: "string \<Rightarrow> (string \<times> route) list \<Rightarrow> route option" where
  "route_spec s [] = None"
| "route_spec s ((p, r) # rs) = (if prefix p s then Some r else route_spec s rs)"

lemma select_route_spec:
  "c_string s \<Longrightarrow> list_all (\<lambda>(p, r). c_string p) rs \<Longrightarrow> select_route (s @ NUL # t) rs = Some (route_spec s rs)"
  by (induction rs) (auto simp: starts_with_prefix)

lemma routes_plain: "list_all (\<lambda>(p, r). c_string p) routes"
  by (simp add: routes_def)

text \<open>The callback on a terminated path: the query part is parsed, the route selected.\<close>

lemma callback_result:
  assumes "req_path request = Some (s @ NUL # t)" and "c_string s"
    and "qparser_parse ten_queries (s @ NUL # t) = Some (info, e)"
  shows "info_ok info" and "callback env request app = run_route env info (route_spec s routes) app"
  using assms select_route_spec [OF assms(2) routes_plain]
    parse_info_ok [OF ten_queries_init _ assms(3)]
  by (simp_all add: callback_def ten_queries_init)

text \<open>A URL of a path and parameters, and the parameters the handlers see for it.\<close>

definition url :: "string \<Rightarrow> (string \<times> string) list \<Rightarrow> string" where
  "url path ps = path @ (if ps = [] then [] else ''?'' @ render_pairs ps)"

definition good_url :: "string \<Rightarrow> (string \<times> string) list \<Rightarrow> bool" where
  "good_url path ps \<longleftrightarrow> plain path \<and> list_all good_pair ps \<and> length ps \<le> 10"

lemma render_pairs_c_string: "list_all good_pair ps \<Longrightarrow> c_string (render_pairs ps)"
  by (induction ps rule: render_pairs.induct) (auto simp: good_pair_def plain_c_string)

lemma url_c_string: "good_url path ps \<Longrightarrow> c_string (url path ps)"
  by (auto simp: good_url_def url_def plain_c_string render_pairs_c_string)

lemma url_parsed:
  assumes "good_url path ps"
  obtains info where "qparser_parse ten_queries (url path ps @ NUL # t) = Some (info, QP_Done)"
    "visible info = ps" "info_ok info"
proof (cases "ps = []")
  case True
  then show ?thesis
    using that parse_no_query [OF ten_queries_init, of path t] parse_info_ok [OF ten_queries_init] assms
    by (auto simp: url_def good_url_def)
next
  case False
  then show ?thesis
    using that parse_pairs [OF ten_queries_init, of path ps t] parse_info_ok [OF ten_queries_init] assms
    by (fastforce simp: url_def good_url_def)
qed

lemma callback_url:
  assumes "req_path request = Some (zt (url path ps))" and "good_url path ps"
  obtains info where "info_ok info" "visible info = ps"
    "callback env request app = run_route env info (route_spec (url path ps) routes) app"
proof -
  obtain info where i: "qparser_parse ten_queries (url path ps @ NUL # []) = Some (info, QP_Done)"
      "visible info = ps" "info_ok info"
    by (rule url_parsed [OF assms(2)])
  show ?thesis
    by (rule that [OF i(3,2)])
       (rule callback_result(2) [OF _ url_c_string [OF assms(2)] i(1)], use assms(1) in \<open>simp add: zt_def\<close>)
qed


section \<open>The routes on parameters\<close>

lemma deref_norm:
  assumes "info_ok info" and "c_string k" and "k \<noteq> []" and "param (visible info) k = Some v"
  obtains b b1 where "deref_value info k = Some b" "normalize_string b = Some b1" "cstr b1 = norm v" "NUL \<in> set b1"
proof -
  obtain b where b: "deref_value info k = Some b" "NUL \<in> set b" "cstr b = v"
    using deref_lookup(2) [OF assms(1-3), of v] assms(4) by auto
  obtain b1 where "normalize_string b = Some b1" "cstr b1 = norm (cstr b)" "NUL \<in> set b1"
    using normalize_string_norm [OF b(2)] by auto
  then show ?thesis using that b by simp
qed

lemma deref_norm_unplus:
  assumes "info_ok info" and "c_string k" and "k \<noteq> []" and "param (visible info) k = Some v"
  obtains b b1 b2 where "deref_value info k = Some b" "normalize_string b = Some b1"
    "normalize_query_value b1 = Some b2" "cstr b2 = unplus (norm v)"
proof -
  obtain b b1 where b: "deref_value info k = Some b" "normalize_string b = Some b1" "cstr b1 = norm v" "NUL \<in> set b1"
    by (rule deref_norm [OF assms])
  obtain b2 where "normalize_query_value b1 = Some b2" "cstr b2 = unplus (cstr b1)"
    using normalize_query_value_unplus [OF b(4)] by auto
  then show ?thesis using that b by simp
qed

lemma register_result:
  assumes "info_ok info"
  shows "register_route env info app =
    (if param (visible info) ''name'' = None \<or> param (visible info) ''email'' = None
        \<or> param (visible info) ''password'' = None
     then reply app (cors_response 400)
     else command_route env (register_sql (norm (the (param (visible info) ''name'')))
            (norm (the (param (visible info) ''email''))) (norm (the (param (visible info) ''password''))))
            (cors_response 204) app)"
proof (cases "param (visible info) ''name'' = None \<or> param (visible info) ''email'' = None
        \<or> param (visible info) ''password'' = None")
  case True
  then show ?thesis by (auto simp: register_route_def any_missing_param [OF assms])
next
  case False
  then obtain n e p where v: "param (visible info) ''name'' = Some n" "param (visible info) ''email'' = Some e"
      "param (visible info) ''password'' = Some p" by auto
  obtain b1 b1' where 1: "deref_value info ''name'' = Some b1" "normalize_string b1 = Some b1'" "cstr b1' = norm n"
    by (rule deref_norm [OF assms _ _ v(1)]) auto
  obtain b2 b2' where 2: "deref_value info ''email'' = Some b2" "normalize_string b2 = Some b2'" "cstr b2' = norm e"
    by (rule deref_norm [OF assms _ _ v(2)]) auto
  obtain b3 b3' where 3: "deref_value info ''password'' = Some b3" "normalize_string b3 = Some b3'" "cstr b3' = norm p"
    by (rule deref_norm [OF assms _ _ v(3)]) auto
  show ?thesis using 1 2 3 v by (simp add: register_route_def any_missing_param [OF assms])
qed

lemma produtos_del_result:
  assumes "info_ok info"
  shows "produtos_del env info app =
    (if param (visible info) ''nome'' = None then reply app (cors_response 400)
     else if param (visible info) ''senha'' \<noteq> Some SENHA then reply app (cors_response 403)
     else command_route env (del_sql (unplus (norm (the (param (visible info) ''nome'')))))
            ((cors_response 204)\<lparr>rs_headers_length := 0\<rparr>) app)"
proof (cases "param (visible info) ''nome''")
  case None
  then show ?thesis by (simp add: produtos_del_def any_missing_param [OF assms])
next
  case (Some n)
  obtain b b1 b2 where "deref_value info ''nome'' = Some b" "normalize_string b = Some b1"
    "normalize_query_value b1 = Some b2" "cstr b2 = unplus (norm n)"
    by (rule deref_norm_unplus [OF assms _ _ Some]) auto
  then show ?thesis using Some
    by (simp add: produtos_del_def any_missing_param [OF assms] wrong_password_param [OF assms])
qed

lemma session_user_lookup:
  assumes "NUL \<in> set b"
  shows "session_user app b = table_lookup (app_sessions app) (cstr b)"
  using assms by (simp add: session_user_def table_lookup_def)

lemma cart_command_lookup:
  assumes "info_ok info"
  shows "cart_command sql env info app = (case param (visible info) ''produto'' of
      None \<Rightarrow> reply app (cors_response 400)
    | Some p \<Rightarrow> (case param (visible info) ''session'' of
        None \<Rightarrow> None
      | Some s \<Rightarrow> do {
          r \<leftarrow> table_lookup (app_sessions app) s;
          case r of
            None \<Rightarrow> reply app (cors_response 403)
          | Some user \<Rightarrow> (case user of None \<Rightarrow> None
              | Some u \<Rightarrow> command_route env (sql u (unplus (norm p))) (cors_response 204) app) }))"
proof (cases "param (visible info) ''produto''")
  case None
  then show ?thesis by (simp add: cart_command_def any_missing_param [OF assms])
next
  case (Some p)
  obtain b b1 b2 where b: "deref_value info ''produto'' = Some b" "normalize_string b = Some b1"
    "normalize_query_value b1 = Some b2" "cstr b2 = unplus (norm p)"
    by (rule deref_norm_unplus [OF assms _ _ Some]) auto
  show ?thesis
  proof (cases "param (visible info) ''session''")
    case None
    then show ?thesis using Some b deref_lookup(1) [OF assms, of "''session''"]
      by (simp add: cart_command_def any_missing_param [OF assms])
  next
    case (Some s)
    obtain v where v: "deref_value info ''session'' = Some v" "NUL \<in> set v" "cstr v = s"
      using deref_lookup(2) [OF assms, of "''session''" s] Some by auto
    show ?thesis
      using Some \<open>param (visible info) ''produto'' = Some p\<close> b v
      by (cases "table_lookup (app_sessions app) s")
        (simp_all add: cart_command_def any_missing_param [OF assms] session_user_lookup [OF v(2)] split: option.split)
  qed
qed

lemma cart_command_result:
  assumes "info_ok info" and "table_ok (app_sessions app)"
  shows "cart_command sql env info app = (case param (visible info) ''produto'' of
      None \<Rightarrow> reply app (cors_response 400)
    | Some p \<Rightarrow> (case param (visible info) ''session'' of
        None \<Rightarrow> None
      | Some s \<Rightarrow> (case table_map (app_sessions app) s of
          None \<Rightarrow> reply app (cors_response 403)
        | Some user \<Rightarrow> (case user of None \<Rightarrow> None
            | Some u \<Rightarrow> command_route env (sql u (unplus (norm p))) (cors_response 204) app))))"
  by (simp add: cart_command_lookup [OF assms(1)] table_lookup_map [OF assms(2)] split: option.split)

text \<open>The result of a statement that opens a session.\<close>

lemma login_result:
  assumes "info_ok info" and "table_ok (app_sessions app)"
    and "param (visible info) ''email'' = Some e" and "param (visible info) ''password'' = Some p"
    and "env_getrandom env (app_draws app) = Some seed"
    and "sql_result env True (login_sql (norm e) (norm p)) (app_db app) = (db, Inr rows)" and "rows \<noteq> []"
    and "table_map (app_sessions app) (session_id (env_srand env) (env_rand env) seed) = None"
  obtains sessions where "login_route env info app =
      reply (app\<lparr>app_db := db, app_sessions := sessions, app_draws := app_draws app + 1\<rparr>)
        (json_response 200 ''16'' (session_id (env_srand env) (env_rand env) seed @ [NUL]) 16)"
    "table_ok sessions"
    "table_map sessions = (table_map (app_sessions app))
       (session_id (env_srand env) (env_rand env) seed \<mapsto> Some (norm e))"
proof -
  let ?id = "session_id (env_srand env) (env_rand env) seed"
  obtain b1 b1' where 1: "deref_value info ''email'' = Some b1" "normalize_string b1 = Some b1'" "cstr b1' = norm e"
    by (rule deref_norm [OF assms(1) _ _ assms(3)]) auto
  obtain b2 b2' where 2: "deref_value info ''password'' = Some b2" "normalize_string b2 = Some b2'" "cstr b2' = norm p"
    by (rule deref_norm [OF assms(1) _ _ assms(4)]) auto
  have id: "cstr (?id @ [NUL]) = ?id"
    using session_id_chars [of "env_srand env" "env_rand env" seed] id_char_plain
    by (intro cstr_append_NUL) (auto simp: c_string_def id_char_def characters_def)
  have gen: "frequenc_generate_session_id (Some seed) (env_srand env) (env_rand env) (replicate 17 NUL) =
      Some (Ret (?id @ [NUL]))"
    using session_id_result [of "replicate 17 NUL" seed "env_srand env" "env_rand env"] by simp
  obtain sessions where s: "tablec_set (app_sessions app) ?id (Some (norm e)) = Some sessions" "table_ok sessions"
      "table_map sessions = (table_map (app_sessions app))(?id \<mapsto> Some (norm e))"
    by (rule set_fresh [OF assms(2,8)])
  have "login_route env info app = reply (app\<lparr>app_db := db, app_sessions := sessions, app_draws := app_draws app + 1\<rparr>) (json_response 200 ''16'' (?id @ [NUL]) 16)"
    using 1 2 assms(3-7) gen id s(1)
    by (simp add: login_route_def any_missing_param [OF assms(1)] run_sql_result pq_done_open)
  then show ?thesis using that s(2,3) by blast
qed

text \<open>The outcome of one statement followed by one of two responses.\<close>

definition after_command ::
  "('db, 'g) env \<Rightarrow> string \<Rightarrow> httpserver_response \<Rightarrow> 'db app \<Rightarrow> 'db reply"
where
  "after_command env sql success app = (case sql_result env False sql (app_db app) of (db, r) \<Rightarrow>
     Some (Ret (app\<lparr>app_db := db\<rparr>,
       [map Some (response_text (case r of Inl st \<Rightarrow> cors_response st | Inr rows \<Rightarrow> success))])))"

lemma command_route_after: "response_ok success \<Longrightarrow> command_route env sql success app = after_command env sql success app"
  by (auto simp: command_route_result after_command_def split: prod.splits sum.splits)

lemma cors_response_ok [simp]: "100 \<le> st \<Longrightarrow> st < 1000 \<Longrightarrow> response_ok (cors_response st)"
  by (simp add: response_ok_def cors_response_def)

lemma bare_response_ok [simp]: "response_ok ((cors_response 204)\<lparr>rs_headers_length := 0\<rparr>)"
  by (simp add: response_ok_def cors_response_def)

lemma callback_run:
  assumes "req_path request = Some (zt (url path ps))" and "good_url path ps"
    and "route_spec (url path ps) routes = r"
  shows "\<exists>info. info_ok info \<and> visible info = ps \<and> callback env request app = run_route env info r app"
proof -
  obtain info where "info_ok info" "visible info = ps"
    "callback env request app = run_route env info (route_spec (url path ps) routes) app"
    by (rule callback_url [OF assms(1,2)])
  then show ?thesis using assms(3) by auto
qed

lemma route_table:
  "route_spec (url ''/api/produtos/lista'' ps) routes = Some Produtos_lista"
  "route_spec (url ''/api/register'' ps) routes = Some Register"
  "route_spec (url ''/api/login'' ps) routes = Some Login"
  "route_spec (url ''/api/session/check'' ps) routes = Some Session_check"
  "route_spec (url ''/api/produtos/add'' ps) routes = Some Produtos_add"
  "route_spec (url ''/api/produtos/del'' ps) routes = Some Produtos_del"
  "route_spec (url ''/api/carrinho/add'' ps) routes = Some Carrinho_add"
  "route_spec (url ''/api/carrinho/del'' ps) routes = Some Carrinho_del"
  "route_spec (url ''/api/carrinho/lista'' ps) routes = Some Carrinho_lista"
  by (simp_all add: url_def routes_def)

lemma carrinho_lista_lookup:
  assumes "info_ok info"
  shows "carrinho_lista env info app = (case param (visible info) ''session'' of
        None \<Rightarrow> None
      | Some s \<Rightarrow> do { r \<leftarrow> table_lookup (app_sessions app) s; case r of
          None \<Rightarrow> reply app (cors_response 403)
        | Some user \<Rightarrow> (case user of None \<Rightarrow> None
            | Some u \<Rightarrow> (case sql_result env True (cart_list_sql u) (app_db app) of
                (db, Inl st) \<Rightarrow> reply (app\<lparr>app_db := db\<rparr>) (cors_response st)
              | (db, Inr rows) \<Rightarrow> do {
                  (app1, b) \<leftarrow> cart_rows env rows (builder_new (app\<lparr>app_db := db, app_open := app_open app + 2\<rparr>))
                    (pjsonb_init PJSONB_ARRAY);
                  send_list (pq_done app1) b })) })"
proof (cases "param (visible info) ''session''")
  case None
  then show ?thesis using deref_lookup(1) [OF assms, of "''session''"] by (simp add: carrinho_lista_def)
next
  case (Some s)
  obtain v where v: "deref_value info ''session'' = Some v" "NUL \<in> set v" "cstr v = s"
    using deref_lookup(2) [OF assms, of "''session''" s] Some by auto
  show ?thesis
    using Some v
    by (cases "table_lookup (app_sessions app) s")
      (simp_all add: carrinho_lista_def session_user_lookup [OF v(2)] run_sql_result split: option.split prod.split sum.split)
qed

lemma carrinho_lista_result:
  assumes "info_ok info" and "table_ok (app_sessions app)"
  shows "carrinho_lista env info app = (case param (visible info) ''session'' of
        None \<Rightarrow> None
      | Some s \<Rightarrow> (case table_map (app_sessions app) s of
          None \<Rightarrow> reply app (cors_response 403)
        | Some user \<Rightarrow> (case user of None \<Rightarrow> None
            | Some u \<Rightarrow> (case sql_result env True (cart_list_sql u) (app_db app) of
                (db, Inl st) \<Rightarrow> reply (app\<lparr>app_db := db\<rparr>) (cors_response st)
              | (db, Inr rows) \<Rightarrow> do {
                  (app1, b) \<leftarrow> cart_rows env rows (builder_new (app\<lparr>app_db := db, app_open := app_open app + 2\<rparr>))
                    (pjsonb_init PJSONB_ARRAY);
                  send_list (pq_done app1) b }))))"
  by (simp add: carrinho_lista_lookup [OF assms(1)] table_lookup_map [OF assms(2)] split: option.split)

lemma produtos_add_result:
  assumes "info_ok info"
  shows "produtos_add env info app =
    (if param (visible info) ''nome'' = None \<or> param (visible info) ''tipo'' = None
        \<or> param (visible info) ''imagem'' = None \<or> param (visible info) ''preco'' = None
     then reply app (cors_response 400)
     else if param (visible info) ''senha'' \<noteq> Some SENHA then reply app (cors_response 403)
     else do {
       preco \<leftarrow> c_atoi (the (deref_value info ''preco''));
       if preco = 0 then reply app (cors_response 400)
       else command_route env (add_sql (unplus (norm (the (param (visible info) ''nome''))))
              (norm (the (param (visible info) ''tipo''))) (norm (the (param (visible info) ''imagem''))) preco)
              (cors_response 204) app })"
proof (cases "param (visible info) ''nome'' = None \<or> param (visible info) ''tipo'' = None
        \<or> param (visible info) ''imagem'' = None \<or> param (visible info) ''preco'' = None")
  case True
  then show ?thesis by (auto simp: produtos_add_def any_missing_param [OF assms])
next
  case False
  then obtain n t i p where v: "param (visible info) ''nome'' = Some n" "param (visible info) ''tipo'' = Some t"
      "param (visible info) ''imagem'' = Some i" "param (visible info) ''preco'' = Some p" by auto
  obtain b1 b1' b1'' where 1: "deref_value info ''nome'' = Some b1" "normalize_string b1 = Some b1'"
      "normalize_query_value b1' = Some b1''" "cstr b1'' = unplus (norm n)"
    by (rule deref_norm_unplus [OF assms _ _ v(1)]) auto
  obtain b2 b2' where 2: "deref_value info ''tipo'' = Some b2" "normalize_string b2 = Some b2'" "cstr b2' = norm t"
    by (rule deref_norm [OF assms _ _ v(2)]) auto
  obtain b3 b3' where 3: "deref_value info ''imagem'' = Some b3" "normalize_string b3 = Some b3'" "cstr b3' = norm i"
    by (rule deref_norm [OF assms _ _ v(3)]) auto
  obtain b4 where 4: "deref_value info ''preco'' = Some b4"
    using deref_lookup(2) [OF assms, of "''preco''" p] v(4) by auto
  show ?thesis using 1 2 3 4 v
    by (simp add: produtos_add_def any_missing_param [OF assms] wrong_password_param [OF assms] cong: if_cong)
qed

end
