(* ===== verification/Shop.thy ===== *)
theory Shop
  imports Main_App
begin

text \<open>
  What a request to the shop does, from its URL to the response and the new state: the
  theorems about \<^verbatim>\<open>callback\<close> in \<^verbatim>\<open>server/main.c\<close> and about sequences
  of requests. A request is given by its path, a URL of a path and parameters that the query
  parser accepts. The response is the text that goes out on the socket. \<open>demo_env\<close>,
  \<open>demo_app\<close> and \<open>demo_request\<close> are the instances used by the witnesses: a
  database that answers every statement and keeps a log of them.
\<close>

section \<open>Prices\<close>

lemma is_space_NUL [simp]: "\<not> is_space NUL" and is_digit_NUL [simp]: "\<not> is_digit NUL"
  by (simp_all add: is_space_def is_digit_def)

lemma scan_digits_cstr: "NUL \<in> set b \<Longrightarrow> scan_digits n b = scan_digits n (zt (cstr b))"
  by (induction b arbitrary: n) (auto simp: cstr_def zt_def)

lemma c_atoi_cstr:
  assumes "NUL \<in> set b"
  shows "c_atoi b = c_atoi (zt (cstr b))"
  using assms
proof (induction b)
  case Nil
  then show ?case by simp
next
  case (Cons c b)
  show ?case
  proof (cases "is_space c")
    case True
    then have "c \<noteq> NUL" by auto
    then show ?thesis using Cons True by (simp add: c_atoi_def cstr_def zt_def)
  next
    case False
    show ?thesis
    proof (cases "c = NUL")
      case True
      then show ?thesis using False by (simp add: c_atoi_def cstr_def zt_def)
    next
      case c: False
      then have b: "NUL \<in> set b" using Cons.prems by simp
      have "zt (cstr (c # b)) = c # zt (cstr b)" using c by (simp add: cstr_def zt_def)
      then show ?thesis
        using False scan_digits_cstr [OF b, of 0] scan_digits_cstr [OF b, of "digit_val c"]
        by (simp add: c_atoi_def)
    qed
  qed
qed

lemma deref_price:
  assumes "info_ok info" and "param (visible info) ''preco'' = Some p"
  shows "c_atoi (the (deref_value info ''preco'')) = c_atoi (zt p)"
proof -
  obtain b where b: "deref_value info ''preco'' = Some b" "NUL \<in> set b" "cstr b = p"
    using deref_lookup(2) [OF assms(1), of "''preco''" p] assms(2) by auto
  show ?thesis unfolding b(1) option.sel c_atoi_cstr [OF b(2)] b(3) by (rule refl)
qed

section \<open>Concrete instances\<close>

definition demo_exec :: "string list \<Rightarrow> string \<Rightarrow> pq_result \<times> string list" where
  "demo_exec db sql = (if prefix ''SELECT * FROM usuarios'' sql then PGRES_TUPLES_OK [[''Ana'', ''u@x'', ''p'']]
     else if prefix ''SELECT * FROM carrinho'' sql then PGRES_TUPLES_OK [[''u@x'', ''Bolo'']]
     else if prefix ''SELECT * FROM produtos'' sql then PGRES_TUPLES_OK [[''Bolo'', ''doce'', ''/b.png'', ''20'']]
     else PGRES_COMMAND_OK, sql # db)"

definition demo_env :: "(string list, nat) env" where
  "demo_env = \<lparr>pq_connect = Pair True, pq_exec = demo_exec, env_getrandom = (\<lambda>n. Some (word_of_nat (n + 5))),
     env_srand = (\<lambda>s. unat s - 5), env_rand = (\<lambda>g. (g, g + 1))\<rparr>"

definition demo_app :: "string list app" where
  "demo_app = \<lparr>app_sessions = the (tablec_set (tablec_init 4) ''abc'' (Some ''u@x'')), app_db = [],
     app_open = 0, app_products = 0, app_builders = 0, app_draws = 0\<rparr>"

definition demo_request :: "string \<Rightarrow> httpparser_request" where
  "demo_request path = request_30\<lparr>req_path := Some (zt path)\<rparr>"

lemma demo_request_path [simp]: "req_path (demo_request p) = Some (zt p)"
  by (simp add: demo_request_def)

lemma demo_sessions: "table_ok (app_sessions demo_app)" "table_map (app_sessions demo_app) = [''abc'' \<mapsto> Some ''u@x'']"
proof -
  have "table_map (tablec_init 4 :: string tablec_ht) = Map.empty" by (rule init_map) simp
  moreover obtain t where "tablec_set (tablec_init 4) ''abc'' (Some ''u@x'') = Some t" "table_ok t"
      "table_map t = (table_map (tablec_init 4))(''abc'' \<mapsto> Some ''u@x'')"
    by (rule set_fresh [of "tablec_init 4" "''abc''" "Some ''u@x''"]) (auto simp: init_ok init_map)
  ultimately show "table_ok (app_sessions demo_app)" "table_map (app_sessions demo_app) = [''abc'' \<mapsto> Some ''u@x'']"
    by (simp_all add: demo_app_def)
qed

lemma good_url_simps: "good_url path ps \<longleftrightarrow> plain path \<and> list_all good_pair ps \<and> length ps \<le> 10"
  by (simp add: good_url_def)

lemmas demo = demo_sessions good_url_simps good_pair_def param_def

section \<open>Access\<close>

lemma cart_unknown_session_result:
  assumes "req_path request = Some (zt (url path ps))" and "good_url path ps"
    and "path = ''/api/carrinho/lista'' \<or> path \<in> {''/api/carrinho/add'', ''/api/carrinho/del''} \<and> param ps ''produto'' \<noteq> None"
    and "table_ok (app_sessions app)" and "param ps ''session'' = Some s" and "table_map (app_sessions app) s = None"
  shows "callback env request app = Some (Ret (app, [map Some (response_text (cors_response 403))]))"
proof -
  note run = callback_run [OF assms(1,2), where env = env and app = app]
  from assms(3) consider (l) "path = ''/api/carrinho/lista''"
    | (a) p where "path = ''/api/carrinho/add''" "param ps ''produto'' = Some p"
    | (d) p where "path = ''/api/carrinho/del''" "param ps ''produto'' = Some p" by auto
  then show ?thesis
  proof cases
    case l
    then show ?thesis using run [unfolded l, OF route_table(9)] assms(4-6)
      by (auto simp: run_route_def carrinho_lista_result reply_cors)
  next
    case a
    then show ?thesis using run [unfolded a(1), OF route_table(7)] assms(4-6)
      by (auto simp: run_route_def carrinho_add_def cart_command_result reply_cors)
  next
    case d
    then show ?thesis using run [unfolded d(1), OF route_table(8)] assms(4-6)
      by (auto simp: run_route_def carrinho_del_def cart_command_result reply_cors)
  qed
qed

text \<open>A cart request (\<open>add\<close>, \<open>del\<close> or \<open>lista\<close>) whose session is not in
  the table is answered 403 and changes nothing: no session, no statement sent to the
  database, no object of libpq or product left allocated.\<close>
theorem cart_unknown_session:
  assumes "req_path request = Some (zt (url path ps))" and "good_url path ps"
    and "path = ''/api/carrinho/lista'' \<or> path \<in> {''/api/carrinho/add'', ''/api/carrinho/del''} \<and> param ps ''produto'' \<noteq> None"
    and "table_ok (app_sessions app)" and "param ps ''session'' = Some s" and "table_map (app_sessions app) s = None"
  shows "callback env request app = Some (Ret (app, [map Some (response_text (cors_response 403))]))"
  by (rule cart_unknown_session_result [OF assms])

theorem cart_unknown_session_witness:
  "callback demo_env (demo_request (url ''/api/carrinho/add'' [(''produto'', ''Bolo''), (''session'', ''xyz'')])) demo_app =
     Some (Ret (demo_app, [map Some (response_text (cors_response 403))]))"
  by (rule cart_unknown_session [OF demo_request_path, where s = "''xyz''"]) (simp_all add: demo)

text \<open>A cart request without a session parameter does not get an answer: the
  result of the lookup is dereferenced without a check, and the null pointer traps.\<close>
theorem cart_missing_session_traps:
  assumes "req_path request = Some (zt (url path ps))" and "good_url path ps"
    and "path = ''/api/carrinho/lista'' \<or> path \<in> {''/api/carrinho/add'', ''/api/carrinho/del''} \<and> param ps ''produto'' \<noteq> None"
    and "table_ok (app_sessions app)" and "param ps ''session'' = None"
  shows "callback env request app = None"
proof -
  note run = callback_run [OF assms(1,2), where env = env and app = app]
  from assms(3) consider (l) "path = ''/api/carrinho/lista''"
    | (a) p where "path = ''/api/carrinho/add''" "param ps ''produto'' = Some p"
    | (d) p where "path = ''/api/carrinho/del''" "param ps ''produto'' = Some p" by auto
  then show ?thesis
  proof cases
    case l
    then show ?thesis using run [unfolded l, OF route_table(9)] assms(4-5)
      by (auto simp: run_route_def carrinho_lista_result)
  next
    case a
    then show ?thesis using run [unfolded a(1), OF route_table(7)] assms(4-5)
      by (auto simp: run_route_def carrinho_add_def cart_command_result)
  next
    case d
    then show ?thesis using run [unfolded d(1), OF route_table(8)] assms(4-5)
      by (auto simp: run_route_def carrinho_del_def cart_command_result)
  qed
qed

theorem cart_missing_session_traps_witness:
  "callback demo_env (demo_request (url ''/api/carrinho/del'' [(''produto'', ''Bolo'')])) demo_app = None"
  by (rule cart_missing_session_traps [OF demo_request_path]) (simp_all add: demo)

text \<open>The parameters that the two routes for products insist on.\<close>

definition product_params :: "route \<Rightarrow> string set" where
  "product_params r = (if r = Produtos_add then {''nome'', ''tipo'', ''imagem'', ''preco''} else {''nome''})"

text \<open>C13: The two routes that change the products do nothing without the shop's password. Whatever the
  request is, also one with a longer path or a malformed query, if its path selects one of
  the two routes and the query that was parsed gives \<open>senha\<close> another value or none, it is
  answered: with 400 if a parameter of the route is missing, otherwise with 403. Nothing else
  happens, no statement is sent to the database.\<close>
theorem shop_password:
  assumes "req_path request = Some path" and "select_route path routes = Some (Some r)"
    and "r \<in> {Produtos_add, Produtos_del}" and "qparser_parse ten_queries path = Some (info, e)"
    and "param (visible info) ''senha'' \<noteq> Some SENHA"
  shows "callback env request app = Some (Ret (app, [map Some (response_text (cors_response
    (if \<exists>k\<in>product_params r. param (visible info) k = None then 400 else 403)))]))"
proof -
  have info: "info_ok info" by (rule parse_info_ok [OF ten_queries_init _ assms(4)]) simp
  have run: "callback env request app = run_route env info (Some r) app"
    using assms(1,2,4) by (simp add: callback_def ten_queries_init)
  show ?thesis
    using assms(3,5) unfolding run
    by (auto simp: run_route_def product_params_def produtos_add_result [OF info] produtos_del_result [OF info] reply_cors)
qed

theorem shop_password_witness:
  "callback demo_env (demo_request ''/api/produtos/deletar?nome=Bolo&senha=guess'') demo_app =
     Some (Ret (demo_app, [map Some (response_text (cors_response 403))]))"
proof -
  let ?ps = "[(''nome'', ''Bolo''), (''senha'', ''guess'')]" let ?u = "''/api/produtos/deletar?nome=Bolo&senha=guess''"
  have u: "url ''/api/produtos/deletar'' ?ps = ?u" "good_url ''/api/produtos/deletar'' ?ps" by (simp_all add: url_def demo)
  obtain info where i: "qparser_parse ten_queries (zt ?u) = Some (info, QP_Done)" "visible info = ?ps"
    using url_parsed [OF u(2), of "[]"] unfolding u(1) zt_def by metis
  have r: "select_route (zt ?u) routes = Some (Some Produtos_del)" by code_simp
  show ?thesis
    using shop_password [OF demo_request_path r _ i(1)] by (simp add: i(2) param_def product_params_def SENHA_def)
qed

section \<open>Statements sent to the database\<close>

definition sql_quoted :: "string \<Rightarrow> string" where
  "sql_quoted s = [QUOTE] @ s @ [QUOTE]"

definition quotes :: "string \<Rightarrow> nat" where
  "quotes s = length (filter (\<lambda>c. c = QUOTE) s)"

lemma quotes_simps [simp]:
  "quotes [] = 0" "quotes (c # s) = (if c = QUOTE then Suc (quotes s) else quotes s)"
  "quotes (s @ t) = quotes s + quotes t" "quotes (sql_quoted s) = quotes s + 2"
  by (simp_all add: quotes_def sql_quoted_def)

lemma quotes_0: "quotes s = 0 \<longleftrightarrow> QUOTE \<notin> set s"
  by (auto simp: quotes_def filter_empty_conv)

lemma quotes_norm [simp]: "quotes (norm s) = 0" "quotes (unplus (norm s)) = 0"
  by (simp_all add: quotes_0)

lemma quotes_show_int [simp]: "quotes (show_int i) = 0"
proof -
  have "QUOTE \<notin> set (show_nat n)" for n
    using show_nat_digits [of n] by (auto simp: list_all_iff dest: is_digit_facts)
  then show ?thesis by (auto simp: quotes_0 show_int_def)
qed

lemma show_int_length: "in_int i \<Longrightarrow> length (show_int i) \<le> 11"
proof -
  assume "in_int i"
  then have "nat i < 10 ^ 10" "nat (- i) < 10 ^ 10" by (auto simp: in_int_def)
  then have "length (show_nat (nat i)) \<le> 10" "length (show_nat (nat (- i))) \<le> 10"
    by (auto intro: show_nat_length_bound)
  then show "length (show_int i) \<le> 11" by (simp add: show_int_def)
qed



text \<open>With the shop's password and a non-zero price, adding a product sends exactly
  the INSERT of the four normalised parameters, uncut and with the six quotes of its template;
  with a price that reads as zero the answer is 400 and nothing is sent.\<close>
theorem product_statement:
  assumes "req_path request = Some (zt (url ''/api/produtos/add'' ps))" and "good_url ''/api/produtos/add'' ps"
    and "param ps ''nome'' = Some n" and "param ps ''tipo'' = Some t" and "param ps ''imagem'' = Some i"
    and "param ps ''preco'' = Some p" and "param ps ''senha'' = Some SENHA" and "c_atoi (zt p) = Some v"
    and "sql = ''INSERT INTO produtos (nome, tipo, imagem, preco) VALUES ('' @ sql_quoted (unplus (norm n)) @ '', '' @
      sql_quoted (norm t) @ '', '' @ sql_quoted (norm i) @ '', '' @ show_int v @ '');''"
  shows "callback env request app =
      (if v = 0 then Some (Ret (app, [map Some (response_text (cors_response 400))]))
       else after_command env sql (cors_response 204) app) \<and> quotes sql = 6"
proof -
  obtain info where info: "info_ok info" "visible info = ps"
      "callback env request app = run_route env info (Some Produtos_add) app"
    using callback_run [OF assms(1,2) route_table(5), where env = env and app = app] by blast
  have len: "length n < 1024" "length t < 1024" "length i < 1024"
    using param_bounds [OF info(1), of "''nome''" n] param_bounds [OF info(1), of "''tipo''" t]
      param_bounds [OF info(1), of "''imagem''" i] assms(3-5) info(2) by auto
  have "in_int v" using assms(8) by (auto simp: c_atoi_def bind_eq_Some_conv split: if_splits)
  then have "length (show_int v) \<le> 11" by (rule show_int_length)
  then have "add_sql (unplus (norm n)) (norm t) (norm i) v = sql"
    using len by (simp add: add_sql_def assms(9) sql_quoted_def cstr_simps)
  moreover have "c_atoi (the (deref_value info ''preco'')) = Some v"
    using deref_price [OF info(1), of p] assms(6,8) info(2) by simp
  moreover have "quotes sql = 6" by (simp add: assms(9))
  ultimately show ?thesis
    using info assms(3-7) by (simp add: run_route_def produtos_add_result command_route_after reply_cors)
qed

theorem product_statement_witness:
  "callback demo_env (demo_request (url ''/api/produtos/add''
      [(''nome'', ''Bolo+grande''), (''tipo'', ''doce''), (''imagem'', ''/b.png''), (''preco'', ''20''), (''senha'', ''senha'')])) demo_app =
     (if (20::int) = 0 then Some (Ret (demo_app, [map Some (response_text (cors_response 400))]))
      else after_command demo_env (''INSERT INTO produtos (nome, tipo, imagem, preco) VALUES ('' @
        sql_quoted (unplus (norm ''Bolo+grande'')) @ '', '' @ sql_quoted (norm ''doce'') @ '', '' @ sql_quoted (norm ''/b.png'') @
        '', '' @ show_int 20 @ '');'') (cors_response 204) demo_app)"
proof -
  have "c_atoi (zt ''20'') = Some 20" by code_simp
  then show ?thesis
    by (intro product_statement [OF demo_request_path, where p = "''20''", THEN conjunct1]) (simp_all add: demo SENHA_def)
qed

text \<open>Deleting a product, with the right password, sends a statement without a column
  name in its condition (\<open>WHERE='...'\<close>), and the response to a successful one has no
  headers at all, not even the one that lets a browser read it: the handler sets their number
  to zero.\<close>
theorem delete_statement:
  assumes "req_path request = Some (zt (url ''/api/produtos/del'' ps))" and "good_url ''/api/produtos/del'' ps"
    and "param ps ''nome'' = Some n" and "param ps ''senha'' = Some SENHA"
    and "sql = ''DELETE from produtos WHERE='' @ sql_quoted (unplus (norm n)) @ '';''"
    and "sql_result env False sql (app_db app) = (db, Inr rows)"
  shows "callback env request app =
    Some (Ret (app\<lparr>app_db := db\<rparr>, [map Some (''HTTP/1.1 204 No Content'' @ CRLF @ CRLF)]))"
proof -
  obtain info where info: "info_ok info" "visible info = ps"
      "callback env request app = run_route env info (Some Produtos_del) app"
    using callback_run [OF assms(1,2) route_table(6), where env = env and app = app] by blast
  have "length n < 1024" using param_bounds [OF info(1), of "''nome''" n] assms(3) info(2) by auto
  then have "del_sql (unplus (norm n)) = sql"
    by (simp add: del_sql_def assms(5) sql_quoted_def cstr_simps)
  moreover have "response_text ((cors_response 204)\<lparr>rs_headers_length := 0\<rparr>) = ''HTTP/1.1 204 No Content'' @ CRLF @ CRLF"
    by code_simp
  ultimately show ?thesis
    using info assms(3,4,6) by (simp add: run_route_def produtos_del_result command_route_after after_command_def)
qed

theorem delete_statement_witness:
  "callback demo_env (demo_request (url ''/api/produtos/del'' [(''nome'', ''Bolo''), (''senha'', ''senha'')])) demo_app =
    Some (Ret (demo_app\<lparr>app_db := [''DELETE from produtos WHERE='' @ sql_quoted (unplus (norm ''Bolo'')) @ '';'']\<rparr>,
      [map Some (''HTTP/1.1 204 No Content'' @ CRLF @ CRLF)]))"
proof -
  have "sql_result demo_env False (''DELETE from produtos WHERE='' @ sql_quoted (unplus (norm ''Bolo'')) @ '';'') (app_db demo_app) =
      ([''DELETE from produtos WHERE='' @ sql_quoted (unplus (norm ''Bolo'')) @ '';''], Inr [])"
    by (simp add: sql_result_def demo_env_def demo_exec_def demo_app_def)
  from delete_statement [OF demo_request_path _ _ _ refl this] show ?thesis
    by (simp add: demo SENHA_def)
qed

section \<open>Sessions\<close>

text \<open>A successful JSON response.\<close>

definition json_reply :: "string \<Rightarrow> string" where
  "json_reply body = ''HTTP/1.1 200 OK'' @ CRLF @ ''Content-Type: application/json'' @ CRLF @
     ''Content-Length: '' @ show_nat (length body) @ CRLF @ ''Access-Control-Allow-Origin: *'' @ CRLF @ CRLF @ body"

lemma status_text_200: "httpserver_get_status_text 200 = ''OK''" and show_int_200: "show_int 200 = ''200''"
  by code_simp+

lemma json_response_text:
  assumes "n \<le> length body" and "l = show_nat n"
  shows "response_text (json_response 200 l body n) = json_reply (take n body)"
  using assms
  by (simp add: response_text_def json_response_def json_reply_def status_text_200 show_int_200
      render_headers_def header_line_def min_def)

lemma login_callback:
  assumes "req_path request = Some (zt (url ''/api/login'' ps))" and "good_url ''/api/login'' ps"
    and "table_ok (app_sessions app)"
    and "param ps ''email'' = Some e" and "param ps ''password'' = Some p"
    and "env_getrandom env (app_draws app) = Some seed" and "sid = session_id (env_srand env) (env_rand env) seed"
    and "sql_result env True (login_sql (norm e) (norm p)) (app_db app) = (db, Inr rows)" and "rows \<noteq> []"
    and "table_map (app_sessions app) sid = None"
  obtains app' where "callback env request app = Some (Ret (app', [map Some (json_reply sid)]))"
    "table_ok (app_sessions app')" "table_map (app_sessions app') = (table_map (app_sessions app))(sid \<mapsto> Some (norm e))"
    "app_db app' = db" "app_draws app' = app_draws app + 1"
proof -
  obtain info where i: "info_ok info" "visible info = ps" "callback env request app = run_route env info (Some Login) app"
    using callback_run [OF assms(1,2) route_table(3), where env = env and app = app] by blast
  obtain sessions where s: "login_route env info app =
      reply (app\<lparr>app_db := db, app_sessions := sessions, app_draws := app_draws app + 1\<rparr>) (json_response 200 ''16'' (sid @ [NUL]) 16)"
      "table_ok sessions" "table_map sessions = (table_map (app_sessions app))(sid \<mapsto> Some (norm e))"
    using login_result [OF i(1) assms(3), of e p env seed db rows] assms i(2) by metis
  have l: "length sid = 16" using assms(7) by simp
  have "show_nat 16 = ''16''" by code_simp
  then have "response_text (json_response 200 ''16'' (sid @ [NUL]) 16) = json_reply sid"
    using json_response_text [of 16 "sid @ [NUL]" "''16''"] l by simp
  then have "login_route env info app = Some (Ret (app\<lparr>app_db := db, app_sessions := sessions, app_draws := app_draws app + 1\<rparr>, [map Some (json_reply sid)]))"
    using s(1) l by (simp add: reply_ok json_response_ok)
  then show ?thesis using that s(2,3) i(3) by (auto simp: run_route_def)
qed

lemma cart_add_callback:
  assumes "req_path request = Some (zt (url ''/api/carrinho/add'' ps))" and "good_url ''/api/carrinho/add'' ps"
    and "table_ok (app_sessions app)" and "param ps ''produto'' = Some q" and "param ps ''session'' = Some sid"
    and "table_map (app_sessions app) sid = Some (Some u)"
  shows "callback env request app = after_command env (cart_add_sql u (unplus (norm q))) (cors_response 204) app"
proof -
  obtain info where i: "info_ok info" "visible info = ps"
      "callback env request app = run_route env info (Some Carrinho_add) app"
    using callback_run [OF assms(1,2) route_table(7), where env = env and app = app] by blast
  then show ?thesis using assms(3-6)
    by (simp add: run_route_def carrinho_add_def cart_command_result command_route_after)
qed

text \<open>The callback reads nothing of a request but its path.\<close>

lemma callback_path: "req_path q = req_path q' \<Longrightarrow> callback env q app = callback env q' app"
  by (simp add: callback_def)

text \<open>A login whose query finds the user answers with a new session identifier, and that
  identifier works: a cart request that carries it inserts a row for exactly the address of
  the login. The other sessions stay as they were. The identifier must not be one that is in
  use, which nothing checks.\<close>
theorem login_then_cart:
  assumes "req_path request = Some (zt (url ''/api/login'' ps))" and "good_url ''/api/login'' ps"
    and "table_ok (app_sessions app)"
    and "param ps ''email'' = Some e" and "param ps ''password'' = Some p"
    and "env_getrandom env (app_draws app) = Some seed" and "sid = session_id (env_srand env) (env_rand env) seed"
    and "sql_result env True (login_sql (norm e) (norm p)) (app_db app) = (db, Inr rows)" and "rows \<noteq> []"
    and "table_map (app_sessions app) sid = None"
    and "req_path request' = Some (zt (url ''/api/carrinho/add'' ps'))" and "good_url ''/api/carrinho/add'' ps'"
    and "param ps' ''produto'' = Some q" and "param ps' ''session'' = Some sid"
  shows "\<exists>app'. callback env request app = Some (Ret (app', [map Some (json_reply sid)])) \<and>
           (\<forall>s. s \<noteq> sid \<longrightarrow> table_map (app_sessions app') s = table_map (app_sessions app) s) \<and>
           callback env request' app' = after_command env (cart_add_sql (norm e) (unplus (norm q))) (cors_response 204) app'"
proof -
  obtain app' where a: "callback env request app = Some (Ret (app', [map Some (json_reply sid)]))"
    "table_ok (app_sessions app')" "table_map (app_sessions app') = (table_map (app_sessions app))(sid \<mapsto> Some (norm e))"
    by (rule login_callback [OF assms(1-10)])
  have "callback env request' app' = after_command env (cart_add_sql (norm e) (unplus (norm q))) (cors_response 204) app'"
    by (rule cart_add_callback [OF assms(11,12) a(2) assms(13,14)]) (simp add: a(3))
  then show ?thesis using a by auto
qed

lemma demo_id: "session_id (env_srand demo_env) (env_rand demo_env) 5 = ''ABCDEFGHIJKLMNOP''"
  by code_simp

theorem login_then_cart_witness:
  "\<exists>app'. callback demo_env (demo_request (url ''/api/login'' [(''email'', ''u@x''), (''password'', ''p'')])) demo_app =
       Some (Ret (app', [map Some (json_reply ''ABCDEFGHIJKLMNOP'')])) \<and>
     callback demo_env (demo_request (url ''/api/carrinho/add''
        [(''produto'', ''Bolo''), (''session'', ''ABCDEFGHIJKLMNOP'')])) app' =
       after_command demo_env (cart_add_sql (norm ''u@x'') (unplus (norm ''Bolo''))) (cors_response 204) app'"
proof -
  have db: "sql_result demo_env True (login_sql (norm ''u@x'') (norm ''p'')) (app_db demo_app) =
      ([login_sql (norm ''u@x'') (norm ''p'')], Inr [[''Ana'', ''u@x'', ''p'']])"
    by (simp add: sql_result_def demo_env_def demo_exec_def demo_app_def login_sql_def c_snprintf_def)
  have seed: "env_getrandom demo_env (app_draws demo_app) = Some 5" by (simp add: demo_env_def demo_app_def)
  show ?thesis
    using login_then_cart [where ps = "[(''email'', ''u@x''), (''password'', ''p'')]"
        and ps' = "[(''produto'', ''Bolo''), (''session'', ''ABCDEFGHIJKLMNOP'')]" and q = "''Bolo''", OF demo_request_path _ demo_sessions(1) _ _ seed demo_id [symmetric] db _ _ demo_request_path]
    by (auto simp: demo)
qed

section \<open>Statements of the cart\<close>

definition cart_insert :: "string \<Rightarrow> string \<Rightarrow> string" where
  "cart_insert u p = ''INSERT INTO carrinho (usuario, produto) VALUES ('' @ sql_quoted u @ '', '' @ sql_quoted p @ '');''"

lemma cart_insert_cut: "cart_add_sql u p = take 2047 (cart_insert u p)"
  by (simp add: cart_add_sql_def cart_insert_def sql_quoted_def c_snprintf_def)

text \<open>A cart insertion fits its buffer only while the address and the product name are
  short enough together. If they are, the statement sent is complete and holds exactly four
  quotes. If the text is 2050 characters or longer, which two values the parser accepts can
  reach, the statement is sent cut inside the second literal: its closing quote and bracket
  are missing, and three quotes remain.\<close>
theorem cart_statement:
  assumes "req_path request = Some (zt (url ''/api/carrinho/add'' ps))" and "good_url ''/api/carrinho/add'' ps"
    and "table_ok (app_sessions app)" and "param ps ''produto'' = Some p" and "param ps ''session'' = Some s"
    and "table_map (app_sessions app) s = Some (Some u)" and "QUOTE \<notin> set u" and "length u < 1024"
  shows "\<exists>sql. callback env request app = after_command env sql (cors_response 204) app \<and>
    (if length (cart_insert u (unplus (norm p))) < 2048 then sql = cart_insert u (unplus (norm p)) \<and> quotes sql = 4
     else prefix sql (cart_insert u (unplus (norm p))) \<and> length sql = 2047 \<and>
       (2050 \<le> length (cart_insert u (unplus (norm p))) \<longrightarrow> quotes sql = 3))"
proof -
  let ?T = "cart_insert u (unplus (norm p))" let ?sql = "cart_add_sql u (unplus (norm p))"
  have c: "callback env request app = after_command env ?sql (cors_response 204) app"
    by (rule cart_add_callback [OF assms(1-6)])
  have u: "quotes u = 0" using assms(7) by (simp add: quotes_0)
  define pre where "pre = ''INSERT INTO carrinho (usuario, produto) VALUES ('' @ sql_quoted u @ '', '' @ [QUOTE]"
  have T: "?T = pre @ unplus (norm p) @ [QUOTE] @ '');''" by (simp add: cart_insert_def pre_def sql_quoted_def)
  have b: "quotes pre = 3" "length pre < 2047" using u assms(8) by (simp_all add: pre_def sql_quoted_def)
  show ?thesis
  proof (cases "length ?T < 2048")
    case True
    moreover have "quotes ?T = 4" unfolding T using b(1) by simp
    ultimately show ?thesis using c by (auto simp: cart_insert_cut)
  next
    case False
    have "quotes (take 2047 ?T) = 3" if l: "2050 \<le> length ?T"
    proof -
      have "take 2047 ?T = pre @ take (2047 - length pre) (unplus (norm p))" using l b(2) unfolding T by simp
      moreover have "QUOTE \<notin> set (take (2047 - length pre) (unplus (norm p)))"
        using in_set_takeD [of QUOTE "2047 - length pre" "unplus (norm p)"] norm_no_quote by blast
      ultimately show ?thesis using b(1) by (simp add: quotes_0)
    qed
    then show ?thesis using c False by (auto simp: cart_insert_cut take_is_prefix)
  qed
qed

theorem cart_statement_witness:
  "\<exists>sql. callback demo_env (demo_request (url ''/api/carrinho/add'' [(''produto'', ''Bolo''), (''session'', ''abc'')])) demo_app =
     after_command demo_env sql (cors_response 204) demo_app \<and> sql = cart_insert ''u@x'' (unplus (norm ''Bolo''))"
proof -
  have "length (cart_insert ''u@x'' (unplus (norm ''Bolo''))) < 2048" by code_simp
  then show ?thesis
    using cart_statement [where ps = "[(''produto'', ''Bolo''), (''session'', ''abc'')]" and p = "''Bolo''" and env = demo_env
        and s = "''abc''" and u = "''u@x''",
        OF demo_request_path _ demo_sessions(1)]
    by (auto simp: demo)
qed

end
