(* ===== verification/Shop_Lists.thy ===== *)
theory Shop_Lists
  imports Shop
begin

text \<open>
  The two requests of the shop that answer with a list, \<^verbatim>\<open>/api/produtos/lista\<close>
  and \<^verbatim>\<open>/api/carrinho/lista\<close> in \<^verbatim>\<open>server/main.c\<close>: the JSON text
  they send, what they do with a product that is missing or whose columns are read wrongly, and
  what they leave allocated.
\<close>

section \<open>From a builder to a response\<close>

lemma holds_body:
  assumes "holds b s"
  shows "builder_body b = Some s"
proof -
  have p: "pj_position b = length s" "take (length s) (pj_string b) = map Some s"
    using assms by (simp_all add: holds_def)
  moreover have "length s \<le> length (pj_string b)" by (rule holds_length [OF assms])
  ultimately show ?thesis by (simp add: builder_body_def list_all_iff comp_def)
qed

lemma list_response_text:
  assumes "holds b s" and "0 < length s" and "length s < 10 ^ 9"
  obtains r where "list_response b = Some r" "response_ok r" "response_text r = json_reply s"
proof -
  have p: "pj_position b = length s" using assms(1) by (simp add: holds_def)
  have "length (show_nat (length s)) \<le> 9" by (rule show_nat_length_bound [OF assms(3)]) simp
  then have cut: "c_snprintf 10 (show_nat (length s)) = show_nat (length s)"
    by (simp add: cstr_simps)
  show ?thesis
  proof (rule that)
    show "list_response b = Some (json_response 200 (show_nat (length s)) s (length s))"
      by (simp add: list_response_def holds_body [OF assms(1)] p cut)
    show "response_ok (json_response 200 (show_nat (length s)) s (length s))"
      using assms(2) by (simp add: json_response_ok)
    show "response_text (json_response 200 (show_nat (length s)) s (length s)) = json_reply s"
      by (simp add: json_response_text)
  qed
qed

lemma finish_list:
  assumes "rep PJSONB_ARRAY b (''['' @ t) c" and "length t + 2 < 10 ^ 9"
  shows "send_list app b = Some (Ret (builder_free app, [map Some (json_reply (''['' @ t @ '']''))]))"
proof -
  obtain b2 where b2: "pjsonb_end b = Some b2" "holds b2 (''['' @ t @ '']'')"
    using end_holds [OF assms(1)] by (auto simp: close_char_def)
  obtain r where r: "list_response b2 = Some r" "response_ok r" "response_text r = json_reply (''['' @ t @ '']'')"
    by (rule list_response_text [OF b2(2)]) (use assms(2) in auto)
  then show ?thesis using b2(1) by (simp add: send_list_def send_response_exact)
qed

lemma builder_done:
  "builder_free (pq_done (builder_new (app\<lparr>app_db := db, app_open := app_open app + 2\<rparr>))) = app\<lparr>app_db := db\<rparr>"
  "builder_free (pq_done ((builder_new (app\<lparr>app_db := db1, app_open := app_open app + 2\<rparr>))\<lparr>app_db := db, app_products := n\<rparr>)) =
    app\<lparr>app_db := db, app_products := n\<rparr>"
  by (cases app, simp add: builder_free_def builder_new_def pq_done_def)+

lemma put_product_rep:
  assumes "rep ty b t c" and "c_string nome" and "c_string tipo" and "c_string imagem"
  shows "\<exists>b'. (do { b1 \<leftarrow> pjsonb_enter_object b None; b2 \<leftarrow> put_product b1 nome tipo imagem preco;
                  pjsonb_leave_object b2 }) = Some b' \<and>
           rep ty b' (t @ comma c @ product_text nome tipo imagem preco) True"
  using pj.product_object [OF assms(1), of nome tipo imagem preco] assms(2-4)
  by (simp add: put_product_def c_strlen_zt)

section \<open>The list of products\<close>

definition good_row :: "string list \<Rightarrow> bool" where
  "good_row row \<longleftrightarrow> 3 \<le> length row \<and> list_all c_string row \<and> c_atoi (zt (row ! 2)) \<noteq> None"

definition row_text :: "string list \<Rightarrow> string" where
  "row_text row = product_text (row ! 0) (row ! 1) (row ! 2) (the (c_atoi (zt (row ! 2))))"

lemma produtos_row_rep:
  assumes "good_row row" and "rep ty b t c"
  shows "\<exists>b'. produtos_row row b = Some b' \<and> rep ty b' (t @ comma c @ row_text row) True"
proof -
  obtain v where v: "c_atoi (zt (row ! 2)) = Some v" using assms(1) by (auto simp: good_row_def)
  have l: "0 < length row" "Suc 0 < length row" "2 < length row"
    using assms(1) by (auto simp: good_row_def)
  then have cs: "c_string (row ! 0)" "c_string (row ! 1)" "c_string (row ! 2)"
    using assms(1) by (simp_all add: good_row_def list_all_length)
  obtain b1 where b1: "pjsonb_enter_object b None = Some b1"
    using pj.enter_law [OF assms(2)] by blast
  show ?thesis
    using put_product_rep [OF assms(2) cs, of v] l v b1 by (simp add: produtos_row_def row_text_def)
qed

lemma build_rows:
  assumes "list_all good_row rows"
  obtains b where "build_all produtos_row rows (pjsonb_init PJSONB_ARRAY) = Some b"
    "rep PJSONB_ARRAY b (''['' @ comma_list (map row_text rows)) (rows \<noteq> [])"
proof -
  have "\<exists>b. build_all produtos_row rows (pjsonb_init PJSONB_ARRAY) = Some b \<and>
      rep PJSONB_ARRAY b ([open_char PJSONB_ARRAY] @ (if rows = [] then [] else comma False @ comma_list (map row_text rows)))
        (rows \<noteq> [] \<or> False)"
    by (rule pj.build_all_rows [OF _ init_rep]) (use assms in \<open>auto simp: list_all_iff intro: produtos_row_rep\<close>)
  then show ?thesis using that by (auto simp: open_char_def comma_def split: if_splits)
qed

lemma produtos_lista_rows:
  assumes "sql_result env True ''SELECT * FROM produtos;'' (app_db app) = (db, Inr rows)" and "list_all good_row rows"
    and "length (comma_list (map row_text rows)) + 2 < 10 ^ 9"
  shows "produtos_lista env app = Some (Ret (app\<lparr>app_db := db\<rparr>,
    [map Some (json_reply (''['' @ comma_list (map row_text rows) @ '']''))]))"
proof -
  obtain b where b: "build_all produtos_row rows (pjsonb_init PJSONB_ARRAY) = Some b"
    "rep PJSONB_ARRAY b (''['' @ comma_list (map row_text rows)) (rows \<noteq> [])"
    by (rule build_rows [OF assms(2)])
  have "c_snprintf 1024 ''SELECT * FROM produtos;'' = ''SELECT * FROM produtos;''"
    by (simp add: c_snprintf_def)
  then have "produtos_lista env app = send_list (pq_done (builder_new (app\<lparr>app_db := db, app_open := app_open app + 2\<rparr>))) b"
    using assms(1) b(1) by (simp add: produtos_lista_def run_sql_result)
  then show ?thesis by (simp only: finish_list [OF b(2) assms(3)] builder_done)
qed

lemma products_listing_result:
  assumes "req_path request = Some (zt (url ''/api/produtos/lista'' ps))" and "good_url ''/api/produtos/lista'' ps"
    and "sql_result env True ''SELECT * FROM produtos;'' (app_db app) = (db, Inr rows)" and "list_all good_row rows"
    and "length (comma_list (map row_text rows)) + 2 < 10 ^ 9"
  shows "callback env request app = Some (Ret (app\<lparr>app_db := db\<rparr>,
    [map Some (json_reply (''['' @ comma_list (map row_text rows) @ '']''))]))"
proof -
  obtain info where "callback env request app = run_route env info (Some Produtos_lista) app"
    using callback_run [OF assms(1,2) route_table(1), where env = env and app = app] by blast
  then show ?thesis using produtos_lista_rows [OF assms(3-5)] by (simp add: run_route_def)
qed

text \<open>C31: The list of products is answered with exactly one JSON array, in the order of the
  rows, with one object per row and nothing else; its length is the Content-Length. The state
  is the one before but for the database, so no block of a builder, no connection and no
  result is left allocated. The price in each object is what \<^verbatim>\<open>atoi\<close> reads in the image
  column.\<close>
theorem products_listing:
  assumes "req_path request = Some (zt (url ''/api/produtos/lista'' ps))" and "good_url ''/api/produtos/lista'' ps"
    and "sql_result env True ''SELECT * FROM produtos;'' (app_db app) = (db, Inr rows)" and "list_all good_row rows"
    and "length (comma_list (map row_text rows)) + 2 < 10 ^ 9"
  shows "callback env request app = Some (Ret (app\<lparr>app_db := db\<rparr>,
    [map Some (json_reply (''['' @ comma_list (map row_text rows) @ '']''))]))"
  by (rule products_listing_result [OF assms])

lemma demo_price: "c_atoi (zt ''/b.png'') = Some 0" "c_atoi (zt ''20'') = Some 20"
  by code_simp+

lemma demo_row_text: "row_text [''Bolo'', ''doce'', ''/b.png'', ''20''] = product_text ''Bolo'' ''doce'' ''/b.png'' 0"
  by (simp add: row_text_def demo_price)

lemma demo_listing_short: "length (product_text ''Bolo'' ''doce'' ''/b.png'' 0) \<le> 200"
  by code_simp

theorem products_listing_witness:
  "callback demo_env (demo_request (url ''/api/produtos/lista'' [])) demo_app =
    Some (Ret (demo_app\<lparr>app_db := [''SELECT * FROM produtos;'']\<rparr>,
      [map Some (json_reply (''['' @ product_text ''Bolo'' ''doce'' ''/b.png'' 0 @ '']''))]))"
proof -
  have "sql_result demo_env True ''SELECT * FROM produtos;'' (app_db demo_app) =
      ([''SELECT * FROM produtos;''], Inr [[''Bolo'', ''doce'', ''/b.png'', ''20'']])"
    by (simp add: sql_result_def demo_env_def demo_exec_def demo_app_def)
  from products_listing [OF demo_request_path _ this, of "[]"] show ?thesis
    using demo_listing_short by (simp add: demo good_row_def demo_row_text demo_price)
qed

text \<open>The two readers of the table of products disagree on the price: for a product whose
  image is a path (its first character starts no number), the list shows the price 0, while
  \<^verbatim>\<open>get_produto_by_name\<close>, used by the cart, reads the real price in the next column.\<close>
theorem price_column:
  assumes "row = [nome, tipo, imagem, show_int preco]" and "list_all c_string row" and "in_int preco"
    and "imagem = c # cs" and "\<not> is_digit c" and "\<not> is_space c" and "c \<noteq> CHR ''-''" and "c \<noteq> CHR ''+''"
    and "sql_result env True (produto_sql nome) (app_db app) = (db, Inr (row # rows))"
  shows "(\<exists>b. produtos_row row (pjsonb_init PJSONB_ARRAY) = Some b \<and>
           rep PJSONB_ARRAY b (''['' @ product_text nome tipo imagem 0) True) \<and>
         (\<exists>app'. get_produto_by_name env nome app = Some (app', Some \<lparr>p_nome = nome, p_tipo = tipo,
           p_imagem = imagem, p_preco = preco, p_avaliacao = 5\<rparr>))"
proof -
  have "skip_space (zt imagem) = Some (zt imagem)" "scan_digits 0 (zt imagem) = Some 0"
    using assms(4-6) by (simp_all add: zt_def)
  then have z: "c_atoi (zt imagem) = Some 0"
    using assms(4,7,8) by (simp add: c_atoi_def in_int_def zt_def)
  have p: "c_atoi (zt (show_int preco)) = Some preco"
    using c_atoi_show_int [OF assms(3), of NUL "[]"] by (simp add: zt_def)
  have g: "good_row row" using assms(1,2) z by (simp add: good_row_def)
  have t: "row_text row = product_text nome tipo imagem 0" by (simp add: row_text_def assms(1) z)
  have "rep PJSONB_ARRAY (pjsonb_init PJSONB_ARRAY) ''['' False"
    using init_rep [of PJSONB_ARRAY] by (simp add: open_char_def)
  then obtain b where "produtos_row row (pjsonb_init PJSONB_ARRAY) = Some b"
      "rep PJSONB_ARRAY b (''['' @ comma False @ row_text row) True"
    using produtos_row_rep [OF g] by blast
  moreover have "\<exists>app'. get_produto_by_name env nome app = Some (app', Some \<lparr>p_nome = nome, p_tipo = tipo,
           p_imagem = imagem, p_preco = preco, p_avaliacao = 5\<rparr>)"
    using assms(1,9) p by (simp add: get_produto_by_name_def run_sql_result)
  ultimately show ?thesis by (simp add: comma_def t)
qed

theorem price_column_witness:
  "\<exists>app'. get_produto_by_name demo_env ''Bolo'' demo_app = Some (app', Some \<lparr>p_nome = ''Bolo'', p_tipo = ''doce'',
     p_imagem = ''/b.png'', p_preco = 20, p_avaliacao = 5\<rparr>)"
proof -
  have "show_int 20 = ''20''" by code_simp
  then have "sql_result demo_env True (produto_sql ''Bolo'') (app_db demo_app) =
      ([produto_sql ''Bolo''], Inr [[''Bolo'', ''doce'', ''/b.png'', show_int 20]])"
    by (simp add: sql_result_def demo_env_def demo_exec_def demo_app_def produto_sql_def c_snprintf_def)
  from price_column [OF refl _ _ refl _ _ _ _ this] show ?thesis
    by (simp add: in_int_def is_digit_def is_space_def)
qed

section \<open>The list of a cart\<close>

lemma get_produto_result:
  "get_produto_by_name env nome app = (case sql_result env True (produto_sql nome) (app_db app) of
     (db, Inl st) \<Rightarrow> Some (app\<lparr>app_db := db\<rparr>, None)
   | (db, Inr []) \<Rightarrow> Some (app\<lparr>app_db := db\<rparr>, None)
   | (db, Inr (row # rows)) \<Rightarrow> do {
       pnome \<leftarrow> rd row 0; tipo \<leftarrow> rd row 1; imagem \<leftarrow> rd row 2; preco_text \<leftarrow> rd row 3;
       preco \<leftarrow> c_atoi (zt preco_text);
       Some (app\<lparr>app_db := db, app_products := app_products app + 1\<rparr>,
         Some \<lparr>p_nome = pnome, p_tipo = tipo, p_imagem = imagem, p_preco = preco, p_avaliacao = 5\<rparr>) })"
  by (auto simp: get_produto_by_name_def run_sql_result pq_done_def Let_def
      split: prod.splits sum.splits list.splits)

text \<open>The products of a list of names, read one after the other: the states of the database
  and the texts of the objects. \<^term>\<open>None\<close> where a name has no product.\<close>

fun cart_texts :: "('db, 'g) env \<Rightarrow> string list \<Rightarrow> 'db \<Rightarrow> ('db \<times> string list) option" where
  "cart_texts env [] db = Some (db, [])"
| "cart_texts env (name # names) db = (case sql_result env True (produto_sql name) db of
     (db1, Inr (row # rest)) \<Rightarrow>
       (if 4 \<le> length row \<and> list_all c_string row then do {
          preco \<leftarrow> c_atoi (zt (row ! 3));
          (db2, texts) \<leftarrow> cart_texts env names db1;
          Some (db2, product_text (row ! 0) (row ! 1) (row ! 2) preco # texts) }
        else None)
   | (db1, r) \<Rightarrow> None)"

lemma cart_rows_rep:
  assumes "cart_texts env (map (\<lambda>r. r ! 1) rows) (app_db app) = Some (db, texts)"
    and "list_all (\<lambda>r. 2 \<le> length r) rows" and "rep ty b t c"
  shows "\<exists>b'. cart_rows env rows app b =
      Some (app\<lparr>app_db := db, app_products := app_products app + length rows\<rparr>, b') \<and>
    rep ty b' (t @ (if texts = [] then [] else comma c @ comma_list texts)) (texts \<noteq> [] \<or> c)"
  using assms
proof (induction rows arbitrary: app b t c texts)
  case Nil
  then show ?case by simp
next
  case (Cons r rows)
  obtain db1 row rest where q: "sql_result env True (produto_sql (r ! 1)) (app_db app) = (db1, Inr (row # rest))"
    and row: "4 \<le> length row" "list_all c_string row"
    using Cons.prems(1) by (auto split: prod.splits sum.splits list.splits if_splits)
  then obtain preco texts' where p: "c_atoi (zt (row ! 3)) = Some preco"
    and tl: "cart_texts env (map (\<lambda>r. r ! 1) rows) db1 = Some (db, texts')"
    and texts: "texts = product_text (row ! 0) (row ! 1) (row ! 2) preco # texts'"
    using Cons.prems(1) by (auto simp: bind_eq_Some_conv)
  have l: "0 < length row" "1 < length row" "2 < length row" "3 < length row" using row(1) by auto
  then have cs: "c_string (row ! 0)" "c_string (row ! 1)" "c_string (row ! 2)"
    using row(2) unfolding list_all_length by blast+
  let ?app = "app\<lparr>app_db := db1, app_products := app_products app + 1\<rparr>"
  have g: "get_produto_by_name env (r ! 1) app = Some (?app, Some \<lparr>p_nome = row ! 0, p_tipo = row ! 1,
      p_imagem = row ! 2, p_preco = preco, p_avaliacao = 5\<rparr>)"
    using l p q by (simp add: get_produto_result)
  obtain b1 b2 b3 where b: "pjsonb_enter_object b None = Some b1"
      "put_product b1 (row ! 0) (row ! 1) (row ! 2) preco = Some b2" "pjsonb_leave_object b2 = Some b3"
      "rep ty b3 (t @ comma c @ product_text (row ! 0) (row ! 1) (row ! 2) preco) True"
    using put_product_rep [OF Cons.prems(3) cs, of preco] by (auto simp: bind_eq_Some_conv)
  obtain b' where b': "cart_rows env rows ?app b3 =
        Some (?app\<lparr>app_db := db, app_products := app_products ?app + length rows\<rparr>, b')"
      "rep ty b' ((t @ comma c @ product_text (row ! 0) (row ! 1) (row ! 2) preco) @
         (if texts' = [] then [] else comma True @ comma_list texts')) (texts' \<noteq> [] \<or> True)"
    using Cons.IH [of ?app texts' b3, OF _ _ b(4)] tl Cons.prems(2) by auto
  have "cart_rows env (r # rows) app b = cart_rows env rows ?app b3"
    using Cons.prems(2) b(1-3) g by simp
  then show ?case using b' texts by (auto simp: comma_def)
qed

lemma cart_rows_finish:
  assumes "list_all (\<lambda>r. 2 \<le> length r) rows" and "cart_texts env (map (\<lambda>r. r ! 1) rows) db1 = Some (db, texts)"
    and "length (comma_list texts) + 2 < 10 ^ 9"
  shows "(do {
      (app1, b) \<leftarrow> cart_rows env rows (builder_new (app\<lparr>app_db := db1, app_open := app_open app + 2\<rparr>)) (pjsonb_init PJSONB_ARRAY);
      send_list (pq_done app1) b }) =
    Some (Ret (app\<lparr>app_db := db, app_products := app_products app + length rows\<rparr>,
      [map Some (json_reply (''['' @ comma_list texts @ '']''))]))"
proof -
  let ?app = "builder_new (app\<lparr>app_db := db1, app_open := app_open app + 2\<rparr>)"
  have t: "cart_texts env (map (\<lambda>r. r ! 1) rows) (app_db ?app) = Some (db, texts)" using assms(2) by (simp add: builder_new_def)
  obtain b where b: "cart_rows env rows ?app (pjsonb_init PJSONB_ARRAY) =
        Some (?app\<lparr>app_db := db, app_products := app_products ?app + length rows\<rparr>, b)"
      "rep PJSONB_ARRAY b ([open_char PJSONB_ARRAY] @ (if texts = [] then [] else comma False @ comma_list texts)) (texts \<noteq> [] \<or> False)"
    using cart_rows_rep [OF t assms(1) init_rep] by blast
  have "rep PJSONB_ARRAY b (''['' @ comma_list texts) (texts \<noteq> [])"
    using b(2) by (auto simp: open_char_def comma_def split: if_splits)
  moreover have "app_products ?app = app_products app" by (simp add: builder_new_def)
  ultimately show ?thesis using b(1) by (simp add: finish_list [OF _ assms(3)] builder_done(2) [simplified] del: One_nat_def)
qed

lemma cart_callback:
  assumes "req_path request = Some (zt (url ''/api/carrinho/lista'' ps))" and "good_url ''/api/carrinho/lista'' ps"
    and "table_ok (app_sessions app)" and "param ps ''session'' = Some s"
    and "table_map (app_sessions app) s = Some (Some u)"
    and "sql_result env True (cart_list_sql u) (app_db app) = (db1, Inr rows)"
  shows "callback env request app = do {
      (app1, b) \<leftarrow> cart_rows env rows (builder_new (app\<lparr>app_db := db1, app_open := app_open app + 2\<rparr>)) (pjsonb_init PJSONB_ARRAY);
      send_list (pq_done app1) b }"
proof -
  obtain info where i: "info_ok info" "visible info = ps" "callback env request app = run_route env info (Some Carrinho_lista) app"
    using callback_run [OF assms(1,2) route_table(9), where env = env and app = app] by blast
  then show ?thesis using assms(3-6) by (simp add: run_route_def carrinho_lista_result)
qed

text \<open>C32: The cart of a session is answered with exactly one JSON array, in the order of its
  rows, with the product of each row's name and its price from the price column; the builder and
  every connection are released, but one product per row stays allocated: nothing ever calls
  \<^verbatim>\<open>free_produto\<close>.\<close>
theorem cart_listing_leaks:
  assumes "req_path request = Some (zt (url ''/api/carrinho/lista'' ps))" and "good_url ''/api/carrinho/lista'' ps"
    and "table_ok (app_sessions app)" and "param ps ''session'' = Some s"
    and "table_map (app_sessions app) s = Some (Some u)"
    and "sql_result env True (cart_list_sql u) (app_db app) = (db1, Inr rows)"
    and "list_all (\<lambda>r. 2 \<le> length r) rows" and "cart_texts env (map (\<lambda>r. r ! 1) rows) db1 = Some (db, texts)"
    and "length (comma_list texts) + 2 < 10 ^ 9"
  shows "callback env request app = Some (Ret (app\<lparr>app_db := db, app_products := app_products app + length rows\<rparr>,
    [map Some (json_reply (''['' @ comma_list texts @ '']''))]))"
  by (simp only: cart_callback [OF assms(1-6)] cart_rows_finish [OF assms(7-9)])

lemma demo_cart_sql:
  "sql_result demo_env True (cart_list_sql ''u@x'') (app_db demo_app) = ([cart_list_sql ''u@x''], Inr [[''u@x'', ''Bolo'']])"
  by (simp add: sql_result_def demo_env_def demo_exec_def demo_app_def cart_list_sql_def c_snprintf_def)

lemma demo_product_sql:
  "sql_result demo_env True (produto_sql ''Bolo'') db = (produto_sql ''Bolo'' # db, Inr [[''Bolo'', ''doce'', ''/b.png'', ''20'']])"
  by (simp add: sql_result_def demo_env_def demo_exec_def produto_sql_def c_snprintf_def)

theorem cart_listing_leaks_witness:
  "callback demo_env (demo_request (url ''/api/carrinho/lista'' [(''session'', ''abc'')])) demo_app =
    Some (Ret (demo_app\<lparr>app_db := [produto_sql ''Bolo'', cart_list_sql ''u@x''], app_products := app_products demo_app + 1\<rparr>,
      [map Some (json_reply (''['' @ product_text ''Bolo'' ''doce'' ''/b.png'' 20 @ '']''))]))"
proof -
  have t: "cart_texts demo_env (map (\<lambda>r. r ! 1) [[''u@x'', ''Bolo'']]) [cart_list_sql ''u@x''] =
      Some ([produto_sql ''Bolo'', cart_list_sql ''u@x''], [product_text ''Bolo'' ''doce'' ''/b.png'' 20])"
    by (simp add: demo_product_sql demo_price)
  have "length (product_text ''Bolo'' ''doce'' ''/b.png'' 20) \<le> 200" by code_simp
  then show ?thesis
    using cart_listing_leaks [where ps = "[(''session'', ''abc'')]", OF demo_request_path _ demo_sessions(1) _ _ demo_cart_sql _ t]
    by (simp add: demo)
qed

text \<open>A cart that names a product which is no longer in the shop cannot be listed: the
  null pointer of the failed lookup is dereferenced, so the request gets no answer.\<close>
theorem cart_vanished_product:
  assumes "req_path request = Some (zt (url ''/api/carrinho/lista'' ps))" and "good_url ''/api/carrinho/lista'' ps"
    and "table_ok (app_sessions app)" and "param ps ''session'' = Some s"
    and "table_map (app_sessions app) s = Some (Some u)"
    and "sql_result env True (cart_list_sql u) (app_db app) = (db1, Inr (r # rows))" and "2 \<le> length r"
    and "sql_result env True (produto_sql (r ! 1)) db1 = (db2, Inr [])"
  shows "callback env request app = None"
proof -
  have g: "get_produto_by_name env (r ! 1) (builder_new (app\<lparr>app_db := db1, app_open := app_open app + 2\<rparr>)) =
      Some (builder_new (app\<lparr>app_db := db2, app_open := app_open app + 2\<rparr>), None)"
    using assms(8) by (simp add: get_produto_result builder_new_def)
  obtain b1 where "pjsonb_enter_object (pjsonb_init PJSONB_ARRAY) None = Some b1"
    using pj.enter_law [OF init_rep] by blast
  then show ?thesis using cart_callback [OF assms(1-6)] assms(7) g by simp
qed

text \<open>A database whose table of products is empty.\<close>

definition empty_shop_env :: "(string list, nat) env" where
  "empty_shop_env = demo_env\<lparr>pq_exec := \<lambda>db sql.
     if prefix ''SELECT * FROM produtos'' sql then (PGRES_TUPLES_OK [], sql # db) else demo_exec db sql\<rparr>"

theorem cart_vanished_product_witness:
  "callback empty_shop_env (demo_request (url ''/api/carrinho/lista'' [(''session'', ''abc'')])) demo_app = None"
proof -
  have q: "sql_result empty_shop_env True (cart_list_sql ''u@x'') (app_db demo_app) = ([cart_list_sql ''u@x''], Inr [[''u@x'', ''Bolo'']])"
    "sql_result empty_shop_env True (produto_sql ([''u@x'', ''Bolo''] ! 1)) [cart_list_sql ''u@x''] =
      ([produto_sql ''Bolo'', cart_list_sql ''u@x''], Inr [])"
    by (simp_all add: sql_result_def empty_shop_env_def demo_env_def demo_exec_def demo_app_def cart_list_sql_def produto_sql_def c_snprintf_def)
  then show ?thesis
    using cart_vanished_product [where ps = "[(''session'', ''abc'')]", OF demo_request_path _ demo_sessions(1) _ _ q(1) _ q(2)]
    by (simp add: demo)
qed

end
