(* ===== verification/Shop_Server.thy ===== *)
theory Shop_Server
  imports Shop_Lists
begin

text \<open>
  The shop behind the connection loop of \<^verbatim>\<open>server/libs/httpserver.c\<close>: what holds of
  every request the callback of \<^verbatim>\<open>server/main.c\<close> answers, whatever the request is, lifted to
  whole connections. \<open>connection_handler\<close> is the contract between the loop and a callback: it
  answers with one good response and releases what it acquires. \<open>serve\<close> is the callback as
  the loop calls it: every response it sent is an event; a callback that ends the process
  counts as one that does not return.
\<close>

section \<open>The contract of a callback\<close>

definition responses :: "event list \<Rightarrow> nat" where
  "responses evs = length (filter (\<lambda>e. case e of Ev_response b \<Rightarrow> True | _ \<Rightarrow> False) evs)"

definition requests :: "event list \<Rightarrow> nat" where
  "requests evs = length (filter (\<lambda>e. case e of Ev_request q \<Rightarrow> True | _ \<Rightarrow> False) evs)"

definition disconnects :: "event list \<Rightarrow> nat" where
  "disconnects evs = length (filter (\<lambda>e. e = Ev_disconnect) evs)"

lemma event_counts [simp]:
  "responses [] = 0" "requests [] = 0" "disconnects [] = 0"
  "responses (a @ b) = responses a + responses b" "requests (a @ b) = requests a + requests b"
  "disconnects (a @ b) = disconnects a + disconnects b"
  "responses (Ev_response r # a) = Suc (responses a)" "responses (Ev_request q # a) = responses a"
  "responses (Ev_freed f # a) = responses a" "responses (Ev_disconnect # a) = responses a"
  "requests (Ev_response r # a) = requests a" "requests (Ev_request q # a) = Suc (requests a)"
  "requests (Ev_freed f # a) = requests a" "requests (Ev_disconnect # a) = requests a"
  "disconnects (Ev_response r # a) = disconnects a" "disconnects (Ev_request q # a) = disconnects a"
  "disconnects (Ev_freed f # a) = disconnects a" "disconnects (Ev_disconnect # a) = Suc (disconnects a)"
  by (simp_all add: responses_def requests_def disconnects_def)

lemma freed_counts [simp]:
  "responses (map Ev_freed fs) = 0" "requests (map Ev_freed fs) = 0" "disconnects (map Ev_freed fs) = 0"
  by (induction fs) simp_all

text \<open>The course of a connection. An exchange is a request, one good response to it, and the blocks
  of the request, freed; a message that does not parse is answered with the 400 response.\<close>

definition exchange :: "(httpparser_request \<Rightarrow> outbuf \<Rightarrow> bool) \<Rightarrow> event list \<Rightarrow> bool" where
  "exchange good evs \<longleftrightarrow>
     (\<exists>q out. good q out \<and> evs = [Ev_request q, Ev_response out] @ map Ev_freed (fst (httpparser_free_request q)))"

definition conversation :: "(httpparser_request \<Rightarrow> outbuf \<Rightarrow> bool) \<Rightarrow> event list \<Rightarrow> bool" where
  "conversation good evs \<longleftrightarrow> (\<exists>xs. list_all (exchange good) xs \<and> evs = concat xs)"

definition rejection :: "event list \<Rightarrow> bool" where
  "rejection evs \<longleftrightarrow> (\<exists>fs. evs = map Ev_freed fs @
     [Ev_response (map Some (''HTTP/1.1 400 Bad request'' @ CRLF @ ''Content-Length: 0'' @ CRLF @ CRLF))])"

definition finished :: "(httpparser_request \<Rightarrow> outbuf \<Rightarrow> bool) \<Rightarrow> event list \<Rightarrow> bool" where
  "finished good evs \<longleftrightarrow> (\<exists>c t. conversation good c \<and> (t = [] \<or> rejection t) \<and> evs = c @ t @ [Ev_disconnect])"

lemma conversation_Nil [simp]: "conversation good []"
  by (auto simp: conversation_def intro: exI [of _ "[]"])

lemma conversation_snoc:
  assumes "conversation good c" and "exchange good x"
  shows "conversation good (c @ x)"
proof -
  obtain xs where "list_all (exchange good) xs" "c = concat xs" using assms(1) by (auto simp: conversation_def)
  then show ?thesis unfolding conversation_def using assms(2) by (intro exI [of _ "xs @ [x]"]) simp
qed

lemma conversation_Cons:
  assumes "exchange good x" and "conversation good c"
  shows "conversation good (x @ c)"
proof -
  obtain xs where "list_all (exchange good) xs" "c = concat xs" using assms(2) by (auto simp: conversation_def)
  then show ?thesis unfolding conversation_def using assms(1) by (intro exI [of _ "x # xs"]) simp
qed

lemma finished_Cons: "exchange good x \<Longrightarrow> finished good evs \<Longrightarrow> finished good (x @ evs)"
  unfolding finished_def by (metis append.assoc conversation_Cons)

lemma finishedI: "conversation good c \<Longrightarrow> t = [] \<or> rejection t \<Longrightarrow> finished good (c @ t @ [Ev_disconnect])"
  unfolding finished_def by blast

lemma exchange_counts: "exchange good x \<Longrightarrow> requests x = 1 \<and> responses x = 1 \<and> disconnects x = 0"
  by (auto simp: exchange_def)

text \<open>What a turn of the loop contributes.\<close>

lemma turn_rejects: "connection_turn junk handle payload msg s = Some (Inl evs) \<Longrightarrow> rejection evs"
  using send_response_exact [OF bad_request_text(1)]
  by (auto simp: connection_turn_def rejection_def bad_request_text(2) split: bind_splits if_splits)

lemma turn_handles:
  assumes "connection_turn junk handle payload msg s = Some (Inr (s', payload', evs))"
  obtains q evs1 where "httpparser_parse_request (httpparser_init_request junk (take 30 (req_headers junk)) 30)
      (recv_into payload msg) (int (length msg)) = Some (0, q)"
    and "handle s q = Some (s', evs1)" and "payload' = recv_into payload msg"
    and "evs = [Ev_request q] @ evs1 @ map Ev_freed (fst (httpparser_free_request q))"
  using assms by (auto simp: connection_turn_def split: bind_splits if_splits)

locale connection_handler =
  fixes handle :: "'s \<Rightarrow> httpparser_request \<Rightarrow> ('s \<times> event list) option"
    and held :: "'s \<Rightarrow> 'h"
    and good :: "httpparser_request \<Rightarrow> outbuf \<Rightarrow> bool"
  assumes releases: "handle s q = Some (s', evs) \<Longrightarrow> held s' = held s"
    and one_response: "handle s q = Some (s', evs) \<Longrightarrow> \<exists>b. evs = [Ev_response b] \<and> good q b"
begin

lemma turn_exchange:
  assumes "connection_turn junk handle payload msg s = Some (Inr (s', payload', evs))"
  shows "exchange good evs" and "held s' = held s"
proof -
  obtain q evs1 where q: "handle s q = Some (s', evs1)" "evs = [Ev_request q] @ evs1 @ map Ev_freed (fst (httpparser_free_request q))"
    by (rule turn_handles [OF assms])
  show "exchange good evs" using one_response [OF q(1)] q(2) by (auto simp: exchange_def)
  show "held s' = held s" by (rule releases [OF q(1)])
qed

lemma connection_runs:
  "listen_messages junk handle payload recvs s = Some (s', evs) \<Longrightarrow>
   held s' = held s \<and> finished good evs \<and> requests evs \<le> length recvs"
proof (induction recvs arbitrary: payload s evs)
  case Nil
  then show ?case using finishedI [of good "[]" "[]"] by auto
next
  case (Cons msg recvs)
  show ?case
  proof (cases "msg = []")
    case True
    then show ?thesis using Cons.prems finishedI [of good "[]" "[]"] by auto
  next
    case False
    then obtain r where r: "connection_turn junk handle payload msg s = Some r"
      using Cons.prems by (auto simp: listen_messages.simps split: bind_splits)
    show ?thesis
    proof (cases r)
      case (Inl evs1)
      have rej: "rejection evs1" by (rule turn_rejects [OF r [unfolded Inl]])
      moreover have "s' = s" "evs = evs1 @ [Ev_disconnect]"
        using Cons.prems False r Inl by (simp_all add: listen_messages.simps)
      ultimately show ?thesis using finishedI [of good "[]" evs1] by (auto simp: rejection_def)
    next
      case (Inr y)
      obtain s1 payload' evs1 where y: "y = (s1, payload', evs1)" by (cases y)
      obtain evs2 where rest: "listen_messages junk handle payload' recvs s1 = Some (s', evs2)" "evs = evs1 @ evs2"
        using Cons.prems False r Inr y by (auto simp: listen_messages.simps split: bind_splits)
      note x = turn_exchange [OF r [unfolded Inr y]]
      show ?thesis using Cons.IH [OF rest(1)] x exchange_counts [OF x(1)] finished_Cons [OF x(1)] rest(2) by simp
    qed
  qed
qed

end

section \<open>The shop keeps the contract\<close>

lemma reply_app: "reply app r = Some (Ret (app', b)) \<Longrightarrow> app' = app"
  by (auto simp: reply_def)

text \<open>\<open>leaves P m\<close>: if the handler \<open>m\<close> answers, its state and what it sent satisfy \<open>P\<close>. One rule for
  each construct the routes are made of.\<close>

definition leaves :: "('db app \<Rightarrow> outbuf list \<Rightarrow> bool) \<Rightarrow> 'db reply \<Rightarrow> bool" where
  "leaves P m \<longleftrightarrow> (\<forall>app' outs. m = Some (Ret (app', outs)) \<longrightarrow> P app' outs)"

lemma leavesD: "leaves P m \<Longrightarrow> m = Some (Ret (app', outs)) \<Longrightarrow> P app' outs"
  by (simp add: leaves_def)

lemma leaves_mono: "leaves P m \<Longrightarrow> (\<And>a outs. P a outs \<Longrightarrow> Q a outs) \<Longrightarrow> leaves Q m"
  by (auto simp: leaves_def)

lemma leaves_exit: "leaves P (Some (Exit c))"
  by (simp add: leaves_def)

text \<open>One complete response with one of the given statuses; it has a body exactly if it is a success
  with a body to send, or the 404.\<close>

definition sends :: "int set \<Rightarrow> outbuf list \<Rightarrow> bool" where
  "sends sts outs \<longleftrightarrow> (\<exists>r. response_ok r \<and> rs_status r \<in> sts \<and> (rs_body r \<noteq> None \<longleftrightarrow> rs_status r \<in> {200, 404}) \<and>
     outs = [map Some (response_text r)])"

lemma sendsI:
  "response_ok r \<Longrightarrow> rs_status r \<in> sts \<Longrightarrow> (rs_body r \<noteq> None \<longleftrightarrow> rs_status r \<in> {200, 404}) \<Longrightarrow> sends sts [map Some (response_text r)]"
  by (auto simp: sends_def)

lemma sends_cors: "100 \<le> st \<Longrightarrow> st < 1000 \<Longrightarrow> st \<in> sts \<Longrightarrow> st \<notin> {200, 404} \<Longrightarrow>
    sends sts [map Some (response_text (cors_response st))]"
  by (rule sendsI) (simp_all, simp_all add: cors_response_def)

lemma leaves_reply: "response_ok r \<Longrightarrow> P app [map Some (response_text r)] \<Longrightarrow> leaves P (reply app r)"
  by (simp add: reply_ok leaves_def)

lemma leaves_bind: "(\<And>x. m = Some x \<Longrightarrow> leaves P (f x)) \<Longrightarrow> leaves P (Option.bind m f)"
  by (cases m) (auto simp: leaves_def)

lemma leaves_if: "(c \<Longrightarrow> leaves P x) \<Longrightarrow> (\<not> c \<Longrightarrow> leaves P y) \<Longrightarrow> leaves P (if c then x else y)"
  by simp

lemma leaves_option: "leaves P x \<Longrightarrow> (\<And>v. leaves P (f v)) \<Longrightarrow> leaves P (case r of None \<Rightarrow> x | Some v \<Rightarrow> f v)"
  by (cases r) auto

lemma leaves_outcome:
  "(\<And>c. leaves P (f c)) \<Longrightarrow> (\<And>v. r = Ret v \<Longrightarrow> leaves P (g v)) \<Longrightarrow> leaves P (case r of Exit c \<Rightarrow> f c | Ret v \<Rightarrow> g v)"
  by (cases r) auto

lemma leaves_sql:
  assumes "\<And>db st. st = 500 \<or> st = 400 \<Longrightarrow> leaves P (f (app\<lparr>app_db := db\<rparr>) st)"
    and "\<And>db rows. leaves P (g (app\<lparr>app_db := db, app_open := app_open app + 2\<rparr>) rows)"
  shows "leaves P (case run_sql env w sql app of (a, Inl st) \<Rightarrow> f a st | (a, Inr rows) \<Rightarrow> g a rows)"
  using assms sql_status [of env w sql "app_db app"] by (simp add: run_sql_result split: prod.split sum.split)

lemma leaves_command:
  assumes "response_ok success"
    and "\<And>db r. r \<in> {cors_response 500, cors_response 400, success} \<Longrightarrow> P (app\<lparr>app_db := db\<rparr>) [map Some (response_text r)]"
  shows "leaves P (command_route env sql success app)"
  unfolding command_route_def
  by (rule leaves_sql) (use assms in \<open>auto simp: pq_done_open intro!: leaves_reply\<close>)

lemma leaves_send_list:
  assumes "\<And>r. response_ok r \<Longrightarrow> rs_status r = 200 \<Longrightarrow> rs_body r \<noteq> None \<Longrightarrow> P (builder_free app) [map Some (response_text r)]"
  shows "leaves P (send_list app b)"
  unfolding leaves_def
proof (intro allI impI)
  fix app' outs
  assume "send_list app b = Some (Ret (app', outs))"
  then obtain b1 r out where s: "pjsonb_end b = Some b1" "list_response b1 = Some r" "httpserver_send_response r = Some out"
      "app' = builder_free app" "outs = [out]"
    by (auto simp: send_list_def split: bind_splits)
  have "0 < pj_position b1"
    using s(1) by (auto simp: pjsonb_end_def emit_def poke_def split: bind_splits if_splits)
  moreover obtain body where "builder_body b1 = Some body"
      "r = json_response 200 (c_snprintf 10 (show_nat (pj_position b1))) body (pj_position b1)"
    using s(2) by (auto simp: list_response_def split: bind_splits)
  moreover from this have "length body = pj_position b1" by (auto simp: builder_body_def split: if_splits)
  moreover have "c_string (c_snprintf 10 (show_nat n))" for n
    using in_set_takeD [of NUL 9 "show_nat n"] show_nat_digits [of n]
    by (auto simp: c_snprintf_def c_string_def list_all_iff dest: is_digit_facts)
  ultimately have "response_ok r" "rs_status r = 200" "rs_body r \<noteq> None"
    by (simp_all add: json_response_ok) (simp_all add: json_response_def)
  then show "P app' outs" using assms [of r] s(3-5) by (simp add: send_response_exact)
qed

lemma cart_rows_open:
  "cart_rows env rows app b = Some (app', b') \<Longrightarrow>
   app_open app' = app_open app \<and> app_sessions app' = app_sessions app \<and> app_builders app' = app_builders app \<and>
   app_draws app' = app_draws app \<and> app_products app' = app_products app + length rows"
proof (induction rows arbitrary: app b)
  case Nil
  then show ?case by simp
next
  case (Cons r rows)
  obtain name app1 p b3 where g: "get_produto_by_name env name app = Some (app1, Some p)"
      "cart_rows env rows app1 b3 = Some (app', b')"
    using Cons.prems by (auto simp: bind_eq_Some_conv)
  have "app_open app1 = app_open app \<and> app_sessions app1 = app_sessions app \<and> app_builders app1 = app_builders app \<and>
      app_draws app1 = app_draws app \<and> app_products app1 = app_products app + 1"
    using g(1) by (auto simp: get_produto_result bind_eq_Some_conv split: prod.splits sum.splits list.splits)
  then show ?case using Cons.IH [OF g(2)] by simp
qed

lemma leaves_cart_rows:
  assumes "\<And>a b'. app_open a = app_open app \<Longrightarrow> app_sessions a = app_sessions app \<Longrightarrow> app_builders a = app_builders app \<Longrightarrow>
    app_draws a = app_draws app \<Longrightarrow> leaves P (f a b')"
  shows "leaves P (do { (a, b') \<leftarrow> cart_rows env rows app b; f a b' })"
proof (rule leaves_bind)
  fix x
  assume x: "cart_rows env rows app b = Some x"
  obtain a b' where p: "x = (a, b')" by (cases x)
  show "leaves P (case x of (a, b') \<Rightarrow> f a b')"
    using assms cart_rows_open [OF x [unfolded p]] by (simp add: p)
qed

lemmas leaves_intros = leaves_exit leaves_cart_rows leaves_bind leaves_if leaves_option leaves_outcome
  leaves_sql leaves_send_list leaves_command leaves_reply

text \<open>Nothing but the database and the products changes.\<close>

definition quiet :: "'db app \<Rightarrow> 'db app \<Rightarrow> bool" where
  "quiet app app' \<longleftrightarrow> app_open app' = app_open app \<and> app_sessions app' = app_sessions app \<and>
     app_builders app' = app_builders app \<and> app_draws app' = app_draws app"

text \<open>The statuses a route can answer with.\<close>

definition route_status :: "route option \<Rightarrow> int set" where
  "route_status r = (case r of
     None \<Rightarrow> {404} | Some Session_check \<Rightarrow> {404}
   | Some Produtos_lista \<Rightarrow> {200, 400, 500} | Some Register \<Rightarrow> {204, 400, 500}
   | Some Login \<Rightarrow> {200, 400, 403, 500} | Some Carrinho_lista \<Rightarrow> {200, 400, 403, 500}
   | _ \<Rightarrow> {204, 400, 403, 500})"

lemma not_found_ok:
  "response_ok (json_response 404 (c_snprintf 10 (show_nat (length not_found_body))) (zt not_found_body) (length not_found_body))"
  by code_simp

lemma json_status [simp]: "rs_status (json_response st l b n) = st" "rs_body (json_response st l b n) = Some b"
  by (simp_all add: json_response_def)

lemma cors_status [simp]: "rs_status (cors_response st) = st" "rs_body (cors_response st) = None"
  by (simp_all add: cors_response_def)

lemmas leaves_simps = quiet_def pq_done_def builder_new_def builder_free_def sends_cors sendsI not_found_ok

lemma quiet_routes:
  "leaves (\<lambda>a outs. quiet app a \<and> sends {200, 400, 500} outs) (produtos_lista env app)"
  "leaves (\<lambda>a outs. quiet app a \<and> sends {204, 400, 500} outs) (register_route env info app)"
  "leaves (\<lambda>a outs. quiet app a \<and> sends {204, 400, 403, 500} outs) (produtos_add env info app)"
  "leaves (\<lambda>a outs. quiet app a \<and> sends {204, 400, 403, 500} outs) (produtos_del env info app)"
  "leaves (\<lambda>a outs. quiet app a \<and> sends {204, 400, 403, 500} outs) (cart_command sql env info app)"
  "leaves (\<lambda>a outs. quiet app a \<and> sends {200, 400, 403, 500} outs) (carrinho_lista env info app)"
  "leaves (\<lambda>a outs. quiet app a \<and> sends {404} outs) (not_found app)"
  unfolding produtos_lista_def register_route_def produtos_add_def produtos_del_def cart_command_def
    carrinho_lista_def not_found_def
  by (intro leaves_intros; auto simp: leaves_simps)+

lemma generated_length:
  assumes "frequenc_generate_session_id g srand rand (replicate 17 NUL) = Some (Ret s)"
  shows "length s = 17 \<and> (\<exists>seed. g = Some seed \<and> cstr s = session_id srand rand seed)"
proof -
  obtain seed where g: "g = Some seed"
    using assms by (cases g) (auto simp: frequenc_generate_session_id_def frequenc_safe_seeding_def)
  then have "s = session_id srand rand seed @ [NUL]"
    using assms session_id_result [of "replicate 17 NUL" seed srand rand] by simp
  moreover have "c_string (session_id srand rand seed)"
    using session_id_chars [of srand rand seed] id_char_plain by (auto simp: c_string_def id_char_def)
  ultimately show ?thesis using g by (simp add: cstr_append_NUL)
qed

lemma login_leaves:
  "leaves (\<lambda>a outs. app_open a = app_open app \<and> app_builders a = app_builders app \<and> sends {200, 400, 403, 500} outs)
     (login_route env info app)"
  unfolding login_route_def
  by (intro leaves_intros; auto simp: leaves_simps json_response_ok dest!: generated_length)

lemma run_route_quiet: "r \<noteq> Some Login \<Longrightarrow> leaves (\<lambda>a outs. quiet app a) (run_route env info r app)"
  by (auto simp: run_route_def carrinho_add_def carrinho_del_def split: option.split route.split
      intro: leaves_mono [OF quiet_routes(1)] leaves_mono [OF quiet_routes(2)] leaves_mono [OF quiet_routes(3)]
        leaves_mono [OF quiet_routes(4)] leaves_mono [OF quiet_routes(5)] leaves_mono [OF quiet_routes(6)]
        leaves_mono [OF quiet_routes(7)])

lemma run_route_leaves:
  "leaves (\<lambda>a outs. app_open a = app_open app \<and> app_builders a = app_builders app \<and> sends (route_status r) outs)
     (run_route env info r app)"
  using login_leaves
  by (auto simp: run_route_def carrinho_add_def carrinho_del_def route_status_def quiet_def split: option.split route.split
      intro: leaves_mono [OF quiet_routes(1)] leaves_mono [OF quiet_routes(2)] leaves_mono [OF quiet_routes(3)]
        leaves_mono [OF quiet_routes(4)] leaves_mono [OF quiet_routes(5)] leaves_mono [OF quiet_routes(6)]
        leaves_mono [OF quiet_routes(7)])

text \<open>The answer a request gets: one complete response whose status is one of its route.\<close>

definition answered :: "httpparser_request \<Rightarrow> outbuf \<Rightarrow> bool" where
  "answered q out \<longleftrightarrow> (\<exists>p r. req_path q = Some p \<and> select_route p routes = Some r \<and> sends (route_status r) [out])"

lemma callback_leaves:
  assumes "callback env request app = Some (Ret (app', outs))"
  shows "app_open app' = app_open app" and "app_builders app' = app_builders app" and "\<exists>out. outs = [out] \<and> answered request out"
proof -
  obtain p info r where r: "req_path request = Some p" "select_route p routes = Some r" "run_route env info r app = Some (Ret (app', outs))"
    using assms by (auto simp: callback_def bind_eq_Some_conv)
  note l = leavesD [OF run_route_leaves r(3)]
  then show "app_open app' = app_open app" "app_builders app' = app_builders app" by simp_all
  have s: "sends (route_status r) outs" using l by simp
  then obtain out where "outs = [out]" by (auto simp: sends_def)
  then show "\<exists>out. outs = [out] \<and> answered request out" using s r(1,2) unfolding answered_def by blast
qed

definition serve :: "('db, 'g) env \<Rightarrow> 'db app \<Rightarrow> httpparser_request \<Rightarrow> ('db app \<times> event list) option" where
  "serve env app request = (case callback env request app of
     Some (Ret (app', outs)) \<Rightarrow> Some (app', map Ev_response outs)
   | _ \<Rightarrow> None)"

definition held_objects :: "'db app \<Rightarrow> nat \<times> nat" where
  "held_objects app = (app_open app, app_builders app)"

interpretation shop: connection_handler "serve env" held_objects answered for env :: "('db, 'g) env"
proof unfold_locales
  show "held_objects s' = held_objects s" if "serve env s q = Some (s', evs)" for s s' :: "'db app" and q evs
    using that callback_leaves(1,2) by (fastforce simp: serve_def held_objects_def split: option.splits outcome.splits)
  show "\<exists>b. evs = [Ev_response b] \<and> answered q b" if "serve env s q = Some (s', evs)" for s s' :: "'db app" and q evs
    using that callback_leaves(3) by (fastforce simp: serve_def split: option.splits outcome.splits)
qed

section \<open>Properties of a connection\<close>

text \<open>Whatever a client sends on a connection, the loop answers in order: each request gets one complete
  response with a status of its route, then its blocks are freed; the connection ends with one
  disconnect, before which at most one message that did not parse was answered with 400; and
  there are at most as many requests as messages.\<close>
theorem connection_protocol:
  assumes "listen_messages junk (serve env) payload recvs app = Some (app', evs)"
  shows "finished answered evs \<and> requests evs \<le> length recvs"
  using shop.connection_runs [OF assms] by blast

text \<open>Over a whole connection, with any sequence of requests and whatever the database
  answers, every connection to the database, every result and every builder is released.\<close>
theorem connection_releases_database:
  assumes "listen_messages junk (serve env) payload recvs app = Some (app', evs)"
  shows "app_open app' = app_open app \<and> app_builders app' = app_builders app"
  using shop.connection_runs [OF assms] by (simp add: held_objects_def)

lemma callback_sessions:
  assumes "callback env request app = Some (Ret (app', b))" and "req_path request = Some (s @ NUL # t)"
    and "c_string s" and "\<not> prefix ''/api/login'' s"
  shows "app_sessions app' = app_sessions app"
proof -
  have r: "route_spec s routes \<noteq> Some Login" using assms(4) by (simp add: routes_def)
  obtain info e where q: "qparser_parse ten_queries (s @ NUL # t) = Some (info, e)"
    using assms(1,2) by (auto simp: callback_def ten_queries_init bind_eq_Some_conv)
  have "run_route env info (route_spec s routes) app = Some (Ret (app', b))"
    using callback_result(2) [OF assms(2,3) q, of env app] assms(1) by simp
  then have "quiet app app'" by (rule leavesD [OF run_route_quiet [OF r]])
  then show ?thesis by (simp add: quiet_def)
qed

text \<open>Only a login changes the table of sessions: any other request that gets an answer,
  with parameters or without, leaves it as it was.\<close>
theorem sessions_change_only_by_login:
  assumes "callback env request app = Some (Ret (app', b))" and "req_path request = Some (s @ NUL # t)"
    and "c_string s" and "\<not> prefix ''/api/login'' s"
  shows "app_sessions app' = app_sessions app"
  by (rule callback_sessions [OF assms])

text \<open>A path that starts with none of the routes, and every request to
  \<^verbatim>\<open>/api/session/check\<close>, which has a branch without code, is answered with the
  same 404 text and changes nothing.\<close>
theorem unknown_path:
  assumes "req_path request = Some (zt (url path ps))" and "good_url path ps"
    and "route_spec (url path ps) routes \<in> {None, Some Session_check}"
  shows "callback env request app = Some (Ret (app, [map Some (''HTTP/1.1 404 Not Found'' @ CRLF @
      ''Content-Type: application/json'' @ CRLF @ ''Content-Length: 29'' @ CRLF @
      ''Access-Control-Allow-Origin: *'' @ CRLF @ CRLF @ ''Base para o projeto da UCP :)'')]))"
proof -
  obtain info where "callback env request app = run_route env info (route_spec (url path ps) routes) app"
    using callback_run [OF assms(1,2) refl, where env = env and app = app] by blast
  then have c: "callback env request app = not_found app" using assms(3) by (auto simp: run_route_def)
  let ?r = "json_response 404 (c_snprintf 10 (show_nat (length not_found_body))) (zt not_found_body) (length not_found_body)"
  have "response_ok ?r" "response_text ?r = ''HTTP/1.1 404 Not Found'' @ CRLF @
      ''Content-Type: application/json'' @ CRLF @ ''Content-Length: 29'' @ CRLF @
      ''Access-Control-Allow-Origin: *'' @ CRLF @ CRLF @ ''Base para o projeto da UCP :)''"
    by code_simp+
  then show ?thesis unfolding c not_found_def by (simp only: reply_ok)
qed

theorem unknown_path_witness:
  "\<exists>text. callback demo_env (demo_request (url ''/api/session/check'' [(''session'', ''abc'')])) demo_app =
     Some (Ret (demo_app, [map Some text]))"
  by (rule exI, rule unknown_path [OF demo_request_path]) (simp_all add: demo route_table)

theorem sessions_change_only_by_login_witness:
  "\<exists>app' b. callback demo_env (demo_request (url ''/api/produtos/lista'' [])) demo_app = Some (Ret (app', b)) \<and>
     app_sessions app' = app_sessions demo_app"
proof -
  have "sql_result demo_env True ''SELECT * FROM produtos;'' (app_db demo_app) =
      ([''SELECT * FROM produtos;''], Inr [[''Bolo'', ''doce'', ''/b.png'', ''20'']])"
    by (simp add: sql_result_def demo_env_def demo_exec_def demo_app_def)
  then obtain app' b where c: "callback demo_env (demo_request (url ''/api/produtos/lista'' [])) demo_app = Some (Ret (app', b))"
    using products_listing_result [OF demo_request_path, of "[]" demo_env demo_app] demo_listing_short
    by (auto simp: demo good_row_def demo_row_text demo_price)
  have p: "req_path (demo_request (url ''/api/produtos/lista'' [])) = Some (''/api/produtos/lista'' @ NUL # [])"
    by (simp add: zt_def url_def)
  show ?thesis using c sessions_change_only_by_login [OF c p] by auto
qed

section \<open>From the bytes of a request to the bytes of the response\<close>

text \<open>A message on the socket: a method, a URL, headers and a body, empty when there is none.\<close>

type_synonym http_message = "string \<times> string \<times> (string \<times> string) list \<times> bytes"

fun message_bytes :: "http_message \<Rightarrow> bytes" where
  "message_bytes (m, u, hs, body) = render_request m u hs @ body"

fun message_url :: "http_message \<Rightarrow> string" where
  "message_url (m, u, hs, body) = u"

text \<open>What the parser allocates for a message: its path, and the body if there is one.\<close>

fun message_frees :: "http_message \<Rightarrow> bytes list" where
  "message_frees (m, u, hs, body) = zt u # (if body = [] then [] else [body])"

definition body_declared :: "(string \<times> string) list \<Rightarrow> bytes \<Rightarrow> bool" where
  "body_declared hs body \<longleftrightarrow> map_of (lowered hs) ''transfer-encoding'' = None \<and>
     declared_length hs = int (length body) \<and> (body \<noteq> [] \<longrightarrow> map_of (lowered hs) ''content-type'' \<noteq> None)"

fun good_message :: "http_message \<Rightarrow> bool" where
  "good_message (m, u, hs, body) \<longleftrightarrow> m \<in> set http_methods \<and> length m < 7 \<and> good_path u \<and> list_all good_header hs \<and>
     length hs \<le> 30 \<and> body_declared hs body"

lemma message_parses:
  assumes "blank_request (httpparser_init_request junk (take 30 (req_headers junk)) 30)" and "good_message x"
  obtains q where "httpparser_parse_request (httpparser_init_request junk (take 30 (req_headers junk)) 30)
      (recv_into payload (message_bytes x)) (int (length (message_bytes x))) = Some (0, q)"
    "req_path q = Some (zt (message_url x))" "fst (httpparser_free_request q) = message_frees x"
proof -
  let ?rq = "httpparser_init_request junk (take 30 (req_headers junk)) 30"
  obtain m p hs body where x: "x = (m, p, hs, body)" by (cases x)
  let ?R = "render_request m p hs" let ?rest = "drop (length ?R + length body) payload"
  let ?len = "int (length ?R + length body)"
  have g: "m \<in> set http_methods" "length m < 7" "good_path p" "list_all good_header hs" "length hs \<le> headers_max_length ?rq"
      "map_of (lowered hs) ''transfer-encoding'' = None" "declared_length hs = int (length body)"
      "body \<noteq> [] \<longrightarrow> map_of (lowered hs) ''content-type'' \<noteq> None"
    using assms(2) x by (simp_all add: body_declared_def httpparser_init_request_def)
  have four: "4 \<le> length ?R" by (simp add: render_request_def)
  obtain q where q: "httpparser_parse_request ?rq (?R @ body @ ?rest) ?len =
        parse_body q (?R @ body @ ?rest) ?len (length ?R - 4) (int (length body))"
      "request_ok q" "headers_of q = lowered hs" "req_path q = Some (zt p)" "req_body q = None"
    using parse_upto_body [OF assms(1) g(1-4), of "body @ ?rest" ?len] g(5,7) by auto
  show ?thesis
  proof (cases "body = []")
    case True
    then have "parse_body q (?R @ body @ ?rest) ?len (length ?R - 4) (int (length body)) = Some (0, q)"
      using parse_body_none [OF q(2)] q(3) g(6) by simp
    then show ?thesis
      using that [of q] q True x by (simp add: recv_into_def httpparser_free_request_def)
  next
    case False
    have "parse_body q (?R @ body @ ?rest) ?len (length ?R - 4) (int (length body)) = Some (
           if map_of (headers_of q) ''content-type'' = None then (- 1, q)
           else if ?len - int (length ?R - 4) - 4 \<noteq> int (length body) then (- 1, q)
           else (0, q\<lparr>req_body := Some (take (nat (int (length body))) (drop (length ?R - 4 + 4) (?R @ body @ ?rest))),
                      body_length := nat (int (length body)), finished := True\<rparr>))"
      by (rule parse_body_plain) (use q(2,3) g(6) False four in auto)
    then have "httpparser_parse_request ?rq (?R @ body @ ?rest) ?len =
        Some (0, q\<lparr>req_body := Some body, body_length := length body, finished := True\<rparr>)"
      using q(1,3) g(8) False four by auto
    then show ?thesis
      using that [of "q\<lparr>req_body := Some body, body_length := length body, finished := True\<rparr>"] q(4) False x
      by (simp add: recv_into_def httpparser_free_request_def)
  qed
qed

lemma message_nonempty: "message_bytes x \<noteq> []"
  by (cases x) (simp add: render_request_def)

lemma connection_message:
  assumes "blank_request (httpparser_init_request junk (take 30 (req_headers junk)) 30)" and "good_message x"
    and "\<And>q. req_path q = Some (zt (message_url x)) \<Longrightarrow> callback env q app = Some (Ret (app', outs))"
    and "listen_messages junk (serve env) (recv_into payload (message_bytes x)) recvs app' = Some (app'', evs)"
  shows "\<exists>q. listen_messages junk (serve env) payload (message_bytes x # recvs) app =
    Some (app'', [Ev_request q] @ map Ev_response outs @ map Ev_freed (message_frees x) @ evs)"
proof -
  obtain q where q: "httpparser_parse_request (httpparser_init_request junk (take 30 (req_headers junk)) 30)
      (recv_into payload (message_bytes x)) (int (length (message_bytes x))) = Some (0, q)"
    "req_path q = Some (zt (message_url x))" "fst (httpparser_free_request q) = message_frees x"
    by (rule message_parses [OF assms(1,2)])
  have "serve env app q = Some (app', map Ev_response outs)" using assms(3) [OF q(2)] by (simp add: serve_def)
  then show ?thesis using q(3) assms(4) by (simp add: listen_parsed [OF q(1) message_nonempty])
qed

lemma connection_request:
  assumes "blank_request (httpparser_init_request junk (take 30 (req_headers junk)) 30)"
    and "m \<in> set http_methods" and "length m < 7" and "good_path p" and "list_all good_header hs"
    and "length hs \<le> 30" and "declared_length hs = 0" and "map_of (lowered hs) ''transfer-encoding'' = None"
    and "\<And>q. req_path q = Some (zt p) \<Longrightarrow> callback env q app = Some (Ret (app', [out]))"
    and "listen_messages junk (serve env) (recv_into payload (render_request m p hs)) recvs app' = Some (app'', evs)"
  shows "\<exists>q. listen_messages junk (serve env) payload (render_request m p hs # recvs) app =
    Some (app'', [Ev_request q, Ev_response out, Ev_freed (zt p)] @ evs)"
proof -
  let ?x = "(m, p, hs, [])"
  have g: "good_message ?x" using assms(2-8) by (simp add: body_declared_def)
  have x: "message_bytes ?x = render_request m p hs" "message_url ?x = p" "message_frees ?x = [zt p]" by simp_all
  show ?thesis
    using connection_message [OF assms(1) g, unfolded x, OF assms(9,10)] by simp
qed

lemma demo_connection:
  "\<exists>app' evs. listen_messages request_30 (serve demo_env) (replicate 100 NUL)
     [render_request ''GET'' (url ''/api/produtos/lista'' []) []] demo_app = Some (app', evs)"
proof -
  have q: "sql_result demo_env True ''SELECT * FROM produtos;'' (app_db demo_app) =
      ([''SELECT * FROM produtos;''], Inr [[''Bolo'', ''doce'', ''/b.png'', ''20'']])"
    by (simp add: sql_result_def demo_env_def demo_exec_def demo_app_def)
  have b: "blank_request (httpparser_init_request request_30 (take 30 (req_headers request_30)) 30)"
    by (simp add: init_request_30 request_30_blank)
  have p: "good_path (url ''/api/produtos/lista'' [])" by code_simp
  obtain app' out where c: "\<And>q. req_path q = Some (zt (url ''/api/produtos/lista'' [])) \<Longrightarrow>
      callback demo_env q demo_app = Some (Ret (app', [out]))"
    using products_listing_result [OF _ _ q, where ps = "[]"] demo_listing_short
    by (fastforce simp: demo good_row_def demo_row_text demo_price)
  have "\<exists>q. listen_messages request_30 (serve demo_env) (replicate 100 NUL)
     (render_request ''GET'' (url ''/api/produtos/lista'' []) [] # []) demo_app =
       Some (app', [Ev_request q, Ev_response out, Ev_freed (zt (url ''/api/produtos/lista'' []))] @ [Ev_disconnect])"
    by (rule connection_request [OF b _ _ p _ _ _ _ c])
      (simp_all add: http_methods_def declared_length_def lowered_def)
  then show ?thesis by blast
qed

theorem connection_protocol_witness:
  "\<exists>app' evs. listen_messages request_30 (serve demo_env) (replicate 100 NUL)
     [render_request ''GET'' (url ''/api/produtos/lista'' []) []] demo_app = Some (app', evs) \<and>
     finished answered evs"
  using demo_connection connection_protocol by blast

theorem connection_releases_database_witness:
  "\<exists>app' evs. listen_messages request_30 (serve demo_env) (replicate 100 NUL)
     [render_request ''GET'' (url ''/api/produtos/lista'' []) []] demo_app = Some (app', evs) \<and>
     app_open app' = app_open demo_app \<and> app_builders app' = app_builders demo_app"
  using demo_connection connection_releases_database by blast

end
