(* ===== verification/Shop_Answers.thy ===== *)
theory Shop_Answers
  imports Shop_Server
begin

text \<open>
  Which requests the shop answers. \<open>answerable\<close> states, route by route, what the callback
  of \<^verbatim>\<open>server/main.c\<close> relies on without checking it: the columns of a row, a price that
  fits an \<^verbatim>\<open>int\<close>, a session parameter, a product that still exists. A request that
  satisfies it is answered, and so is any sequence of such requests, also when they arrive
  as bytes on one connection: \<open>answer_all\<close> is the shop as a machine on URLs, and the
  connection loop is shown to implement it.
\<close>

section \<open>One request\<close>

definition all_params :: "(string \<times> string) list \<Rightarrow> string list \<Rightarrow> bool" where
  "all_params ps ks \<longleftrightarrow> list_all (\<lambda>k. param ps k \<noteq> None) ks"

definition listing_ready :: "int + string list list \<Rightarrow> bool" where
  "listing_ready r = (case r of
     Inl st \<Rightarrow> True
   | Inr rows \<Rightarrow> list_all good_row rows \<and> length (comma_list (map row_text rows)) + 2 < 10 ^ 9)"

definition cart_ready :: "('db, 'g) env \<Rightarrow> 'db \<times> (int + string list list) \<Rightarrow> bool" where
  "cart_ready env r = (case r of
     (db, Inl st) \<Rightarrow> True
   | (db, Inr rows) \<Rightarrow> list_all (\<lambda>r. 2 \<le> length r) rows \<and>
       (case cart_texts env (map (\<lambda>r. r ! 1) rows) db of
          None \<Rightarrow> False
        | Some (db', texts) \<Rightarrow> length (comma_list texts) + 2 < 10 ^ 9))"

definition login_ready :: "('db, 'g) env \<Rightarrow> 'db app \<Rightarrow> int + string list list \<Rightarrow> bool" where
  "login_ready env app r = (case r of
     Inl st \<Rightarrow> True
   | Inr rows \<Rightarrow> rows \<noteq> [] \<longrightarrow> (case env_getrandom env (app_draws app) of
        None \<Rightarrow> False
      | Some seed \<Rightarrow> table_map (app_sessions app) (session_id (env_srand env) (env_rand env) seed) = None))"

definition session_ready :: "(string \<times> string) list \<Rightarrow> 'db app \<Rightarrow> (string \<Rightarrow> bool) \<Rightarrow> bool" where
  "session_ready ps app P = (case param ps ''session'' of
     None \<Rightarrow> False
   | Some s \<Rightarrow> (case table_map (app_sessions app) s of
       None \<Rightarrow> True
     | Some user \<Rightarrow> (case user of None \<Rightarrow> False | Some u \<Rightarrow> P u)))"

definition answerable :: "('db, 'g) env \<Rightarrow> 'db app \<Rightarrow> (string \<times> string) list \<Rightarrow> route option \<Rightarrow> bool" where
  "answerable env app ps r = (case r of
     Some Produtos_lista \<Rightarrow> listing_ready (snd (sql_result env True ''SELECT * FROM produtos;'' (app_db app)))
   | Some Login \<Rightarrow> all_params ps [''email'', ''password''] \<longrightarrow>
       login_ready env app (snd (sql_result env True
         (login_sql (norm (the (param ps ''email''))) (norm (the (param ps ''password'')))) (app_db app)))
   | Some Produtos_add \<Rightarrow> all_params ps [''nome'', ''tipo'', ''imagem'', ''preco''] \<and> param ps ''senha'' = Some SENHA \<longrightarrow>
       c_atoi (zt (the (param ps ''preco''))) \<noteq> None
   | Some Carrinho_add \<Rightarrow> all_params ps [''produto''] \<longrightarrow> session_ready ps app (\<lambda>u. True)
   | Some Carrinho_del \<Rightarrow> all_params ps [''produto''] \<longrightarrow> session_ready ps app (\<lambda>u. True)
   | Some Carrinho_lista \<Rightarrow> session_ready ps app (\<lambda>u. cart_ready env (sql_result env True (cart_list_sql u) (app_db app)))
   | _ \<Rightarrow> True)"

text \<open>The texts a route can answer with: a response without a body, a JSON value with its length, or
  the 404 text. Deleting a product is answered without any header.\<close>

definition plain_reply :: "int \<Rightarrow> string" where
  "plain_reply st = ''HTTP/1.1 '' @ show_int st @ '' '' @ httpserver_get_status_text st @ CRLF @
     ''Access-Control-Allow-Origin: *'' @ CRLF @ CRLF"

definition not_found_reply :: string where
  "not_found_reply = ''HTTP/1.1 404 Not Found'' @ CRLF @ ''Content-Type: application/json'' @ CRLF @
     ''Content-Length: 29'' @ CRLF @ ''Access-Control-Allow-Origin: *'' @ CRLF @ CRLF @ ''Base para o projeto da UCP :)''"

definition list_reply :: "string \<Rightarrow> bool" where
  "list_reply text \<longleftrightarrow> (\<exists>items. text = json_reply (''['' @ comma_list items @ '']''))"

definition session_reply :: "string \<Rightarrow> bool" where
  "session_reply text \<longleftrightarrow> (\<exists>sid. length sid = 16 \<and> set sid \<subseteq> set characters \<and> text = json_reply sid)"

definition route_answer :: "route option \<Rightarrow> string \<Rightarrow> bool" where
  "route_answer r text = (case r of
     None \<Rightarrow> text = not_found_reply
   | Some Session_check \<Rightarrow> text = not_found_reply
   | Some Produtos_lista \<Rightarrow> list_reply text \<or> text \<in> plain_reply ` {400, 500}
   | Some Carrinho_lista \<Rightarrow> list_reply text \<or> text \<in> plain_reply ` {400, 403, 500}
   | Some Login \<Rightarrow> session_reply text \<or> text \<in> plain_reply ` {400, 403, 500}
   | Some Register \<Rightarrow> text \<in> plain_reply ` {204, 400, 500}
   | Some Produtos_del \<Rightarrow> text = ''HTTP/1.1 204 No Content'' @ CRLF @ CRLF \<or> text \<in> plain_reply ` {400, 403, 500}
   | _ \<Rightarrow> text \<in> plain_reply ` {204, 400, 403, 500})"

text \<open>\<open>answers r m\<close>: the handler returns with one complete response of the route \<open>r\<close>, and its table of
  sessions is a table again.\<close>

definition answers :: "route option \<Rightarrow> 'db reply \<Rightarrow> bool" where
  "answers r m \<longleftrightarrow> (\<exists>app' text. m = Some (Ret (app', [map Some text])) \<and> table_ok (app_sessions app') \<and> route_answer r text)"

lemma cors_text: "response_text (cors_response st) = plain_reply st"
  by (simp add: response_text_def cors_response_def plain_reply_def render_headers_def header_line_def)

lemma bare_text: "response_text ((cors_response 204)\<lparr>rs_headers_length := 0\<rparr>) = ''HTTP/1.1 204 No Content'' @ CRLF @ CRLF"
  by code_simp

lemma answersI:
  "m = Some (Ret (app', [map Some t])) \<Longrightarrow> table_ok (app_sessions app') \<Longrightarrow> route_answer r t \<Longrightarrow> answers r m"
  by (auto simp: answers_def)

lemma answers_cors:
  "100 \<le> st \<Longrightarrow> st < 1000 \<Longrightarrow> table_ok (app_sessions app) \<Longrightarrow> route_answer r (plain_reply st) \<Longrightarrow>
   answers r (reply app (cors_response st))"
  by (rule answersI [OF reply_cors]) (simp_all add: cors_text)

lemma answers_command:
  "response_ok success \<Longrightarrow> table_ok (app_sessions app) \<Longrightarrow> route_answer r (response_text success) \<Longrightarrow>
   route_answer r (plain_reply 400) \<Longrightarrow> route_answer r (plain_reply 500) \<Longrightarrow> answers r (command_route env sql success app)"
  by (auto simp: command_route_after after_command_def cors_text split: prod.split sum.split
      dest: sql_status intro!: answersI [OF refl])

lemmas answers_simps = answers_cors answers_command route_answer_def cors_text bare_text

lemma answers_not_found:
  assumes "r \<in> {None, Some Session_check}" and "table_ok (app_sessions app)"
  shows "answers r (not_found app)"
proof -
  have "response_text (json_response 404 (c_snprintf 10 (show_nat (length not_found_body))) (zt not_found_body)
      (length not_found_body)) = not_found_reply" by code_simp
  then show ?thesis
    unfolding not_found_def
    by (intro answersI [OF reply_ok [OF not_found_ok]]) (use assms in \<open>auto simp: route_answer_def\<close>)
qed

lemma answers_register: "info_ok info \<Longrightarrow> table_ok (app_sessions app) \<Longrightarrow> answers (Some Register) (register_route env info app)"
  by (simp add: register_result answers_simps)

lemma answers_del: "info_ok info \<Longrightarrow> table_ok (app_sessions app) \<Longrightarrow> answers (Some Produtos_del) (produtos_del env info app)"
  by (simp add: produtos_del_result answers_simps)

lemma answers_listing:
  assumes "listing_ready (snd (sql_result env True ''SELECT * FROM produtos;'' (app_db app)))" and "table_ok (app_sessions app)"
  shows "answers (Some Produtos_lista) (produtos_lista env app)"
proof (cases "sql_result env True ''SELECT * FROM produtos;'' (app_db app)")
  case (Pair db r)
  show ?thesis
  proof (cases r)
    case (Inl st)
    have "st = 500 \<or> st = 400" using Pair Inl by (simp add: sql_status)
    then show ?thesis using Pair Inl assms(2)
      by (auto simp: produtos_lista_def run_sql_result c_snprintf_def answers_simps)
  next
    case (Inr rows)
    then show ?thesis using Pair assms produtos_lista_rows [of env app db rows]
      by (auto simp: listing_ready_def route_answer_def list_reply_def intro!: answersI)
  qed
qed

lemma answers_add:
  assumes "info_ok info" and "table_ok (app_sessions app)"
    and "all_params (visible info) [''nome'', ''tipo'', ''imagem'', ''preco''] \<and> param (visible info) ''senha'' = Some SENHA \<longrightarrow>
      c_atoi (zt (the (param (visible info) ''preco''))) \<noteq> None"
  shows "answers (Some Produtos_add) (produtos_add env info app)"
proof (cases "all_params (visible info) [''nome'', ''tipo'', ''imagem'', ''preco''] \<and> param (visible info) ''senha'' = Some SENHA")
  case True
  then obtain p where p: "param (visible info) ''preco'' = Some p" by (auto simp: all_params_def)
  then obtain v where "c_atoi (the (deref_value info ''preco'')) = Some v"
    using True assms(3) deref_price [OF assms(1) p] by auto
  then show ?thesis using True assms(2)
    by (auto simp: produtos_add_result [OF assms(1)] all_params_def answers_simps)
next
  case False
  then show ?thesis using assms(2) by (auto simp: produtos_add_result [OF assms(1)] all_params_def answers_simps)
qed

lemma session_readyD:
  assumes "session_ready ps app P"
  obtains s where "param ps ''session'' = Some s" "table_map (app_sessions app) s = None"
  | s u where "param ps ''session'' = Some s" "table_map (app_sessions app) s = Some (Some u)" "P u"
  using assms by (auto simp: session_ready_def split: option.splits)

lemma answers_cart_command:
  assumes "info_ok info" and "table_ok (app_sessions app)"
    and "all_params (visible info) [''produto''] \<longrightarrow> session_ready (visible info) app (\<lambda>u. True)"
    and "r \<in> {Some Carrinho_add, Some Carrinho_del}"
  shows "answers r (cart_command sql env info app)"
proof (cases "param (visible info) ''produto''")
  case None
  then show ?thesis using assms(2,4) by (auto simp: cart_command_result [OF assms(1,2)] answers_simps)
next
  case (Some q)
  then have "session_ready (visible info) app (\<lambda>u. True)" using assms(3) by (simp add: all_params_def)
  then show ?thesis
    by (rule session_readyD) (use Some assms(2,4) in \<open>auto simp: cart_command_result [OF assms(1,2)] answers_simps\<close>)
qed

lemma answers_cart_list:
  assumes "info_ok info" and "table_ok (app_sessions app)"
    and "session_ready (visible info) app (\<lambda>u. cart_ready env (sql_result env True (cart_list_sql u) (app_db app)))"
  shows "answers (Some Carrinho_lista) (carrinho_lista env info app)"
  using assms(3)
proof (rule session_readyD)
  fix s assume "param (visible info) ''session'' = Some s" "table_map (app_sessions app) s = None"
  then show ?thesis using assms(2) by (simp add: carrinho_lista_result [OF assms(1,2)] answers_simps)
next
  fix s u assume s: "param (visible info) ''session'' = Some s" "table_map (app_sessions app) s = Some (Some u)"
    and ready: "cart_ready env (sql_result env True (cart_list_sql u) (app_db app))"
  obtain db1 r where r: "sql_result env True (cart_list_sql u) (app_db app) = (db1, r)" by (cases "sql_result env True (cart_list_sql u) (app_db app)")
  show ?thesis
  proof (cases r)
    case (Inl st)
    have "st = 500 \<or> st = 400" using r Inl by (simp add: sql_status)
    then show ?thesis using r s Inl assms(2)
      by (auto simp: carrinho_lista_result [OF assms(1,2)] answers_simps)
  next
    case (Inr rows)
    then obtain db texts where t: "cart_texts env (map (\<lambda>r. r ! 1) rows) db1 = Some (db, texts)"
        "list_all (\<lambda>r. 2 \<le> length r) rows" "length (comma_list texts) + 2 < 10 ^ 9"
      using ready r by (auto simp: cart_ready_def split: option.splits)
    have "carrinho_lista env info app = Some (Ret (app\<lparr>app_db := db, app_products := app_products app + length rows\<rparr>,
        [map Some (json_reply (''['' @ comma_list texts @ '']''))]))"
      using r s Inr cart_rows_finish [OF t(2,1,3), of app] by (simp add: carrinho_lista_result [OF assms(1,2)])
    then show ?thesis by (rule answersI) (use assms(2) in \<open>auto simp: route_answer_def list_reply_def\<close>)
  qed
qed

lemma session_reply_id: "session_reply (json_reply (session_id srand rand seed))"
  unfolding session_reply_def using session_id_chars [of srand rand seed] by (intro exI [of _ "session_id srand rand seed"]) simp

lemma answers_login:
  assumes "info_ok info" and "table_ok (app_sessions app)"
    and "all_params (visible info) [''email'', ''password''] \<longrightarrow>
       login_ready env app (snd (sql_result env True
         (login_sql (norm (the (param (visible info) ''email''))) (norm (the (param (visible info) ''password'')))) (app_db app)))"
  shows "answers (Some Login) (login_route env info app)"
proof (cases "all_params (visible info) [''email'', ''password'']")
  case False
  then show ?thesis using assms(2)
    by (auto simp: all_params_def login_route_def any_missing_param [OF assms(1)] answers_simps)
next
  case True
  then obtain e p where v: "param (visible info) ''email'' = Some e" "param (visible info) ''password'' = Some p"
    by (auto simp: all_params_def)
  obtain db r where r: "sql_result env True (login_sql (norm e) (norm p)) (app_db app) = (db, r)"
    by (cases "sql_result env True (login_sql (norm e) (norm p)) (app_db app)")
  have ready: "login_ready env app r" using assms(3) True v r by simp
  show ?thesis
  proof (cases "\<exists>rows. r = Inr rows \<and> rows \<noteq> []")
    case True
    then obtain rows seed where rows: "r = Inr rows" "rows \<noteq> []" "env_getrandom env (app_draws app) = Some seed"
        "table_map (app_sessions app) (session_id (env_srand env) (env_rand env) seed) = None"
      using ready by (auto simp: login_ready_def split: option.splits)
    let ?sid = "session_id (env_srand env) (env_rand env) seed"
    obtain sessions where s: "login_route env info app =
        reply (app\<lparr>app_db := db, app_sessions := sessions, app_draws := app_draws app + 1\<rparr>)
          (json_response 200 ''16'' (?sid @ [NUL]) 16)" "table_ok sessions"
      using login_result [OF assms(1,2) v rows(3) r [unfolded rows(1)] rows(2,4)] by blast
    have "show_nat 16 = ''16''" by code_simp
    then have t: "response_text (json_response 200 ''16'' (?sid @ [NUL]) 16) = json_reply ?sid"
      using json_response_text [of 16 "?sid @ [NUL]" "''16''"] by simp
    show ?thesis
      unfolding s(1) by (intro answersI [OF reply_ok]) (simp_all add: json_response_ok s(2) t route_answer_def session_reply_id)
  next
    case False
    obtain b1 b1' where 1: "deref_value info ''email'' = Some b1" "normalize_string b1 = Some b1'" "cstr b1' = norm e"
      by (rule deref_norm [OF assms(1) _ _ v(1)]) auto
    obtain b2 b2' where 2: "deref_value info ''password'' = Some b2" "normalize_string b2 = Some b2'" "cstr b2' = norm p"
      by (rule deref_norm [OF assms(1) _ _ v(2)]) auto
    have "login_route env info app = reply (app\<lparr>app_db := db\<rparr>) (cors_response (case r of Inl st \<Rightarrow> st | Inr rows \<Rightarrow> 403))"
      using 1 2 v r False by (cases r) (simp_all add: login_route_def any_missing_param [OF assms(1)] run_sql_result pq_done_open)
    moreover have "(case r of Inl st \<Rightarrow> st | Inr rows \<Rightarrow> 403) \<in> {400, 403, 500}"
      using r sql_status [of env True "login_sql (norm e) (norm p)" "app_db app" db] by (cases r) auto
    ultimately show ?thesis using assms(2) by (auto simp: answers_simps)
  qed
qed

lemma run_route_answers:
  assumes "info_ok info" and "table_ok (app_sessions app)" and "answerable env app (visible info) r"
  shows "answers r (run_route env info r app)"
proof (cases r)
  case None
  then show ?thesis using assms(2) by (simp add: run_route_def answers_not_found)
next
  case (Some x)
  then show ?thesis using assms
    by (cases x) (simp_all add: run_route_def answerable_def answers_not_found answers_register answers_del
        answers_listing answers_add answers_cart_command answers_cart_list answers_login carrinho_add_def carrinho_del_def)
qed

lemma callback_answers:
  assumes "req_path request = Some (zt (url path ps))" and "good_url path ps" and "table_ok (app_sessions app)"
    and "answerable env app ps (route_spec (url path ps) routes)"
  shows "answers (route_spec (url path ps) routes) (callback env request app)"
proof -
  obtain info where "info_ok info" "visible info = ps"
      "callback env request app = run_route env info (route_spec (url path ps) routes) app"
    using callback_run [OF assms(1,2) refl, where env = env and app = app] by blast
  then show ?thesis using run_route_answers [of info app env] assms(3,4) by simp
qed

text \<open>C3: Every request whose parameters the query parser accepts, to whatever path, is answered
  with exactly one response, whose complete text is one of those of its route (status line,
  headers, blank line and body, with the length of the body in the header), and leaves the
  table of sessions well-formed, provided that what its route takes for granted is the case:
  an \<open>answerable\<close> request neither traps nor ends the process.\<close>
theorem request_answered:
  assumes "req_path request = Some (zt (url path ps))" and "good_url path ps" and "table_ok (app_sessions app)"
    and "answerable env app ps (route_spec (url path ps) routes)"
  shows "\<exists>app' text. callback env request app = Some (Ret (app', [map Some text])) \<and>
    table_ok (app_sessions app') \<and> route_answer (route_spec (url path ps) routes) text"
  using callback_answers [OF assms] by (simp add: answers_def)

theorem request_answered_witness:
  "\<exists>app' text. callback demo_env (demo_request (url ''/api/carrinho/lista'' [(''session'', ''abc'')])) demo_app =
     Some (Ret (app', [map Some text])) \<and> route_answer (Some Carrinho_lista) text"
proof -
  have t: "cart_texts demo_env (map (\<lambda>r. r ! 1) [[''u@x'', ''Bolo'']]) [cart_list_sql ''u@x''] =
      Some ([produto_sql ''Bolo'', cart_list_sql ''u@x''], [product_text ''Bolo'' ''doce'' ''/b.png'' 20])"
    by (simp add: demo_product_sql demo_price)
  have "length (product_text ''Bolo'' ''doce'' ''/b.png'' 20) \<le> 200" by code_simp
  then have "session_ready [(''session'', ''abc'')] demo_app
      (\<lambda>u. cart_ready demo_env (sql_result demo_env True (cart_list_sql u) (app_db demo_app)))"
    using t by (simp add: session_ready_def demo demo_cart_sql cart_ready_def)
  then show ?thesis
    using request_answered [OF demo_request_path _ demo_sessions(1), of "''/api/carrinho/lista''" "[(''session'', ''abc'')]" demo_env]
    by (auto simp: answerable_def route_table demo)
qed

section \<open>Sequences of requests and connections\<close>

text \<open>The shop as a machine on URLs: the states and the responses of a sequence of requests.\<close>

definition path_request :: "string \<Rightarrow> httpparser_request" where
  "path_request u = request_30\<lparr>req_path := Some (zt u)\<rparr>"

fun answer_all :: "('db, 'g) env \<Rightarrow> string list \<Rightarrow> 'db app \<Rightarrow> ('db app \<times> outbuf list) option" where
  "answer_all env [] app = Some (app, [])"
| "answer_all env (u # us) app = (case callback env (path_request u) app of
     Some (Ret (app1, sent)) \<Rightarrow> map_option (\<lambda>(app2, outs). (app2, sent @ outs)) (answer_all env us app1)
   | _ \<Rightarrow> None)"

definition response_list :: "event list \<Rightarrow> outbuf list" where
  "response_list evs = concat (map (\<lambda>e. case e of Ev_response b \<Rightarrow> [b] | _ \<Rightarrow> []) evs)"

definition freed_list :: "event list \<Rightarrow> bytes list" where
  "freed_list evs = concat (map (\<lambda>e. case e of Ev_freed f \<Rightarrow> [f] | _ \<Rightarrow> []) evs)"

lemma event_lists [simp]:
  "response_list (a @ b) = response_list a @ response_list b" "freed_list (a @ b) = freed_list a @ freed_list b"
  "response_list (Ev_request q # a) = response_list a" "freed_list (Ev_request q # a) = freed_list a"
  "response_list [] = []" "freed_list [] = []"
  by (simp_all add: response_list_def freed_list_def)

lemma connection_refines_answers:
  assumes "blank_request (httpparser_init_request junk (take 30 (req_headers junk)) 30)"
    and "list_all good_message msgs" and "answer_all env (map message_url msgs) app = Some (app', outs)"
  shows "\<exists>evs. listen_messages junk (serve env) payload (map message_bytes msgs) app = Some (app', evs) \<and>
    response_list evs = outs \<and> freed_list evs = concat (map message_frees msgs) \<and> requests evs = length msgs"
  using assms(2,3)
proof (induction msgs arbitrary: app payload outs)
  case Nil
  then show ?case by (simp add: response_list_def freed_list_def requests_def)
next
  case (Cons x msgs)
  obtain app1 sent outs' where c: "callback env (path_request (message_url x)) app = Some (Ret (app1, sent))"
      "answer_all env (map message_url msgs) app1 = Some (app', outs')" "outs = sent @ outs'"
    using Cons.prems(2) by (auto split: option.splits outcome.splits)
  have run: "callback env q app = Some (Ret (app1, sent))" if "req_path q = Some (zt (message_url x))" for q
    using callback_path [of q "path_request (message_url x)" env app] that c(1) by (simp add: path_request_def)
  have g: "good_message x" "list_all good_message msgs" using Cons.prems(1) by simp_all
  obtain evs where evs: "listen_messages junk (serve env) (recv_into payload (message_bytes x)) (map message_bytes msgs) app1 =
        Some (app', evs)" "response_list evs = outs'" "freed_list evs = concat (map message_frees msgs)" "requests evs = length msgs"
    using Cons.IH [OF g(2) c(2)] by blast
  obtain q where q: "listen_messages junk (serve env) payload (message_bytes x # map message_bytes msgs) app =
      Some (app', [Ev_request q] @ map Ev_response sent @ map Ev_freed (message_frees x) @ evs)"
    using connection_message [OF assms(1) g(1) run evs(1)] by blast
  have "response_list (map Ev_freed fs) = []" "freed_list (map Ev_freed fs) = fs" for fs
    by (induction fs) (simp_all add: response_list_def freed_list_def)
  moreover have "response_list (map Ev_response rs) = rs" "freed_list (map Ev_response rs) = []"
      "requests (map Ev_response rs) = 0" for rs
    by (induction rs) (simp_all add: response_list_def freed_list_def)
  ultimately show ?case using evs(2-4) c(3) q by simp
qed

text \<open>C4: The loop over the bytes of a connection implements the shop on URLs: for any list of
  well-formed messages, if the shop answers their URLs one after the other, the connection
  ends in the same state, has sent exactly those responses in that order, and has freed exactly
  the paths and bodies it had allocated.\<close>
theorem connection_refines:
  assumes "blank_request (httpparser_init_request junk (take 30 (req_headers junk)) 30)"
    and "list_all good_message msgs" and "answer_all env (map message_url msgs) app = Some (app', outs)"
  shows "\<exists>evs. listen_messages junk (serve env) payload (map message_bytes msgs) app = Some (app', evs) \<and>
    response_list evs = outs \<and> freed_list evs = concat (map message_frees msgs)"
  using connection_refines_answers [OF assms] by blast

text \<open>A sequence of requests each of which is answerable in the state it meets.\<close>

fun all_answerable :: "('db, 'g) env \<Rightarrow> (string \<times> (string \<times> string) list) list \<Rightarrow> 'db app \<Rightarrow> bool" where
  "all_answerable env [] app \<longleftrightarrow> True"
| "all_answerable env ((path, ps) # rs) app \<longleftrightarrow> good_url path ps \<and> answerable env app ps (route_spec (url path ps) routes) \<and>
     (case callback env (path_request (url path ps)) app of
        Some (Ret (app1, sent)) \<Rightarrow> all_answerable env rs app1
      | _ \<Rightarrow> True)"

definition url_answer :: "string \<times> (string \<times> string) list \<Rightarrow> string \<Rightarrow> bool" where
  "url_answer r text = (case r of (path, ps) \<Rightarrow> route_answer (route_spec (url path ps) routes) text)"

lemma answer_all_total:
  assumes "all_answerable env rs app" and "table_ok (app_sessions app)"
  shows "\<exists>app' texts. answer_all env (map (\<lambda>(path, ps). url path ps) rs) app = Some (app', map (map Some) texts) \<and>
    table_ok (app_sessions app') \<and> list_all2 url_answer rs texts"
  using assms
proof (induction rs arbitrary: app)
  case Nil
  then show ?case by simp
next
  case (Cons r rs)
  obtain path ps where r: "r = (path, ps)" by (cases r)
  have g: "good_url path ps" "answerable env app ps (route_spec (url path ps) routes)" using Cons.prems(1) r by auto
  obtain app1 t where c: "callback env (path_request (url path ps)) app = Some (Ret (app1, [map Some t]))"
      "table_ok (app_sessions app1)" "url_answer r t"
    using callback_answers [OF _ g(1) Cons.prems(2) g(2), of "path_request (url path ps)"]
    by (auto simp: path_request_def answers_def url_answer_def r)
  obtain app' texts where "answer_all env (map (\<lambda>(path, ps). url path ps) rs) app1 = Some (app', map (map Some) texts)"
      "table_ok (app_sessions app')" "list_all2 url_answer rs texts"
    using Cons.IH [of app1] Cons.prems(1) r c by auto
  then show ?case using r c by (intro exI [of _ app'] exI [of _ "t # texts"]) simp
qed

text \<open>C5: A client sends any number of well-formed, answerable requests on one connection, each of which
  arrives in one \<^verbatim>\<open>recv\<close> of its own: it gets exactly one response for each of them, in
  order, whose complete text is one of the texts of the request's route, and the server ends
  the connection with its table of sessions well-formed. Nothing on the way traps.\<close>
theorem connection_total:
  assumes "blank_request (httpparser_init_request junk (take 30 (req_headers junk)) 30)"
    and "list_all good_message msgs" and "map message_url msgs = map (\<lambda>(path, ps). url path ps) rs"
    and "all_answerable env rs app" and "table_ok (app_sessions app)"
  shows "\<exists>app' evs texts. listen_messages junk (serve env) payload (map message_bytes msgs) app = Some (app', evs) \<and>
    response_list evs = map (map Some) texts \<and> list_all2 url_answer rs texts \<and> table_ok (app_sessions app')"
proof -
  obtain app' texts where a: "answer_all env (map message_url msgs) app = Some (app', map (map Some) texts)"
      "table_ok (app_sessions app')" "list_all2 url_answer rs texts"
    using answer_all_total [OF assms(4,5)] assms(3) by metis
  then show ?thesis using connection_refines_answers [OF assms(1,2) a(1), of payload] by blast
qed

text \<open>Two logins on one connection, the second with a body.\<close>

definition login_params :: "string \<Rightarrow> (string \<times> string) list" where
  "login_params e = [(''email'', e), (''password'', ''p'')]"

definition demo_messages :: "http_message list" where
  "demo_messages = [(''GET'', url ''/api/login'' (login_params ''u@x''), [(''Host'', ''a:80'')], []),
     (''POST'', url ''/api/login'' (login_params ''v@y''), [(''Content-Length'', ''2''), (''Content-Type'', ''t'')], ''hi'')]"

lemma demo_messages_good: "list_all good_message demo_messages"
  by code_simp

lemma demo_messages_urls:
  "map message_url demo_messages = map (\<lambda>(path, ps). url path ps) [(''/api/login'', login_params ''u@x''), (''/api/login'', login_params ''v@y'')]"
  by (simp add: demo_messages_def)

lemma demo_login_sql:
  "sql_result demo_env True (login_sql e p) db = (login_sql e p # db, Inr [[''Ana'', ''u@x'', ''p'']])"
  by (simp add: sql_result_def demo_env_def demo_exec_def login_sql_def c_snprintf_def)

lemma demo_seeds: "env_getrandom demo_env n = Some (word_of_nat (n + 5))"
  by (simp add: demo_env_def)

lemma demo_ids:
  "session_id (env_srand demo_env) (env_rand demo_env) 5 = ''ABCDEFGHIJKLMNOP''"
  "session_id (env_srand demo_env) (env_rand demo_env) 6 = ''BCDEFGHIJKLMNOPQ''"
  by code_simp+

text \<open>A login of the instances: the draw chooses the identifier.\<close>

lemma demo_login_callback:
  assumes "req_path request = Some (zt (url ''/api/login'' (login_params e)))" and "good_pair (''email'', e)"
    and "table_ok (app_sessions app)" and "app_draws app \<le> 1"
    and "sid = (if app_draws app = 0 then ''ABCDEFGHIJKLMNOP'' else ''BCDEFGHIJKLMNOPQ'')" and "table_map (app_sessions app) sid = None"
  obtains app' where "callback demo_env request app = Some (Ret (app', [map Some (json_reply sid)]))"
    "table_ok (app_sessions app')" "table_map (app_sessions app') = (table_map (app_sessions app))(sid \<mapsto> Some (norm e))"
    "app_draws app' = app_draws app + 1"
proof -
  have u: "good_url ''/api/login'' (login_params e)" "param (login_params e) ''email'' = Some e" "param (login_params e) ''password'' = Some ''p''"
    using assms(2) by (simp_all add: login_params_def demo)
  have n: "app_draws app = 0 \<or> app_draws app = 1" using assms(4) by linarith
  have seed: "env_getrandom demo_env (app_draws app) = Some (if app_draws app = 0 then 5 else 6)" using n by (auto simp: demo_seeds)
  have id: "sid = session_id (env_srand demo_env) (env_rand demo_env) (if app_draws app = 0 then 5 else 6)"
    by (simp add: assms(5) demo_ids)
  show ?thesis
    by (rule login_callback [OF assms(1) u(1) assms(3) u(2,3) seed id demo_login_sql _ assms(6)]) (use that in auto)
qed

lemma demo_messages_answerable:
  "all_answerable demo_env [(''/api/login'', login_params ''u@x''), (''/api/login'', login_params ''v@y'')] demo_app"
proof -
  have u: "good_url ''/api/login'' (login_params ''u@x'')" "good_url ''/api/login'' (login_params ''v@y'')"
      "good_pair (''email'', ''u@x'')" by (simp_all add: login_params_def demo)
  have zero: "app_draws demo_app = 0" by (simp add: demo_app_def)
  obtain app1 where c: "callback demo_env (path_request (url ''/api/login'' (login_params ''u@x''))) demo_app =
        Some (Ret (app1, [map Some (json_reply ''ABCDEFGHIJKLMNOP'')]))"
      "table_map (app_sessions app1) = (table_map (app_sessions demo_app))(''ABCDEFGHIJKLMNOP'' \<mapsto> Some (norm ''u@x''))"
      "app_draws app1 = 1"
    using demo_login_callback [OF _ u(3) demo_sessions(1), of "path_request (url ''/api/login'' (login_params ''u@x''))" "''ABCDEFGHIJKLMNOP''"]
    by (auto simp: path_request_def zero demo_sessions)
  have "answerable demo_env demo_app (login_params ''u@x'') (Some Login)"
    "answerable demo_env app1 (login_params ''v@y'') (Some Login)"
    by (simp_all add: answerable_def login_ready_def demo_login_sql demo_seeds zero c demo_ids demo_sessions)
  then show ?thesis using u(1,2) c(1) by (simp add: route_table split: option.split outcome.split)
qed

theorem connection_total_witness:
  "\<exists>app' evs texts. listen_messages request_30 (serve demo_env) (replicate 100 NUL) (map message_bytes demo_messages) demo_app =
      Some (app', evs) \<and> response_list evs = map (map Some) texts \<and> length texts = 2"
proof -
  have "blank_request (httpparser_init_request request_30 (take 30 (req_headers request_30)) 30)"
    by (simp add: init_request_30 request_30_blank)
  from connection_total [OF this demo_messages_good demo_messages_urls demo_messages_answerable demo_sessions(1)]
  show ?thesis by (force dest: list_all2_lengthD)
qed

theorem connection_refines_witness:
  "\<exists>app' outs evs. answer_all demo_env (map message_url demo_messages) demo_app = Some (app', outs) \<and>
     listen_messages request_30 (serve demo_env) (replicate 100 NUL) (map message_bytes demo_messages) demo_app = Some (app', evs) \<and>
     response_list evs = outs"
proof -
  have b: "blank_request (httpparser_init_request request_30 (take 30 (req_headers request_30)) 30)"
    by (simp add: init_request_30 request_30_blank)
  obtain app' texts where a: "answer_all demo_env (map message_url demo_messages) demo_app = Some (app', map (map Some) texts)"
    using answer_all_total [OF demo_messages_answerable demo_sessions(1)] demo_messages_urls by auto
  show ?thesis using connection_refines [OF b demo_messages_good a, of "replicate 100 NUL"] a by blast
qed

section \<open>From the start of the server\<close>

lemma main_start_state:
  assumes "main_start env os db = Ret (server, app)"
  shows "table_ok (app_sessions app)" and "table_map (app_sessions app) = Map.empty" and "app_open app = 0" and "app_builders app = 0"
    and "app_draws app = 0"
  using assms by (auto simp: main_start_def init_ok init_map split: outcome.splits prod.splits if_splits)

lemma answer_all_sessions:
  assumes "answer_all env us app = Some (app', outs)" and "list_all (\<lambda>u. c_string u \<and> \<not> prefix ''/api/login'' u) us"
  shows "app_sessions app' = app_sessions app"
  using assms
proof (induction us arbitrary: app outs)
  case Nil
  then show ?case by simp
next
  case (Cons u us)
  obtain app1 sent outs' where c: "callback env (path_request u) app = Some (Ret (app1, sent))"
      "answer_all env us app1 = Some (app', outs')"
    using Cons.prems(1) by (auto split: option.splits outcome.splits)
  have "app_sessions app1 = app_sessions app"
    by (rule callback_sessions [OF c(1), of u "[]"]) (use Cons.prems(2) in \<open>simp_all add: path_request_def zt_def\<close>)
  then show ?case using Cons.IH [OF c(2)] Cons.prems(2) by simp
qed

text \<open>Nobody has a cart before somebody has logged in: from the start of the server, whatever
  requests other than logins were answered, and whatever the database returned for them, every
  cart request with a session parameter is answered 403 and does not reach the database.\<close>
theorem no_cart_before_login:
  assumes "main_start env os db = Ret (server, app0)" and "answer_all env us app0 = Some (app, outs)"
    and "list_all (\<lambda>u. c_string u \<and> \<not> prefix ''/api/login'' u) us"
    and "req_path request = Some (zt (url path ps))" and "good_url path ps"
    and "path = ''/api/carrinho/lista'' \<or> path \<in> {''/api/carrinho/add'', ''/api/carrinho/del''} \<and> param ps ''produto'' \<noteq> None"
    and "param ps ''session'' = Some s"
  shows "callback env request app = Some (Ret (app, [map Some (response_text (cors_response 403))]))"
  by (rule cart_unknown_session_result [OF assms(4-6) _ assms(7)])
    (simp_all add: answer_all_sessions [OF assms(2,3)] main_start_state [OF assms(1)])

definition os_up :: os_init where
  "os_up = \<lparr>ret_socket = 3, ret_setsockopt = 0, ret_bind = 0, ret_listen = 0\<rparr>"

lemma demo_start:
  "\<exists>server app0. main_start demo_env os_up [] = Ret (server :: nat httpserver, app0)"
proof -
  have "prefix ''SELECT * FROM usuarios'' (''CREATE'' @ x) = False" "prefix ''SELECT * FROM carrinho'' (''CREATE'' @ x) = False"
    "prefix ''SELECT * FROM produtos'' (''CREATE'' @ x) = False" for x by simp_all
  then show ?thesis
    by (simp add: main_start_def httpserver_start_server_def csocket_server_init_def os_up_def create_tables_def demo_env_def demo_exec_def Let_def)
qed

theorem no_cart_before_login_witness:
  "\<exists>app outs. answer_all demo_env [''/api/register''] app = Some (app, outs) \<and>
     callback demo_env (demo_request (url ''/api/carrinho/add'' [(''produto'', ''Bolo''), (''session'', ''abc'')])) app =
       Some (Ret (app, [map Some (response_text (cors_response 403))]))"
proof -
  obtain server :: "nat httpserver" and app0 where s: "main_start demo_env os_up [] = Ret (server, app0)"
    using demo_start by blast
  obtain info where i: "info_ok info" "visible info = []"
      "callback demo_env (path_request (url ''/api/register'' [])) app0 = run_route demo_env info (Some Register) app0"
    using callback_run [OF _ _ route_table(2), of "path_request (url ''/api/register'' [])" "[]" demo_env app0]
    by (auto simp: path_request_def good_url_simps)
  then have "callback demo_env (path_request ''/api/register'') app0 = Some (Ret (app0, [map Some (response_text (cors_response 400))]))"
    by (simp add: run_route_def register_result param_def reply_cors url_def)
  then have a: "answer_all demo_env [''/api/register''] app0 = Some (app0, [map Some (response_text (cors_response 400))])" by simp
  show ?thesis
    using a no_cart_before_login [OF s a _ demo_request_path, of "''/api/carrinho/add''" "[(''produto'', ''Bolo''), (''session'', ''abc'')]" "''abc''"]
    by (auto simp: demo)
qed

end
