(* ===== verification/Shop_System.thy ===== *)
theory Shop_System
  imports Shop_Answers
begin

text \<open>
  The whole server: the accept loop of \<^verbatim>\<open>server/libs/httpserver.c\<close>, the threads of its
  connections and the shop of \<^verbatim>\<open>server/main.c\<close>, whose state they share. A step accepts a
  connection, stores it in its slot, handles one message of a running connection, or ends one;
  the steps of different connections come in any order. A connection is known by its block of
  connection data, whose number is never used again. A step is atomic: what the threads could
  do to each other inside of one is in \<^verbatim>\<open>Tablec_Race\<close>.
\<close>

section \<open>One message of a connection\<close>

text \<open>What the stack held where a turn puts the request and its 30 headers: any bytes, but
  arrays of the right sizes.\<close>

abbreviation good_stack :: "httpparser_request \<Rightarrow> bool" where
  "good_stack junk \<equiv> blank_request (httpparser_init_request junk (take 30 (req_headers junk)) 30)"

lemma turn_message:
  assumes "good_stack junk" and "good_message x"
    and "\<And>q. req_path q = Some (zt (message_url x)) \<Longrightarrow> callback env q app = Some (Ret (app', [out]))"
  shows "\<exists>q payload'. req_path q = Some (zt (message_url x)) \<and>
    connection_turn junk (serve env) payload (message_bytes x) app =
      Some (Inr (app', payload', [Ev_request q, Ev_response out] @ map Ev_freed (message_frees x)))"
proof -
  obtain q where q: "httpparser_parse_request (httpparser_init_request junk (take 30 (req_headers junk)) 30)
      (recv_into payload (message_bytes x)) (int (length (message_bytes x))) = Some (0, q)"
    "req_path q = Some (zt (message_url x))" "fst (httpparser_free_request q) = message_frees x"
    by (rule message_parses [OF assms(1,2)])
  then show ?thesis using assms(3) by (simp add: connection_turn_def serve_def)
qed

section \<open>The steps\<close>

text \<open>\<open>ss_payload b\<close> is the receive buffer on the stack of the thread of connection \<open>b\<close>, with
  any contents before the first message; the log has the events of all connections in order.\<close>

record ('db, 'd) shop_state =
  ss_system :: "'d system"
  ss_app :: "'db app"
  ss_payload :: "nat \<Rightarrow> bytes"
  ss_log :: "(nat \<times> event) list"

definition shop_start :: "'d httpserver \<Rightarrow> 'db app \<Rightarrow> (nat \<Rightarrow> bytes) \<Rightarrow> ('db, 'd) shop_state" where
  "shop_start server app payload = \<lparr>ss_system = sys_start server, ss_app = app, ss_payload = payload, ss_log = []\<rparr>"

text \<open>The end of a connection: what it still sent, the two callbacks, and its removal.\<close>

definition end_connection :: "nat \<times> nat \<Rightarrow> event list \<Rightarrow> 'd system \<Rightarrow> ('db, 'd) shop_state \<Rightarrow> ('db, 'd) shop_state" where
  "end_connection ib evs y S = S\<lparr>ss_system := y, ss_log := ss_log S @ map (Pair (snd ib)) (evs @ [Ev_disconnect])\<rparr>"

text \<open>Of the steps of \<open>sys_step\<close>, accepting leaves a connection to be stored, storing takes it
  away, and ending is the step that removes the connection.\<close>

inductive shop_step :: "('db, 'g) env \<Rightarrow> ('db, 'd) shop_state \<Rightarrow> ('db, 'd) shop_state \<Rightarrow> bool" for env where
  shop_accept: "sys_step (ss_system S) y \<Longrightarrow> sys_pending (ss_system S) = None \<Longrightarrow> sys_pending y \<noteq> None \<Longrightarrow>
    shop_step env S (S\<lparr>ss_system := y\<rparr>)"
| shop_store: "sys_step (ss_system S) y \<Longrightarrow> sys_pending (ss_system S) \<noteq> None \<Longrightarrow> sys_pending y = None \<Longrightarrow>
    shop_step env S (S\<lparr>ss_system := y\<rparr>)"
| shop_message: "(i, b) \<in> set (sys_running (ss_system S)) \<Longrightarrow> good_stack junk \<Longrightarrow> msg \<noteq> [] \<Longrightarrow>
    connection_turn junk (serve env) (ss_payload S b) msg (ss_app S) = Some (Inr (app', payload', evs)) \<Longrightarrow>
    shop_step env S (S\<lparr>ss_app := app', ss_payload := (ss_payload S)(b := payload'), ss_log := ss_log S @ map (Pair b) evs\<rparr>)"
| shop_invalid: "(i, b) \<in> set (sys_running (ss_system S)) \<Longrightarrow> good_stack junk \<Longrightarrow> msg \<noteq> [] \<Longrightarrow> sys_step (ss_system S) y \<Longrightarrow>
    sys_running y = remove1 (i, b) (sys_running (ss_system S)) \<Longrightarrow>
    connection_turn junk (serve env) (ss_payload S b) msg (ss_app S) = Some (Inl evs) \<Longrightarrow>
    shop_step env S (end_connection (i, b) evs y S)"
| shop_end: "(i, b) \<in> set (sys_running (ss_system S)) \<Longrightarrow> sys_step (ss_system S) y \<Longrightarrow>
    sys_running y = remove1 (i, b) (sys_running (ss_system S)) \<Longrightarrow>
    shop_step env S (end_connection (i, b) [] y S)"

inductive shop_reachable :: "('db, 'g) env \<Rightarrow> ('db, 'd) shop_state \<Rightarrow> bool" for env where
  shop_begin: "main_start env os db = Ret (server, app) \<Longrightarrow> shop_reachable env (shop_start server app payload)"
| shop_continue: "shop_reachable env S \<Longrightarrow> shop_step env S S' \<Longrightarrow> shop_reachable env S'"

section \<open>What the steps of the accept loop do to the connections\<close>

inductive_cases sys_stepE: "sys_step s y"

lemma sys_accept:
  assumes "sys_step s y" and "sys_pending s = None" and "sys_pending y \<noteq> None"
  obtains i where "sys_running y = (i, w_next (sys_world s)) # sys_running s"
    and "w_next (sys_world y) = Suc (w_next (sys_world s))"
  using assms
  by (elim sys_stepE) (auto simp: accept_step_def csocket_server_accept_def Let_def split: bind_splits if_splits)

lemma sys_store:
  assumes "sys_step s y" and "sys_pending s \<noteq> None" and "sys_pending y = None"
  shows "sys_running y = sys_running s" and "w_next (sys_world y) = w_next (sys_world s)"
  using assms by (elim sys_stepE; auto simp: store_step_def split: bind_splits)+

lemma remove1_shorter: "x \<in> set xs \<Longrightarrow> length (remove1 x xs) < length xs"
  using length_pos_if_in_set [of x xs] by (simp add: length_remove1)

lemma sys_end:
  assumes "sys_step s y" and "(i, b) \<in> set (sys_running s)" and "sys_running y = remove1 (i, b) (sys_running s)"
  shows "w_next (sys_world y) = w_next (sys_world s)"
proof -
  have shorter: "length (sys_running y) < length (sys_running s)"
    using remove1_shorter [OF assms(2)] assms(3) by simp
  from assms(1) show ?thesis
  proof cases
    case step_accept
    then show ?thesis using shorter by simp
  next
    case step_store
    then show ?thesis using shorter by simp
  next
    case step_disconnect
    then show ?thesis by (auto simp: httpserver_disconnect_client_def Let_def split: bind_splits)
  qed
qed

section \<open>What a turn does\<close>

lemma turn_handled:
  assumes "connection_turn junk (serve env) payload msg app = Some (Inr (app', payload', evs))" and "good_stack junk"
  obtains q p out where "evs = [Ev_request q, Ev_response out] @ map Ev_freed (fst (httpparser_free_request q))"
    and "callback env q app = Some (Ret (app', [out]))" and "req_path q = Some p" and "NUL \<in> set p"
proof -
  obtain q evs1 where q: "httpparser_parse_request (httpparser_init_request junk (take 30 (req_headers junk)) 30)
      (recv_into payload msg) (int (length msg)) = Some (0, q)"
    "serve env app q = Some (app', evs1)" "evs = [Ev_request q] @ evs1 @ map Ev_freed (fst (httpparser_free_request q))"
    by (rule turn_handles [OF assms(1)])
  obtain outs where outs: "evs1 = map Ev_response outs" "callback env q app = Some (Ret (app', outs))"
    using q(2) by (auto simp: serve_def split: option.splits outcome.splits)
  moreover obtain out where "outs = [out]" using callback_leaves(3) [OF outs(2)] by blast
  moreover obtain p where "req_path q = Some p" "NUL \<in> set p" using parse_result_shape [OF assms(2) q(1)] by auto
  ultimately show ?thesis using that q(3) by simp
qed

section \<open>Invariants of the whole server\<close>

lemma main_started: "main_start env os db = Ret (server, app) \<Longrightarrow> httpserver_start_server os = Ret server"
  by (auto simp: main_start_def split: outcome.splits prod.splits if_splits)

lemma shop_system_reachable: "shop_reachable env S \<Longrightarrow> sys_reachable (ss_system S)"
proof (induction rule: shop_reachable.induct)
  case (shop_begin os db server app payload)
  then show ?case by (simp add: shop_start_def reach_start [OF main_started])
next
  case (shop_continue S S')
  from shop_continue.hyps(2) shop_continue.IH show ?case
    by cases (auto simp: end_connection_def intro: reach_step)
qed

lemma shop_system_ok: "shop_reachable env S \<Longrightarrow> sys_ok (ss_system S)"
  by (rule reachable_ok [OF shop_system_reachable])

lemma shop_open: "shop_reachable env S \<Longrightarrow> app_open (ss_app S) = 0 \<and> app_builders (ss_app S) = 0"
proof (induction rule: shop_reachable.induct)
  case (shop_begin os db server app payload)
  then show ?case using main_start_state(3,4) [OF shop_begin] by (simp add: shop_start_def)
next
  case (shop_continue S S')
  from shop_continue.hyps(2) shop_continue.IH show ?case
    by cases (auto simp: end_connection_def callback_leaves(1,2) elim!: turn_handled)
qed

text \<open>What the outside has seen of a connection.\<close>

definition conn_events :: "nat \<Rightarrow> (nat \<times> event) list \<Rightarrow> event list" where
  "conn_events b log = map snd (filter (\<lambda>e. fst e = b) log)"

lemma conn_events_simps [simp]:
  "conn_events b [] = []" "conn_events b (log @ log') = conn_events b log @ conn_events b log'"
  "conn_events b (map (Pair c) evs) = (if b = c then evs else [])" "conn_events b [(c, e)] = (if b = c then [e] else [])"
  by (simp_all add: conn_events_def comp_def filter_map)

definition conn_ok :: "nat \<Rightarrow> ('db, 'd) shop_state \<Rightarrow> bool" where
  "conn_ok b S \<longleftrightarrow> (let evs = conn_events b (ss_log S) in
     if b \<in> snd ` set (sys_running (ss_system S)) then conversation answered evs
     else if b < w_next (sys_world (ss_system S)) then finished answered evs
     else evs = [])"

lemma running_known:
  assumes "sys_ok s" and "(i, b) \<in> set (sys_running s)"
  shows "b < w_next (sys_world s)"
  using sys_ok_D(6,7) [OF assms(1)] assms(2) by force

lemma end_conn_ok:
  assumes "sys_ok (ss_system S)" and "(i, b) \<in> set (sys_running (ss_system S))" and "sys_step (ss_system S) y"
    and "sys_running y = remove1 (i, b) (sys_running (ss_system S))" and "\<And>c. conn_ok c S"
    and "evs = [] \<or> rejection evs"
  shows "conn_ok c (end_connection (i, b) evs y S)"
proof -
  have run: "snd ` set (sys_running y) = snd ` set (sys_running (ss_system S)) - {b}"
    using remove1_fst(2) [OF sys_ok_D(3,4) [OF assms(1)] assms(2)] assms(4) by simp
  have next_id: "w_next (sys_world y) = w_next (sys_world (ss_system S))" by (rule sys_end [OF assms(3,2,4)])
  show ?thesis
  proof (cases "c = b")
    case True
    have "b \<in> snd ` set (sys_running (ss_system S))" using assms(2) by force
    then have "conversation answered (conn_events b (ss_log S))" using assms(5) [of b] by (simp add: conn_ok_def Let_def)
    from finishedI [OF this assms(6)] show ?thesis using True running_known [OF assms(1,2)] run next_id
      by (simp add: conn_ok_def end_connection_def Let_def)
  next
    case False
    then show ?thesis using assms(5) [of c] run next_id
      by (auto simp: conn_ok_def end_connection_def Let_def split: if_splits)
  qed
qed

lemma shop_conn_ok: "shop_reachable env S \<Longrightarrow> conn_ok b S"
proof (induction arbitrary: b rule: shop_reachable.induct)
  case (shop_begin os db server app payload)
  then show ?case by (simp add: shop_start_def sys_start_def conn_ok_def)
next
  case (shop_continue S S')
  note ok = shop_system_ok [OF shop_continue.hyps(1)] and IH = shop_continue.IH
  from shop_continue.hyps(2) show ?case
  proof cases
    case (shop_accept y)
    obtain i where y: "sys_running y = (i, w_next (sys_world (ss_system S))) # sys_running (ss_system S)"
        "w_next (sys_world y) = Suc (w_next (sys_world (ss_system S)))"
      by (rule sys_accept [OF shop_accept(2-4)])
    have "w_next (sys_world (ss_system S)) \<notin> snd ` set (sys_running (ss_system S))"
      using running_known [OF ok] by force
    moreover from this have "conn_events (w_next (sys_world (ss_system S))) (ss_log S) = []"
      using IH [of "w_next (sys_world (ss_system S))"] by (simp add: conn_ok_def Let_def)
    ultimately show ?thesis using IH [of b] shop_accept(1) y by (auto simp: conn_ok_def Let_def less_Suc_eq split: if_splits)
  next
    case (shop_store y)
    then show ?thesis using IH [of b] sys_store [OF shop_store(2-4)]
      by (auto simp: conn_ok_def Let_def split: if_splits)
  next
    case (shop_message i c junk msg app' payload' evs)
    note x = shop.turn_exchange(1) [OF shop_message(5)]
    have "c \<in> snd ` set (sys_running (ss_system S))" using shop_message(2) by force
    moreover have "conn_events b (ss_log S') = conn_events b (ss_log S) @ (if b = c then evs else [])"
        "ss_system S' = ss_system S"
      using shop_message(1) by simp_all
    ultimately show ?thesis using IH [of b] conversation_snoc [OF _ x] by (auto simp: conn_ok_def Let_def split: if_splits)
  next
    case (shop_invalid i c junk y msg evs)
    show ?thesis
      unfolding shop_invalid(1) using turn_rejects [OF shop_invalid(7)]
      by (intro end_conn_ok [OF ok shop_invalid(2,5,6) IH]) simp
  next
    case (shop_end i c y)
    show ?thesis
      unfolding shop_end(1) by (rule end_conn_ok [OF ok shop_end(2,3,4) IH]) simp_all
  qed
qed

text \<open>A request to the login route.\<close>

definition is_login :: "httpparser_request \<Rightarrow> bool" where
  "is_login q \<longleftrightarrow> (case req_path q of None \<Rightarrow> False | Some p \<Rightarrow> prefix ''/api/login'' (cstr p))"

definition login_seen :: "(nat \<times> event) list \<Rightarrow> bool" where
  "login_seen log \<longleftrightarrow> list_ex (\<lambda>e. case snd e of Ev_request q \<Rightarrow> is_login q | _ \<Rightarrow> False) log"

lemma login_seen_simps [simp]:
  "\<not> login_seen []" "login_seen (log @ log') \<longleftrightarrow> login_seen log \<or> login_seen log'"
  "login_seen ((b, Ev_request q) # log) \<longleftrightarrow> is_login q \<or> login_seen log"
  by (simp_all add: login_seen_def)

lemma shop_sessions: "shop_reachable env S \<Longrightarrow> \<not> login_seen (ss_log S) \<Longrightarrow>
  table_ok (app_sessions (ss_app S)) \<and> table_map (app_sessions (ss_app S)) = Map.empty"
proof (induction rule: shop_reachable.induct)
  case (shop_begin os db server app payload)
  then show ?case using main_start_state(1,2) [OF shop_begin(1)] by (simp add: shop_start_def)
next
  case (shop_continue S S')
  from shop_continue.hyps(2) show ?case
  proof cases
    case (shop_message i b junk msg app' payload' evs)
    obtain q p out where evs: "evs = [Ev_request q, Ev_response out] @ map Ev_freed (fst (httpparser_free_request q))"
      and c: "callback env q (ss_app S) = Some (Ret (app', [out]))" "req_path q = Some p" "NUL \<in> set p"
      by (rule turn_handled [OF shop_message(5,3)])
    obtain r where p: "p = cstr p @ NUL # r" using cstr_split [OF c(3)] by blast
    have no: "\<not> login_seen (ss_log S)" "\<not> prefix ''/api/login'' (cstr p)"
      using shop_continue.prems shop_message(1) evs c(2) by (simp_all add: is_login_def)
    have "req_path q = Some (cstr p @ NUL # r)" using c(2) p by simp
    then have "app_sessions app' = app_sessions (ss_app S)"
      by (rule callback_sessions [OF c(1) _ c_string_cstr no(2)])
    then show ?thesis using shop_continue.IH no(1) shop_message(1) by simp
  qed (use shop_continue.IH shop_continue.prems in \<open>auto simp: end_connection_def\<close>)
qed

section \<open>Running on\<close>

abbreviation shop_steps :: "('db, 'g) env \<Rightarrow> ('db, 'd) shop_state \<Rightarrow> ('db, 'd) shop_state \<Rightarrow> bool" where
  "shop_steps env \<equiv> (shop_step env)\<^sup>*\<^sup>*"

lemma shop_steps_reachable: "shop_steps env S S' \<Longrightarrow> shop_reachable env S \<Longrightarrow> shop_reachable env S'"
  by (induction rule: rtranclp_induct) (auto intro: shop_continue)

text \<open>A stored connection can always be ended.\<close>

lemma end_enabled:
  assumes "sys_ok (ss_system S)" and "(i, b) \<in> set (sys_running (ss_system S))" and "\<not> pending_slot (ss_system S) i"
  obtains y where "sys_step (ss_system S) y" "sys_running y = remove1 (i, b) (sys_running (ss_system S))"
    "sys_pending y = sys_pending (ss_system S)"
proof -
  obtain w where "httpserver_disconnect_client (sys_world (ss_system S)) (w_data (sys_world (ss_system S)) b) i = Some w"
    using disconnect_enabled [OF assms] by blast
  from step_disconnect [OF assms(2,3) this] show ?thesis by (rule that) simp_all
qed

lemma shop_store_pending:
  assumes "shop_reachable env S"
  shows "\<exists>S'. shop_steps env S S' \<and> sys_pending (ss_system S') = None \<and> ss_app S' = ss_app S"
proof (cases "sys_pending (ss_system S)")
  case None
  then show ?thesis by blast
next
  case (Some ic)
  obtain i c where ic: "ic = (i, c)" by (cases ic)
  obtain w where w: "store_step i c (sys_world (ss_system S)) = Some w"
    using store_step_enabled [OF shop_system_ok [OF assms]] Some ic by blast
  let ?y = "\<lparr>sys_world = w, sys_running = sys_running (ss_system S), sys_pending = None\<rparr>"
  have "sys_step (ss_system S) ?y" by (rule step_store [OF _ w]) (simp add: Some ic)
  then have "shop_step env S (S\<lparr>ss_system := ?y\<rparr>)" by (rule shop_store) (simp_all add: Some)
  then show ?thesis by (intro exI [of _ "S\<lparr>ss_system := ?y\<rparr>"]) auto
qed

lemma shop_end_all:
  assumes "shop_reachable env S" and "sys_pending (ss_system S) = None"
  shows "\<exists>S'. shop_steps env S S' \<and> sys_running (ss_system S') = [] \<and> sys_pending (ss_system S') = None \<and> ss_app S' = ss_app S"
  using assms
proof (induction "length (sys_running (ss_system S))" arbitrary: S)
  case 0
  then show ?case by auto
next
  case (Suc n)
  then obtain i b where ib: "(i, b) \<in> set (sys_running (ss_system S))"
    by (cases "sys_running (ss_system S)") auto
  obtain y where y: "sys_step (ss_system S) y" "sys_running y = remove1 (i, b) (sys_running (ss_system S))" "sys_pending y = None"
    using end_enabled [OF shop_system_ok [OF Suc.prems(1)] ib] Suc.prems(2) by (auto simp: pending_slot_def)
  let ?S = "end_connection (i, b) [] y S"
  have step: "shop_step env S ?S" by (rule shop_end [OF ib y(1,2)])
  have "n = length (sys_running (ss_system ?S))" "sys_pending (ss_system ?S) = None" "ss_app ?S = ss_app S"
    using Suc.hyps(2) ib y(2,3) by (simp_all add: end_connection_def length_remove1)
  then show ?case
    using Suc.hyps(1) [of ?S] shop_continue [OF Suc.prems(1) step] converse_rtranclp_into_rtranclp [of "shop_step env", OF step] by metis
qed

text \<open>The system runs a connection as \<^verbatim>\<open>listen_messages\<close> says.\<close>

lemma shop_runs_listen:
  assumes "shop_reachable env S" and "good_stack junk" and "(i, b) \<in> set (sys_running (ss_system S))"
    and "\<not> pending_slot (ss_system S) i"
    and "listen_messages junk (serve env) (ss_payload S b) recvs (ss_app S) = Some (app', evs)"
  shows "\<exists>S'. shop_steps env S S' \<and> ss_app S' = app' \<and> ss_log S' = ss_log S @ map (Pair b) evs \<and>
    sys_running (ss_system S') = remove1 (i, b) (sys_running (ss_system S))"
  using assms(1,3-5)
proof (induction recvs arbitrary: S evs)
  case Nil
  obtain y where y: "sys_step (ss_system S) y" "sys_running y = remove1 (i, b) (sys_running (ss_system S))"
    using end_enabled [OF shop_system_ok [OF Nil(1)] Nil(2,3)] by blast
  have "shop_step env S (end_connection (i, b) [] y S)" by (rule shop_end [OF Nil(2) y])
  then show ?case using Nil(4) y(2)
    by (intro exI [of _ "end_connection (i, b) [] y S"]) (auto simp: end_connection_def)
next
  case (Cons msg recvs)
  show ?case
  proof (cases "msg = []")
    case True
    obtain y where y: "sys_step (ss_system S) y" "sys_running y = remove1 (i, b) (sys_running (ss_system S))"
      using end_enabled [OF shop_system_ok [OF Cons.prems(1)] Cons.prems(2,3)] by blast
    have "shop_step env S (end_connection (i, b) [] y S)" by (rule shop_end [OF Cons.prems(2) y])
    then show ?thesis using Cons.prems(4) y(2) True
      by (intro exI [of _ "end_connection (i, b) [] y S"]) (auto simp: end_connection_def)
  next
    case msg: False
    then obtain r where turn: "connection_turn junk (serve env) (ss_payload S b) msg (ss_app S) = Some r"
      using Cons.prems(4) by (auto simp: listen_messages.simps split: bind_splits)
  show ?thesis
  proof (cases r)
    case (Inl evs1)
    obtain y where y: "sys_step (ss_system S) y" "sys_running y = remove1 (i, b) (sys_running (ss_system S))"
      using end_enabled [OF shop_system_ok [OF Cons.prems(1)] Cons.prems(2,3)] by blast
    have "shop_step env S (end_connection (i, b) evs1 y S)"
      by (rule shop_invalid [OF Cons.prems(2) assms(2) msg y]) (use turn Inl in simp)
    then show ?thesis using Cons.prems(4) turn Inl y(2) msg
      by (intro exI [of _ "end_connection (i, b) evs1 y S"])
        (auto simp: end_connection_def listen_messages.simps)
  next
    case (Inr x)
    obtain app1 payload1 evs1 where x: "x = (app1, payload1, evs1)" by (cases x)
    let ?S = "S\<lparr>ss_app := app1, ss_payload := (ss_payload S)(b := payload1), ss_log := ss_log S @ map (Pair b) evs1\<rparr>"
    have step: "shop_step env S ?S"
      by (rule shop_message [OF Cons.prems(2) assms(2) msg]) (use turn Inr x in simp)
    obtain evs2 where rest: "listen_messages junk (serve env) payload1 recvs app1 = Some (app', evs2)" "evs = evs1 @ evs2"
      using Cons.prems(4) turn Inr x msg by (auto simp: listen_messages.simps split: bind_splits)
    obtain S' where "shop_steps env ?S S'" "ss_app S' = app'" "ss_log S' = ss_log S @ map (Pair b) evs"
        "sys_running (ss_system S') = remove1 (i, b) (sys_running (ss_system S))"
      using Cons.IH [of ?S evs2] shop_continue [OF Cons.prems(1) step] Cons.prems(2,3) rest by auto
    then show ?thesis using converse_rtranclp_into_rtranclp [of "shop_step env", OF step] by blast
  qed
  qed
qed

text \<open>Between two accepts the next connection can always be taken.\<close>

lemma shop_takes_connection:
  assumes "shop_reachable env S" and "sys_pending (ss_system S) = None"
  shows "\<exists>S' i. shop_steps env S S' \<and> sys_pending (ss_system S') = None \<and> ss_app S' = ss_app S \<and> ss_log S' = ss_log S \<and>
    ss_payload S' = ss_payload S \<and> sys_running (ss_system S') = (i, w_next (sys_world (ss_system S))) # sys_running (ss_system S)"
proof -
  obtain w i c where a: "accept_step 5 ([127, 0, 0, 1], 80) 1 no_client (sys_world (ss_system S)) = Some (Inr (w, i, c))"
    using accept_step_enabled [OF shop_system_ok [OF assms(1)], of 5 "([127, 0, 0, 1], 80)" 1 no_client] by auto
  let ?y1 = "\<lparr>sys_world = w, sys_running = (i, w_next (sys_world (ss_system S))) # sys_running (ss_system S), sys_pending = Some (i, c)\<rparr>"
  have "sys_step (ss_system S) ?y1" by (rule step_accept [OF assms(2) a])
  then have s1: "shop_step env S (S\<lparr>ss_system := ?y1\<rparr>)" by (rule shop_accept) (simp_all add: assms(2))
  obtain w2 where w2: "store_step i c w = Some w2"
    using store_step_enabled [OF shop_system_ok [OF shop_continue [OF assms(1) s1]]] by auto
  let ?y2 = "\<lparr>sys_world = w2, sys_running = sys_running ?y1, sys_pending = None\<rparr>"
  have "sys_step ?y1 ?y2" using step_store [of ?y1 i c w2] w2 by simp
  then have s2: "shop_step env (S\<lparr>ss_system := ?y1\<rparr>) (S\<lparr>ss_system := ?y2\<rparr>)"
    using shop_store [of "S\<lparr>ss_system := ?y1\<rparr>" ?y2 env] by simp
  show ?thesis
    using converse_rtranclp_into_rtranclp [of "shop_step env", OF s1] s2
    by (intro exI [of _ "S\<lparr>ss_system := ?y2\<rparr>"] exI [of _ i]) auto
qed

section \<open>Properties of the whole server\<close>

text \<open>C7: In every reachable state of the server, with any number of connections whose messages and
  ends come in any order: no two running connections share a slot or a block, the blocks that
  are allocated are those of the running connections, and between two steps no connection to the
  database, no result of it and no JSON builder is held.\<close>
theorem shop_resources:
  assumes "shop_reachable env S"
  shows "distinct (map fst (sys_running (ss_system S))) \<and> distinct (map snd (sys_running (ss_system S))) \<and>
    set (w_live (sys_world (ss_system S))) = snd ` set (sys_running (ss_system S)) \<and> app_open (ss_app S) = 0 \<and> app_builders (ss_app S) = 0"
  using sys_ok_D(3,4,6) [OF shop_system_ok [OF assms]] shop_open [OF assms] by blast

text \<open>C6: Whatever other connections do, each connection sees the protocol. While it runs, what happened
  on it is a sequence of exchanges: a request, exactly one complete response with a status of
  the route that the path of the request selects, and the freeing of exactly the blocks of
  that request. After it has ended, these exchanges are followed by at most one more response,
  which is the text of the 400 for a message that does not parse, and by one disconnect, which
  is the last event.\<close>
theorem shop_protocol:
  assumes "shop_reachable env S"
  shows "let evs = conn_events b (ss_log S) in
     if b \<in> snd ` set (sys_running (ss_system S)) then conversation answered evs
     else if b < w_next (sys_world (ss_system S)) then finished answered evs
     else evs = []"
  using shop_conn_ok [OF assms] unfolding conn_ok_def .

text \<open>C8: As long as no connection has requested a login, no connection has a cart: in any
  interleaving, whatever request selects one of the three routes of the cart, also by a longer
  path or with a malformed query, the shop stays as it is and the database is not asked. Once its
  query is parsed (one that overruns the arrays of the parser traps there), the request is
  answered 400 if it adds or deletes and names no product, it ends in a null pointer if it has no
  session parameter, and otherwise it is answered 403.\<close>
theorem shop_cart_needs_login:
  assumes "shop_reachable env S" and "\<not> login_seen (ss_log S)"
    and "req_path request = Some path" and "select_route path routes = Some (Some r)"
    and "r \<in> {Carrinho_add, Carrinho_del, Carrinho_lista}"
  shows "callback env request (ss_app S) = do {
     (info, e) \<leftarrow> qparser_parse ten_queries path;
     if r \<noteq> Carrinho_lista \<and> param (visible info) ''produto'' = None
     then Some (Ret (ss_app S, [map Some (response_text (cors_response 400))]))
     else if param (visible info) ''session'' = None then None
     else Some (Ret (ss_app S, [map Some (response_text (cors_response 403))])) }"
proof (cases "qparser_parse ten_queries path")
  case None
  then show ?thesis using assms(3) by (simp add: callback_def ten_queries_init)
next
  case (Some ie)
  obtain info e where ie: "ie = (info, e)" by (cases ie)
  have info: "info_ok info" by (rule parse_info_ok [OF ten_queries_init _ Some [unfolded ie]]) simp
  have run: "callback env request (ss_app S) = run_route env info (Some r) (ss_app S)"
    using assms(3,4) Some ie by (simp add: callback_def ten_queries_init)
  have t: "table_ok (app_sessions (ss_app S))" "table_map (app_sessions (ss_app S)) s = None" for s
    using shop_sessions [OF assms(1,2)] by simp_all
  show ?thesis
    using assms(5) Some ie unfolding run
    by (auto simp: run_route_def carrinho_add_def carrinho_del_def cart_command_result [OF info t(1)]
        carrinho_lista_result [OF info t(1)] t(2) reply_cors split: option.split)
qed

text \<open>C11: The server can always be drained: from every reachable state the accepted connection can be
  stored and all connections can end, without touching the shop; then no block is allocated
  and exactly the descriptors that were accepted have been closed.\<close>
theorem shop_drains:
  assumes "shop_reachable env S"
  shows "\<exists>S'. shop_steps env S S' \<and> sys_running (ss_system S') = [] \<and> sys_pending (ss_system S') = None \<and>
    w_live (sys_world (ss_system S')) = [] \<and> ss_app S' = ss_app S \<and>
    mset (closed_sockets (w_calls (sys_world (ss_system S')))) =
      mset (map (\<lambda>b. cs_socket (w_data (sys_world (ss_system S')) b)) [0..<w_next (sys_world (ss_system S'))])"
proof -
  obtain S1 where S1: "shop_steps env S S1" "sys_pending (ss_system S1) = None" "ss_app S1 = ss_app S"
    using shop_store_pending [OF assms] by blast
  obtain S2 where S2: "shop_steps env S1 S2" "sys_running (ss_system S2) = []" "sys_pending (ss_system S2) = None"
      "ss_app S2 = ss_app S1"
    using shop_end_all [OF shop_steps_reachable [OF S1(1) assms] S1(2)] by blast
  have steps: "shop_steps env S S2" using S1(1) S2(1) by (rule rtranclp_trans)
  have reach: "sys_reachable (ss_system S2)" by (rule shop_system_reachable [OF shop_steps_reachable [OF steps assms]])
  have "set (w_live (sys_world (ss_system S2))) = {}" using sys_ok_D(6) [OF reachable_ok [OF reach]] S2(2) by simp
  then have "w_live (sys_world (ss_system S2)) = []" by simp
  moreover from this have "mset (closed_sockets (w_calls (sys_world (ss_system S2)))) =
      mset (map (\<lambda>b. cs_socket (w_data (sys_world (ss_system S2)) b)) [0..<w_next (sys_world (ss_system S2))])"
    using reachable_descriptors [OF reach] by (simp add: descriptors_ok_def ended_def)
  ultimately show ?thesis using steps S1(3) S2(2-4) by metis
qed

text \<open>A stored connection whose messages come while the others are silent runs exactly as
  \<^verbatim>\<open>listen_messages\<close> says: the system reaches the state of the shop, and adds to the log
  the events, that it computes, and the connection is gone.\<close>
theorem shop_runs_connection:
  assumes "shop_reachable env S" and "good_stack junk" and "(i, b) \<in> set (sys_running (ss_system S))"
    and "\<not> pending_slot (ss_system S) i"
    and "listen_messages junk (serve env) (ss_payload S b) recvs (ss_app S) = Some (app', evs)"
  shows "\<exists>S'. shop_steps env S S' \<and> ss_app S' = app' \<and> ss_log S' = ss_log S @ map (Pair b) evs \<and>
    sys_running (ss_system S') = remove1 (i, b) (sys_running (ss_system S))"
  by (rule shop_runs_listen [OF assms])

section \<open>A concrete run\<close>

text \<open>A connection that has made one request, a registration without parameters.\<close>

lemma demo_register:
  "req_path q = Some (zt ''/api/register'') \<Longrightarrow>
   callback demo_env q app = Some (Ret (app, [map Some (response_text (cors_response 400))]))"
proof -
  assume q: "req_path q = Some (zt ''/api/register'')"
  obtain info where i: "info_ok info" "visible info = []"
      "callback demo_env (path_request (url ''/api/register'' [])) app = run_route demo_env info (Some Register) app"
    using callback_run [OF _ _ route_table(2), of "path_request (url ''/api/register'' [])" "[]" demo_env app]
    by (auto simp: path_request_def good_url_simps)
  then have "callback demo_env (path_request ''/api/register'') app = Some (Ret (app, [map Some (response_text (cors_response 400))]))"
    by (simp add: run_route_def register_result param_def reply_cors url_def)
  then show ?thesis using callback_path [of q "path_request ''/api/register''" demo_env app] q by (simp add: path_request_def)
qed

lemma demo_connected:
  obtains S :: "(string list, nat) shop_state" and i and server :: "nat httpserver" where "shop_reachable demo_env S"
    and "sys_running (ss_system S) = [(i, 0)]" and "sys_pending (ss_system S) = None" and "ss_log S = []"
    and "main_start demo_env os_up [] = Ret (server, ss_app S)"
proof -
  obtain server :: "nat httpserver" and app0 where m: "main_start demo_env os_up [] = Ret (server, app0)"
    using demo_start by blast
  then have r0: "shop_reachable demo_env (shop_start server app0 (\<lambda>b. replicate 100 NUL))" (is "shop_reachable _ ?S0")
    by (rule shop_begin)
  obtain S1 i where S1: "shop_steps demo_env ?S0 S1" "sys_pending (ss_system S1) = None" "ss_log S1 = []"
      "sys_running (ss_system S1) = [(i, 0)]" "ss_app S1 = app0"
    using shop_takes_connection [OF r0] by (auto simp: shop_start_def sys_start_def)
  show ?thesis by (rule that [OF shop_steps_reachable [OF S1(1) r0] S1(4,2,3)]) (simp add: S1(5) m)
qed

lemma demo_run:
  obtains S :: "(string list, nat) shop_state" and i q out p where "shop_reachable demo_env S"
    and "sys_running (ss_system S) = [(i, 0)]" and "sys_pending (ss_system S) = None"
    and "ss_log S = [(0, Ev_request q), (0, Ev_response out), (0, Ev_freed p)]" and "req_path q = Some (zt ''/api/register'')"
proof -
  obtain S1 :: "(string list, nat) shop_state" and i where r1: "shop_reachable demo_env S1"
    and S1: "sys_running (ss_system S1) = [(i, 0)]" "sys_pending (ss_system S1) = None" "ss_log S1 = []"
    by (rule demo_connected)
  have b: "good_stack request_30" by (simp add: init_request_30 request_30_blank)
  let ?m = "(''POST'', ''/api/register'', [], [])"
  have g: "good_message ?m" by code_simp
  have "\<exists>q payload'. req_path q = Some (zt (message_url ?m)) \<and>
      connection_turn request_30 (serve demo_env) (ss_payload S1 0) (message_bytes ?m) (ss_app S1) =
        Some (Inr (ss_app S1, payload', [Ev_request q, Ev_response (map Some (response_text (cors_response 400)))] @
          map Ev_freed (message_frees ?m)))"
    by (rule turn_message [OF b g demo_register]) simp
  then obtain q payload' where q: "req_path q = Some (zt ''/api/register'')"
      "connection_turn request_30 (serve demo_env) (ss_payload S1 0) (render_request ''POST'' ''/api/register'' []) (ss_app S1) =
        Some (Inr (ss_app S1, payload', [Ev_request q, Ev_response (map Some (response_text (cors_response 400))),
          Ev_freed (zt ''/api/register'')]))" by auto
  have "(i, 0) \<in> set (sys_running (ss_system S1))" using S1(1) by simp
  from shop_continue [OF r1 shop_message [OF this b _ q(2)]] show ?thesis
    by (rule that) (use S1 q(1) in \<open>simp_all add: render_request_def\<close>)
qed

theorem shop_resources_witness:
  "\<exists>(S :: (string list, nat) shop_state) i. shop_reachable demo_env S \<and> sys_running (ss_system S) = [(i, 0)] \<and>
     set (w_live (sys_world (ss_system S))) = {0} \<and> app_open (ss_app S) = 0"
proof -
  obtain S :: "(string list, nat) shop_state" and i q out p where S: "shop_reachable demo_env S" "sys_running (ss_system S) = [(i, 0)]"
    by (rule demo_run)
  then show ?thesis using shop_resources [OF S(1)] by auto
qed

theorem shop_protocol_witness:
  "\<exists>(S :: (string list, nat) shop_state) q out p. shop_reachable demo_env S \<and> conn_events 0 (ss_log S) = [Ev_request q, Ev_response out, Ev_freed p] \<and>
     conversation answered [Ev_request q, Ev_response out, Ev_freed p]"
proof -
  obtain S :: "(string list, nat) shop_state" and i q out p where S: "shop_reachable demo_env S" "sys_running (ss_system S) = [(i, 0)]"
      "ss_log S = [(0, Ev_request q), (0, Ev_response out), (0, Ev_freed p)]"
    by (rule demo_run)
  have "conn_events 0 (ss_log S) = [Ev_request q, Ev_response out, Ev_freed p]" by (simp add: S(3) conn_events_def)
  then show ?thesis using shop_protocol [OF S(1), of 0] S(1,2) by (auto simp: Let_def)
qed

theorem shop_cart_needs_login_witness:
  "\<exists>S :: (string list, nat) shop_state. shop_reachable demo_env S \<and> ss_log S \<noteq> [] \<and>
     callback demo_env (demo_request (url ''/api/carrinho/add/um'' [(''produto'', ''Bolo''), (''session'', ''abc'')])) (ss_app S) =
       Some (Ret (ss_app S, [map Some (response_text (cors_response 403))]))"
proof -
  let ?ps = "[(''produto'', ''Bolo''), (''session'', ''abc'')]" let ?u = "url ''/api/carrinho/add/um'' ?ps"
  obtain S :: "(string list, nat) shop_state" and i q out p where S: "shop_reachable demo_env S"
      "ss_log S = [(0, Ev_request q), (0, Ev_response out), (0, Ev_freed p)]" "req_path q = Some (zt ''/api/register'')"
    by (rule demo_run)
  have "cstr (zt ''/api/register'') = ''/api/register''" by code_simp
  then have n: "\<not> login_seen (ss_log S)" using S(2,3) by (simp add: login_seen_def is_login_def)
  have "good_url ''/api/carrinho/add/um'' ?ps" by (simp add: demo)
  then obtain info where i: "qparser_parse ten_queries (zt ?u) = Some (info, QP_Done)" "visible info = ?ps"
    using url_parsed [of "''/api/carrinho/add/um''" ?ps "[]"] unfolding zt_def by metis
  have r: "select_route (zt ?u) routes = Some (Some Carrinho_add)" by code_simp
  from shop_cart_needs_login [OF S(1) n demo_request_path r] show ?thesis
    using S by (auto simp: i param_def)
qed

theorem shop_drains_witness:
  "\<exists>S S' :: (string list, nat) shop_state. sys_running (ss_system S) \<noteq> [] \<and> shop_steps demo_env S S' \<and> sys_running (ss_system S') = []"
proof -
  obtain S :: "(string list, nat) shop_state" and i q out p where S: "shop_reachable demo_env S" "sys_running (ss_system S) = [(i, 0)]"
    by (rule demo_run)
  then show ?thesis using shop_drains [OF S(1)] by force
qed

end
