(* ===== verification/Shop_Auth.thy ===== *)
theory Shop_Auth
  imports Shop_System
begin

text \<open>
  Where sessions come from. The entries of the table of sessions are followed through every
  insertion, also one whose identifier is already in the table, so nothing is assumed of the
  random source, which delivers a seed of its own for every login: in every reachable state of the server, each session that a lookup finds was
  issued in the answer to a login for the address it stands for, and the database had
  confirmed the address and the password of that login. So every operation on a cart is done
  in the name of somebody who has logged in.
\<close>

section \<open>The entries of the table\<close>

definition table_entries :: "'v tablec_ht \<Rightarrow> (string \<times> 'v option) set" where
  "table_entries t = (\<Union>b\<in>set (buckets t). set (entries (bucket_array b)))"

lemma entry_in: "b \<in> set arr \<Longrightarrow> bkey b = Some k \<Longrightarrow> (k, bvalue b) \<in> set (entries arr)"
  by (force simp: entries_def)

lemma entries_update_subset:
  "i < length arr \<Longrightarrow> set (entries (arr[i := \<lparr>bkey = Some k, bvalue = v\<rparr>])) \<subseteq> insert (k, v) (set (entries arr))"
  using entries_update [of i arr "\<lparr>bkey = Some k, bvalue = v\<rparr>"] entries_at [of i arr] by (auto split: option.splits)

lemma entries_take: "set (entries (take n arr)) \<subseteq> set (entries arr)"
  by (auto simp: entries_def dest: in_set_takeD)

lemma set_bucket_entries:
  assumes "h < length (buckets t)" and "set (entries (bucket_array b)) \<subseteq> insert e (set (entries (bucket_array (buckets t ! h))))"
  shows "table_entries (set_bucket t h b\<lparr>table_length := n\<rparr>) \<subseteq> insert e (table_entries t)"
    and "table_entries (set_bucket t h b) \<subseteq> insert e (table_entries t)"
proof -
  have "x \<in> insert e (table_entries t)" if "x \<in> set (entries (bucket_array c))" "c \<in> set ((buckets t)[h := b])" for x c
  proof -
    have "c = b \<or> c \<in> set (buckets t)" using that(2) set_update_subset_insert by fast
    moreover have "buckets t ! h \<in> set (buckets t)" using assms(1) by simp
    ultimately show ?thesis using that(1) assms(2) by (auto simp: table_entries_def)
  qed
  then show "table_entries (set_bucket t h b\<lparr>table_length := n\<rparr>) \<subseteq> insert e (table_entries t)"
    and "table_entries (set_bucket t h b) \<subseteq> insert e (table_entries t)"
    by (auto simp: table_entries_def set_bucket_def)
qed

lemma free_slot_bound: "free_slot arr n = Some (Some i) \<Longrightarrow> i < length arr"
  by (induction n) (auto split: bind_splits if_splits)

lemma set_entries:
  assumes "tablec_set t key v = Some t'"
  shows "table_entries t' \<subseteq> insert (key, v) (table_entries t)"
proof -
  obtain h where h: "tablec_hash t key = Some h" "h < length (buckets t)"
    using assms by (auto simp: tablec_set_def split: bind_splits)
  let ?b = "buckets t ! h" let ?e = "\<lparr>bkey = Some key, bvalue = v\<rparr>"
  show ?thesis
  proof (cases "bucket_length ?b = 0")
    case True
    then have a: "0 < length (bucket_array ?b)" using assms h by (auto simp: tablec_set_def split: bind_splits)
    then have b0: "set (entries [bucket_array ?b ! 0]) \<subseteq> set (entries (bucket_array ?b))"
      by (cases "bucket_array ?b") (auto simp: entries_Cons)
    show ?thesis
    proof (cases "bkey (bucket_array ?b ! 0) = None")
      case None: True
      have t': "t' = set_bucket t h (?b\<lparr>bucket_array := (bucket_array ?b)[0 := ?e], bucket_length := 1\<rparr>)
          \<lparr>table_length := table_length t + 1\<rparr>"
        using assms h True a None by (simp add: tablec_set_def)
      show ?thesis unfolding t' by (rule set_bucket_entries [OF h(2)]) (use entries_update_subset [OF a] in simp)
    next
      case False
      have t': "t' = set_bucket t h \<lparr>bucket_array = [bucket_array ?b ! 0, ?e], bucket_length = 2, bucket_capacity = 2\<rparr>
          \<lparr>table_length := table_length t + 1\<rparr>"
        using assms h True a False by (auto simp: tablec_set_def)
      show ?thesis unfolding t' by (rule set_bucket_entries [OF h(2)]) (use b0 in \<open>auto simp: entries_Cons\<close>)
    qed
  next
    case False
    then obtain r where r: "free_slot (bucket_array ?b) (bucket_capacity ?b) = Some r"
      using assms h by (auto simp: tablec_set_def split: bind_splits)
    show ?thesis
    proof (cases r)
      case (Some i)
      then have i: "i < length (bucket_array ?b)" using r free_slot_bound by blast
      have t': "t' = set_bucket t h (?b\<lparr>bucket_array := (bucket_array ?b)[i := ?e], bucket_length := bucket_length ?b + 1\<rparr>)
          \<lparr>table_length := table_length t + 1\<rparr>"
        using assms h False r Some by (simp add: tablec_set_def)
      show ?thesis unfolding t' by (rule set_bucket_entries [OF h(2)]) (use entries_update_subset [OF i] in simp)
    next
      case None
      let ?new = "take (bucket_capacity ?b) (bucket_array ?b) @ replicate (bucket_capacity ?b) null_bucket"
      obtain arr where arr: "wr ?new (bucket_length ?b) ?e = Some arr"
          "t' = set_bucket t h \<lparr>bucket_array = arr, bucket_length = bucket_length ?b + 1, bucket_capacity = bucket_capacity ?b * 2\<rparr>"
        using assms h False r None by (auto simp: tablec_set_def simp del: wr_eq_Some split: bind_splits)
      then have "set (entries arr) \<subseteq> insert (key, v) (set (entries ?new))"
        using entries_update_subset [of "bucket_length ?b" ?new key v] by auto
      then have "set (entries arr) \<subseteq> insert (key, v) (set (entries (bucket_array ?b)))"
        using entries_take [of "bucket_capacity ?b" "bucket_array ?b"] by auto
      then show ?thesis unfolding arr(2) by (intro set_bucket_entries [OF h(2)]) simp
    qed
  qed
qed

lemma find_slot_key: "find_slot arr key n = Some (Some i) \<Longrightarrow> i < length arr \<and> bkey (arr ! i) = Some key"
  by (induction n) (auto split: bind_splits if_splits)

lemma lookup_entry:
  assumes "table_lookup t key = Some (Some v)"
  shows "(key, v) \<in> table_entries t"
proof -
  obtain b where b: "tablec_get t key = Some (Some b)" "bvalue b = v" using assms by (auto simp: table_lookup_def)
  then obtain h i where h: "h < length (buckets t)" "find_slot (bucket_array (buckets t ! h)) key (bucket_capacity (buckets t ! h)) = Some (Some i)"
      "b = bucket_array (buckets t ! h) ! i"
    by (auto simp: tablec_get_def split: bind_splits if_splits option.splits)
  then have "(key, v) \<in> set (entries (bucket_array (buckets t ! h)))"
    using find_slot_key [OF h(2)] b(2) entry_in [of b _ key] by auto
  then show ?thesis using h(1) nth_mem by (force simp: table_entries_def)
qed

lemma init_entries: "table_entries (tablec_init n) = {}"
  by (auto simp: table_entries_def tablec_init_def entries_Cons null_bucket_def)

section \<open>A session was issued to a login\<close>

text \<open>\<open>issued env app q out s v\<close>: the request \<open>q\<close>, handled in the state \<open>app\<close> of the shop, is a login
  with an address and a password; the database confirmed them in that state; \<open>s\<close> is the
  identifier for the seed that the next draw of that state delivers, and the answer \<open>out\<close> is the
  response that carries it; \<open>v\<close> is the address, with its quotes replaced.\<close>

definition issued :: "('db, 'g) env \<Rightarrow> 'db app \<Rightarrow> httpparser_request \<Rightarrow> outbuf \<Rightarrow> string \<Rightarrow> string option \<Rightarrow> bool" where
  "issued env app q out s v \<longleftrightarrow> (\<exists>path info e email password email1 password1 app' rows seed.
     req_path q = Some path \<and> select_route path routes = Some (Some Login) \<and>
     qparser_parse ten_queries path = Some (info, e) \<and>
     deref_value info ''email'' = Some email \<and> normalize_string email = Some email1 \<and>
     deref_value info ''password'' = Some password \<and> normalize_string password = Some password1 \<and>
     run_sql env True (login_sql (cstr email1) (cstr password1)) app = (app', Inr rows) \<and> rows \<noteq> [] \<and>
     env_getrandom env (app_draws app) = Some seed \<and> s = session_id (env_srand env) (env_rand env) seed \<and>
     out = map Some (json_reply s) \<and> v = Some (cstr email1))"

lemma run_sql_sessions:
  "run_sql env b sql app = (app', r) \<Longrightarrow> app_sessions app' = app_sessions app \<and> app_draws app' = app_draws app"
  by (auto simp: run_sql_result split: prod.splits sum.splits)

lemma reply_sent: "reply app r = Some (Ret (app', outs)) \<Longrightarrow> app' = app \<and> (\<exists>out. outs = [out] \<and> httpserver_send_response r = Some out)"
  by (auto simp: reply_def)

lemma session_response:
  assumes "frequenc_generate_session_id g srand rand (replicate 17 NUL) = Some (Ret session)"
    and "httpserver_send_response (json_response 200 ''16'' session 16) = Some out"
  obtains seed where "g = Some seed" "cstr session = session_id srand rand seed" "out = map Some (json_reply (session_id srand rand seed))"
proof -
  obtain seed where g: "g = Some seed" "cstr session = session_id srand rand seed" "length session = 17"
    using generated_length [OF assms(1)] by blast
  have s: "session = session_id srand rand seed @ [NUL]"
    using assms(1) session_id_result [of "replicate 17 NUL" seed srand rand] g(1) by simp
  have "show_nat 16 = ''16''" by code_simp
  then have "response_text (json_response 200 ''16'' session 16) = json_reply (session_id srand rand seed)"
    using json_response_text [of 16 session "''16''"] by (simp add: s)
  then show ?thesis using that [OF g(1,2)] assms(2) g(3) by (simp add: send_response_exact json_response_ok)
qed

lemma login_route_sessions:
  assumes "login_route env info app = Some (Ret (app', outs))"
  shows "app_sessions app' = app_sessions app \<or> (\<exists>email password email1 password1 app1 rows seed out sid.
     deref_value info ''email'' = Some email \<and> normalize_string email = Some email1 \<and>
     deref_value info ''password'' = Some password \<and> normalize_string password = Some password1 \<and>
     run_sql env True (login_sql (cstr email1) (cstr password1)) app = (app1, Inr rows) \<and> rows \<noteq> [] \<and>
     env_getrandom env (app_draws app) = Some seed \<and> sid = session_id (env_srand env) (env_rand env) seed \<and>
     tablec_set (app_sessions app) sid (Some (cstr email1)) = Some (app_sessions app') \<and>
     app_draws app' = app_draws app + 1 \<and> outs = [out] \<and> out = map Some (json_reply sid))"
proof -
  obtain missing where m: "any_missing info [''email'', ''password''] = Some missing"
    using assms unfolding login_route_def by (cases "any_missing info [''email'', ''password'']") (auto simp del: any_missing.simps)
  show ?thesis
  proof (cases missing)
    case True
    then show ?thesis using assms m unfolding login_route_def by (auto simp del: any_missing.simps dest!: reply_sent)
  next
    case False
    obtain email password email1 password1 where p: "deref_value info ''email'' = Some email" "normalize_string email = Some email1"
        "deref_value info ''password'' = Some password" "normalize_string password = Some password1"
      using assms m False unfolding login_route_def by (auto simp del: any_missing.simps split: bind_splits)
    obtain app1 r where r: "run_sql env True (login_sql (cstr email1) (cstr password1)) app = (app1, r)"
      by (cases "run_sql env True (login_sql (cstr email1) (cstr password1)) app")
    note same = run_sql_sessions [OF r]
    show ?thesis
    proof (cases r)
      case (Inl st)
      then show ?thesis using assms m False p r same unfolding login_route_def
        by (auto simp del: any_missing.simps dest!: reply_sent)
    next
      case (Inr rows)
      show ?thesis
      proof (cases "rows = []")
        case True
        then show ?thesis using assms m False p r same Inr unfolding login_route_def
          by (auto simp: pq_done_def simp del: any_missing.simps dest!: reply_sent)
      next
        case rows: False
        obtain session sessions where s: "frequenc_generate_session_id (env_getrandom env (app_draws app1)) (env_srand env) (env_rand env)
              (replicate 17 NUL) = Some (Ret session)"
            "tablec_set (app_sessions app1) (cstr session) (Some (cstr email1)) = Some sessions"
            "reply ((pq_done app1)\<lparr>app_sessions := sessions, app_draws := app_draws app1 + 1\<rparr>) (json_response 200 ''16'' session 16) =
              Some (Ret (app', outs))"
          using assms m False p r Inr rows unfolding login_route_def
          by (auto simp del: any_missing.simps split: bind_splits outcome.splits)
        obtain out where out: "outs = [out]" "httpserver_send_response (json_response 200 ''16'' session 16) = Some out"
            "app_sessions app' = sessions" "app_draws app' = app_draws app + 1"
          using reply_sent [OF s(3)] same by auto
        obtain seed where "env_getrandom env (app_draws app1) = Some seed" "cstr session = session_id (env_srand env) (env_rand env) seed"
            "out = map Some (json_reply (session_id (env_srand env) (env_rand env) seed))"
          by (rule session_response [OF s(1) out(2)])
        then show ?thesis using s(2) out p r Inr rows same by auto
      qed
    qed
  qed
qed

lemma callback_issued:
  assumes "callback env q app = Some (Ret (app', [out]))" and "(s, v) \<in> table_entries (app_sessions app')"
  shows "(s, v) \<in> table_entries (app_sessions app) \<or> issued env app q out s v \<and> app_draws app' = app_draws app + 1"
proof -
  obtain p info e r where i: "req_path q = Some p" "qparser_parse ten_queries p = Some (info, e)"
      "select_route p routes = Some r" "run_route env info r app = Some (Ret (app', [out]))"
    using assms(1) by (auto simp: callback_def ten_queries_init bind_eq_Some_conv)
  show ?thesis
  proof (cases "r = Some Login")
    case False
    have "app_sessions app' = app_sessions app"
      using leavesD [OF run_route_quiet [OF False] i(4)] by (simp add: quiet_def)
    then show ?thesis using assms(2) by simp
  next
    case True
    then have "login_route env info app = Some (Ret (app', [out]))" using i(4) by (simp add: run_route_def)
    from login_route_sessions [OF this] show ?thesis
    proof (elim disjE exE conjE)
      assume "app_sessions app' = app_sessions app"
      then show ?thesis using assms(2) by simp
    next
      fix email password email1 password1 app1 rows seed out' sid
      assume l: "deref_value info ''email'' = Some email" "normalize_string email = Some email1"
        "deref_value info ''password'' = Some password" "normalize_string password = Some password1"
        "run_sql env True (login_sql (cstr email1) (cstr password1)) app = (app1, Inr rows)" "rows \<noteq> []"
        "env_getrandom env (app_draws app) = Some seed" "sid = session_id (env_srand env) (env_rand env) seed"
        "tablec_set (app_sessions app) sid (Some (cstr email1)) = Some (app_sessions app')"
        "app_draws app' = app_draws app + 1" "[out] = [out']" "out' = map Some (json_reply sid)"
      have "(s, v) \<in> table_entries (app_sessions app) \<or> (s, v) = (sid, Some (cstr email1))"
        using set_entries [OF l(9)] assms(2) by blast
      moreover have "issued env app q out sid (Some (cstr email1))"
        unfolding issued_def using i(1-3) True l(1-8,11,12) by blast
      ultimately show ?thesis using l(10) by auto
    qed
  qed
qed

text \<open>The session was issued on the way to the state \<open>S\<close>: a step of the server handled a request of a
  connection, the events it added to the log are the request and its answer, and the session
  was issued by them in the state of the shop before the step. The step took one draw from
  the random source.\<close>

definition issued_in :: "('db, 'g) env \<Rightarrow> ('db, 'd) shop_state \<Rightarrow> string \<Rightarrow> string option \<Rightarrow> bool" where
  "issued_in env S s v \<longleftrightarrow> (\<exists>S1 S2 b q out fs. shop_reachable env S1 \<and> shop_step env S1 S2 \<and> shop_steps env S2 S \<and>
     ss_log S2 = ss_log S1 @ map (Pair b) ([Ev_request q, Ev_response out] @ map Ev_freed fs) \<and>
     issued env (ss_app S1) q out s v \<and> app_draws (ss_app S2) = app_draws (ss_app S1) + 1)"

lemma issued_in_step: "issued_in env S s v \<Longrightarrow> shop_step env S S' \<Longrightarrow> issued_in env S' s v"
  unfolding issued_in_def by (meson rtranclp.rtrancl_into_rtrancl)

lemma shop_entries_issued:
  "shop_reachable env S \<Longrightarrow> (s, v) \<in> table_entries (app_sessions (ss_app S)) \<Longrightarrow> issued_in env S s v"
proof (induction rule: shop_reachable.induct)
  case (shop_begin os db server app payload)
  have "app_sessions app = tablec_init 4"
    using shop_begin.hyps by (auto simp: main_start_def split: outcome.splits prod.splits if_splits)
  then show ?case using shop_begin.prems by (simp add: shop_start_def init_entries)
next
  case (shop_continue S S')
  note extend = issued_in_step [OF _ shop_continue.hyps(2)]
  from shop_continue.hyps(2) show ?case
  proof cases
    case (shop_message i b junk msg app' payload' evs)
    obtain q p out where evs: "evs = [Ev_request q, Ev_response out] @ map Ev_freed (fst (httpparser_free_request q))"
      and c: "callback env q (ss_app S) = Some (Ret (app', [out]))"
      by (rule turn_handled [OF shop_message(5,3)])
    have "(s, v) \<in> table_entries (app_sessions app')" using shop_continue.prems shop_message(1) by simp
    from callback_issued [OF c this] show ?thesis
    proof
      assume "(s, v) \<in> table_entries (app_sessions (ss_app S))"
      then show ?thesis using extend shop_continue.IH by blast
    next
      assume new: "issued env (ss_app S) q out s v \<and> app_draws app' = app_draws (ss_app S) + 1"
      have "ss_log S' = ss_log S @ map (Pair b) ([Ev_request q, Ev_response out] @ map Ev_freed (fst (httpparser_free_request q)))"
        "ss_app S' = app'" using shop_message(1) evs by simp_all
      then show ?thesis using new shop_continue.hyps unfolding issued_in_def by blast
    qed
  qed (use extend shop_continue.IH shop_continue.prems in \<open>auto simp: end_connection_def\<close>)
qed

text \<open>C9: Every session was issued to its user: in any state the server can reach, whatever its clients
  have sent on any number of connections and whatever the random source delivers for each
  login, if a lookup finds a session, then a login request was handled on the way to that
  state; the database confirmed its address and its password in the state in which it was
  handled; the session stands for that address; and its identifier is the one that this
  login drew and that the answer to it carried.\<close>
theorem sessions_issued:
  assumes "shop_reachable env S" and "table_lookup (app_sessions (ss_app S)) s = Some (Some v)"
  shows "issued_in env S s v"
  by (rule shop_entries_issued [OF assms(1) lookup_entry [OF assms(2)]])

section \<open>Whose cart a request touches\<close>

text \<open>What a request of user \<open>u\<close> to one of the three cart routes does to the state: the two commands send
  one statement for \<open>u\<close>; the listing sends the query for \<open>u\<close> and, if it succeeds, looks up the
  products of its rows.\<close>

definition cart_access ::
  "('db, 'g) env \<Rightarrow> route \<Rightarrow> (string \<times> string) list \<Rightarrow> string \<Rightarrow> 'db app \<Rightarrow> 'db app \<Rightarrow> bool"
where
  "cart_access env r ps u app app' \<longleftrightarrow>
     (if r = Carrinho_lista then (case sql_result env True (cart_list_sql u) (app_db app) of
        (db, Inl st) \<Rightarrow> app' = app\<lparr>app_db := db\<rparr>
      | (db, Inr rows) \<Rightarrow> \<exists>app1 b. cart_rows env rows (builder_new (app\<lparr>app_db := db, app_open := app_open app + 2\<rparr>))
          (pjsonb_init PJSONB_ARRAY) = Some (app1, b) \<and> app' = builder_free (pq_done app1))
     else \<exists>p. param ps ''produto'' = Some p \<and>
       app' = app\<lparr>app_db := fst (sql_result env False
         ((if r = Carrinho_add then cart_add_sql else cart_del_sql) u (unplus (norm p))) (app_db app))\<rparr>)"

text \<open>The two refusals.\<close>

definition refused :: "outbuf list \<Rightarrow> bool" where
  "refused outs \<longleftrightarrow> outs = [map Some (response_text (cors_response 400))] \<or> outs = [map Some (response_text (cors_response 403))]"

lemma cart_command_access:
  assumes "info_ok info" and "cart_command sql env info app = Some (Ret (app', outs))"
  shows "app' = app \<and> refused outs \<or> (\<exists>s u p. param (visible info) ''session'' = Some s \<and>
    table_lookup (app_sessions app) s = Some (Some (Some u)) \<and>
    param (visible info) ''produto'' = Some p \<and> app' = app\<lparr>app_db := fst (sql_result env False (sql u (unplus (norm p))) (app_db app))\<rparr>)"
  using assms(2) unfolding cart_command_lookup [OF assms(1)]
  by (auto simp: command_route_after after_command_def reply_cors refused_def split: option.splits bind_splits prod.splits)

lemma send_list_app: "send_list app b = Some (Ret (app', outs)) \<Longrightarrow> app' = builder_free app"
  by (auto simp: send_list_def split: bind_splits)

lemma carrinho_lista_access:
  assumes "info_ok info" and "carrinho_lista env info app = Some (Ret (app', outs))"
  shows "app' = app \<and> refused outs \<or> (\<exists>s u. param (visible info) ''session'' = Some s \<and>
    table_lookup (app_sessions app) s = Some (Some (Some u)) \<and> cart_access env Carrinho_lista ps u app app')"
proof -
  obtain s r where s: "param (visible info) ''session'' = Some s" "table_lookup (app_sessions app) s = Some r"
    using assms(2) unfolding carrinho_lista_lookup [OF assms(1)] by (auto split: option.splits bind_splits)
  show ?thesis
  proof (cases r)
    case None
    then show ?thesis using assms(2) s unfolding carrinho_lista_lookup [OF assms(1)] by (auto simp: reply_cors refused_def)
  next
    case (Some user)
    then obtain u where u: "user = Some u"
      using assms(2) s unfolding carrinho_lista_lookup [OF assms(1)] by (auto split: option.splits)
    obtain db res where q: "sql_result env True (cart_list_sql u) (app_db app) = (db, res)" by fastforce
    have "cart_access env Carrinho_lista ps u app app'"
    proof (cases res)
      case (Inl st)
      then show ?thesis using assms(2) s Some u q unfolding carrinho_lista_lookup [OF assms(1)]
        by (auto simp: cart_access_def dest!: reply_sent)
    next
      case (Inr rows)
      then show ?thesis using assms(2) s Some u q unfolding carrinho_lista_lookup [OF assms(1)]
        by (auto simp: cart_access_def bind_eq_Some_conv dest!: send_list_app)
    qed
    then show ?thesis using s Some u by blast
  qed
qed

lemma cart_route_access:
  assumes "info_ok info" and "r \<in> {Carrinho_add, Carrinho_del, Carrinho_lista}"
    and "run_route env info (Some r) app = Some (Ret (app', outs))"
  shows "app' = app \<and> refused outs \<or> (\<exists>s u. param (visible info) ''session'' = Some s \<and>
    table_lookup (app_sessions app) s = Some (Some (Some u)) \<and> cart_access env r (visible info) u app app')"
proof (cases "r = Carrinho_lista")
  case True
  then show ?thesis using assms(3) carrinho_lista_access [OF assms(1), of env app app' outs "visible info"] by (simp add: run_route_def)
next
  case False
  then have "cart_command (if r = Carrinho_add then cart_add_sql else cart_del_sql) env info app = Some (Ret (app', outs))"
    using assms(2,3) by (auto simp: run_route_def carrinho_add_def carrinho_del_def)
  from cart_command_access [OF assms(1) this] show ?thesis using False by (auto simp: cart_access_def)
qed

text \<open>C10: Whoever touches a cart has logged in: in any state the server can reach, a request that selects one
  of the three routes of the cart, whatever else is in its URL, and is answered, is refused with 400 or 403 and
  leaves the shop as it is, or its session parameter is an identifier that was issued to an
  address in the answer to a login that the database confirmed, and what the request does is
  the cart operation of exactly that address.\<close>
theorem cart_belongs_to_login:
  assumes "shop_reachable env S" and "req_path request = Some path" and "select_route path routes = Some (Some r)"
    and "r \<in> {Carrinho_add, Carrinho_del, Carrinho_lista}"
    and "callback env request (ss_app S) = Some (Ret (app', outs))"
  shows "app' = ss_app S \<and> refused outs \<or> (\<exists>info e s u. qparser_parse ten_queries path = Some (info, e) \<and>
    param (visible info) ''session'' = Some s \<and> issued_in env S s (Some u) \<and>
    cart_access env r (visible info) u (ss_app S) app')"
proof -
  obtain info e where i: "qparser_parse ten_queries path = Some (info, e)"
      "run_route env info (Some r) (ss_app S) = Some (Ret (app', outs))"
    using assms(2,3,5) by (auto simp: callback_def ten_queries_init bind_eq_Some_conv)
  have "info_ok info" by (rule parse_info_ok [OF ten_queries_init _ i(1)]) simp
  from cart_route_access [OF this assms(4) i(2)] show ?thesis
    using shop_entries_issued [OF assms(1) lookup_entry] i(1) by blast
qed

section \<open>Two logins on a connection\<close>

lemma demo_login_step:
  fixes S :: "(string list, 'd) shop_state"
  assumes "shop_reachable demo_env S" and "sys_running (ss_system S) = [(i, 0)]" and "good_pair (''email'', e)"
    and "good_message (''GET'', url ''/api/login'' (login_params e), [], [])"
    and "table_ok (app_sessions (ss_app S))" and "app_draws (ss_app S) \<le> 1"
    and "sid = (if app_draws (ss_app S) = 0 then ''ABCDEFGHIJKLMNOP'' else ''BCDEFGHIJKLMNOPQ'')"
    and "table_map (app_sessions (ss_app S)) sid = None"
  obtains S' :: "(string list, 'd) shop_state" where "shop_reachable demo_env S'" and "sys_running (ss_system S') = [(i, 0)]"
    and "table_ok (app_sessions (ss_app S'))" and "app_draws (ss_app S') = app_draws (ss_app S) + 1"
    and "table_map (app_sessions (ss_app S')) = (table_map (app_sessions (ss_app S)))(sid \<mapsto> Some (norm e))"
proof -
  let ?m = "(''GET'', url ''/api/login'' (login_params e), [], [])"
  have b: "good_stack request_30" by (simp add: init_request_30 request_30_blank)
  obtain app' where a: "callback demo_env (demo_request (url ''/api/login'' (login_params e))) (ss_app S) =
        Some (Ret (app', [map Some (json_reply sid)]))"
      "table_ok (app_sessions app')" "table_map (app_sessions app') = (table_map (app_sessions (ss_app S)))(sid \<mapsto> Some (norm e))"
      "app_draws app' = app_draws (ss_app S) + 1"
    by (rule demo_login_callback [OF demo_request_path assms(3,5,6,7,8)])
  have "\<exists>q payload'. req_path q = Some (zt (message_url ?m)) \<and>
      connection_turn request_30 (serve demo_env) (ss_payload S 0) (message_bytes ?m) (ss_app S) =
        Some (Inr (app', payload', [Ev_request q, Ev_response (map Some (json_reply sid))] @ map Ev_freed (message_frees ?m)))"
  proof (rule turn_message [OF b assms(4)])
    fix q :: httpparser_request
    assume "req_path q = Some (zt (message_url ?m))"
    then have "callback demo_env q (ss_app S) = callback demo_env (demo_request (url ''/api/login'' (login_params e))) (ss_app S)"
      by (intro callback_path) simp
    then show "callback demo_env q (ss_app S) = Some (Ret (app', [map Some (json_reply sid)]))" by (simp only: a(1))
  qed
  then obtain q payload' where t: "connection_turn request_30 (serve demo_env) (ss_payload S 0) (message_bytes ?m) (ss_app S) =
        Some (Inr (app', payload', [Ev_request q, Ev_response (map Some (json_reply sid))] @ map Ev_freed (message_frees ?m)))"
    by blast
  have "(i, 0) \<in> set (sys_running (ss_system S))" using assms(2) by simp
  from shop_continue [OF assms(1) shop_message [OF this b message_nonempty t]] show ?thesis
    by (rule that) (simp_all add: assms(2) a)
qed

text \<open>A server on which two users have logged in.\<close>

lemma demo_logins:
  obtains S :: "(string list, nat) shop_state" where "shop_reachable demo_env S" and "table_ok (app_sessions (ss_app S))"
    and "table_map (app_sessions (ss_app S)) = [''ABCDEFGHIJKLMNOP'' \<mapsto> Some (norm ''u@x''), ''BCDEFGHIJKLMNOPQ'' \<mapsto> Some (norm ''v@y'')]"
proof -
  obtain S1 :: "(string list, nat) shop_state" and i and server :: "nat httpserver" where S1: "shop_reachable demo_env S1"
      "sys_running (ss_system S1) = [(i, 0)]" "main_start demo_env os_up [] = Ret (server, ss_app S1)"
    by (rule demo_connected)
  note start = main_start_state [OF S1(3)]
  have u: "good_pair (''email'', ''u@x'')" "good_pair (''email'', ''v@y'')"
    "good_message (''GET'', url ''/api/login'' (login_params ''u@x''), [], [])"
    "good_message (''GET'', url ''/api/login'' (login_params ''v@y''), [], [])"
    by code_simp+
  obtain S2 :: "(string list, nat) shop_state" where S2: "shop_reachable demo_env S2" "sys_running (ss_system S2) = [(i, 0)]" "table_ok (app_sessions (ss_app S2))"
      "app_draws (ss_app S2) = 1" "table_map (app_sessions (ss_app S2)) = [''ABCDEFGHIJKLMNOP'' \<mapsto> Some (norm ''u@x'')]"
    by (rule demo_login_step [OF S1(1,2) u(1,3) start(1) _ refl]) (simp_all add: start(2,5))
  obtain S3 :: "(string list, nat) shop_state" where S3: "shop_reachable demo_env S3" "table_ok (app_sessions (ss_app S3))"
      "table_map (app_sessions (ss_app S3)) = [''ABCDEFGHIJKLMNOP'' \<mapsto> Some (norm ''u@x''), ''BCDEFGHIJKLMNOPQ'' \<mapsto> Some (norm ''v@y'')]"
    by (rule demo_login_step [OF S2(1,2) u(2,4) S2(3) _ refl]) (simp_all add: S2(4,5))
  then show ?thesis by (rule that)
qed

theorem sessions_issued_witness:
  "\<exists>S :: (string list, nat) shop_state. shop_reachable demo_env S \<and>
     issued_in demo_env S ''ABCDEFGHIJKLMNOP'' (Some (norm ''u@x'')) \<and> issued_in demo_env S ''BCDEFGHIJKLMNOPQ'' (Some (norm ''v@y''))"
proof -
  obtain S :: "(string list, nat) shop_state" where S: "shop_reachable demo_env S" "table_ok (app_sessions (ss_app S))"
      "table_map (app_sessions (ss_app S)) = [''ABCDEFGHIJKLMNOP'' \<mapsto> Some (norm ''u@x''), ''BCDEFGHIJKLMNOPQ'' \<mapsto> Some (norm ''v@y'')]"
    by (rule demo_logins)
  have "table_lookup (app_sessions (ss_app S)) ''ABCDEFGHIJKLMNOP'' = Some (Some (Some (norm ''u@x'')))"
    "table_lookup (app_sessions (ss_app S)) ''BCDEFGHIJKLMNOPQ'' = Some (Some (Some (norm ''v@y'')))"
    using S(3) by (simp_all add: table_lookup_map [OF S(2)])
  then show ?thesis using sessions_issued [OF S(1)] S(1) by blast
qed

theorem cart_belongs_to_login_witness:
  "\<exists>(S :: (string list, nat) shop_state) u app'. shop_reachable demo_env S \<and> app' \<noteq> ss_app S \<and>
     callback demo_env (demo_request (url ''/api/carrinho/add'' [(''produto'', ''Bolo''), (''session'', ''BCDEFGHIJKLMNOPQ'')])) (ss_app S) =
       Some (Ret (app', [map Some (response_text (cors_response 204))])) \<and>
     issued_in demo_env S ''BCDEFGHIJKLMNOPQ'' (Some u) \<and>
     app_db app' = cart_add_sql u (unplus (norm ''Bolo'')) # app_db (ss_app S)"
proof -
  let ?ps = "[(''produto'', ''Bolo''), (''session'', ''BCDEFGHIJKLMNOPQ'')]" let ?u = "url ''/api/carrinho/add'' ?ps"
  obtain S :: "(string list, nat) shop_state" where S: "shop_reachable demo_env S" "table_ok (app_sessions (ss_app S))"
      "table_map (app_sessions (ss_app S)) = [''ABCDEFGHIJKLMNOP'' \<mapsto> Some (norm ''u@x''), ''BCDEFGHIJKLMNOPQ'' \<mapsto> Some (norm ''v@y'')]"
    by (rule demo_logins)
  have u: "good_url ''/api/carrinho/add'' ?ps" "param ?ps ''produto'' = Some ''Bolo''" "param ?ps ''session'' = Some ''BCDEFGHIJKLMNOPQ''"
    by (simp_all add: demo)
  have t: "table_map (app_sessions (ss_app S)) ''BCDEFGHIJKLMNOPQ'' = Some (Some (norm ''v@y''))" by (simp add: S(3))
  have db: "sql_result demo_env False (cart_add_sql v x) l = (cart_add_sql v x # l, Inr [])" for v x l
    by (simp add: sql_result_def demo_env_def demo_exec_def cart_add_sql_def c_snprintf_def)
  let ?app' = "ss_app S\<lparr>app_db := cart_add_sql (norm ''v@y'') (unplus (norm ''Bolo'')) # app_db (ss_app S)\<rparr>"
  have c: "callback demo_env (demo_request ?u) (ss_app S) = Some (Ret (?app', [map Some (response_text (cors_response 204))]))"
    by (simp only: cart_add_callback [OF demo_request_path u(1) S(2) u(2,3) t] after_command_def db prod.case sum.case)
  have new: "?app' \<noteq> ss_app S"
  proof
    assume "?app' = ss_app S"
    from arg_cong [OF this, of app_db] show False by simp
  qed
  obtain info where i: "qparser_parse ten_queries (zt ?u) = Some (info, QP_Done)" "visible info = ?ps"
    using url_parsed [OF u(1), of "[]"] unfolding zt_def by metis
  have r: "select_route (zt ?u) routes = Some (Some Carrinho_add)" by code_simp
  obtain v where v: "issued_in demo_env S ''BCDEFGHIJKLMNOPQ'' (Some v)" "cart_access demo_env Carrinho_add ?ps v (ss_app S) ?app'"
    using cart_belongs_to_login [OF S(1) demo_request_path r _ c] new u(3) by (auto simp: i)
  have "app_db ?app' = cart_add_sql v (unplus (norm ''Bolo'')) # app_db (ss_app S)"
    using v(2) u(2) by (auto simp: cart_access_def db dest: arg_cong [of _ _ app_db])
  with S(1) new c v(1) show ?thesis by blast
qed

end
