(* ===== verification/Tablec_Race.thy ===== *)
theory Tablec_Race
  imports Tablec
begin

text \<open>
  Two threads in \<^verbatim>\<open>tablec_set\<close> of \<^verbatim>\<open>server/libs/tablec.c\<close> at the same time. The table of
  sessions is shared by the threads of all connections and no lock protects it. An insertion
  is split into what it reads, the choice of the place, and what it writes; the two in a row
  are the insertion. When a second thread chooses its place between the two halves of the first, the
  first key is lost.
\<close>

section \<open>The two halves of an insertion\<close>

text \<open>What was read: the bucket and the branch taken, with the slot found, or the new array the
  entries were copied to.\<close>

datatype 'v set_plan =
    Plan_first nat
  | Plan_second nat
  | Plan_slot nat nat
  | Plan_grow nat "'v tablec_bucket list"

definition set_search :: "'v tablec_ht \<Rightarrow> string \<Rightarrow> 'v set_plan option" where
  "set_search t key = do {
     h \<leftarrow> tablec_hash t key;
     b \<leftarrow> rd (buckets t) h;
     if bucket_length b = 0 then do {
       b0 \<leftarrow> rd (bucket_array b) 0;
       Some (if bkey b0 = None then Plan_first h else Plan_second h) }
     else do {
       free \<leftarrow> free_slot (bucket_array b) (bucket_capacity b);
       case free of
         Some i \<Rightarrow> Some (Plan_slot h i)
       | None \<Rightarrow> Some (Plan_grow h (take (bucket_capacity b) (bucket_array b) @ replicate (bucket_capacity b) null_bucket)) } }"

definition set_store :: "'v set_plan \<Rightarrow> string \<Rightarrow> 'v option \<Rightarrow> 'v tablec_ht \<Rightarrow> 'v tablec_ht option" where
  "set_store plan key value t = (case plan of
     Plan_first h \<Rightarrow> do {
       b \<leftarrow> rd (buckets t) h;
       arr \<leftarrow> wr (bucket_array b) 0 \<lparr>bkey = Some key, bvalue = value\<rparr>;
       Some ((set_bucket t h (b\<lparr>bucket_array := arr, bucket_length := 1\<rparr>))\<lparr>table_length := table_length t + 1\<rparr>) }
   | Plan_second h \<Rightarrow> do {
       b \<leftarrow> rd (buckets t) h;
       b0 \<leftarrow> rd (bucket_array b) 0;
       Some ((set_bucket t h \<lparr>bucket_array = [b0, \<lparr>bkey = Some key, bvalue = value\<rparr>],
                            bucket_length = 2, bucket_capacity = 2\<rparr>)\<lparr>table_length := table_length t + 1\<rparr>) }
   | Plan_slot h i \<Rightarrow> do {
       b \<leftarrow> rd (buckets t) h;
       arr \<leftarrow> wr (bucket_array b) i \<lparr>bkey = Some key, bvalue = value\<rparr>;
       Some ((set_bucket t h (b\<lparr>bucket_array := arr, bucket_length := bucket_length b + 1\<rparr>))
             \<lparr>table_length := table_length t + 1\<rparr>) }
   | Plan_grow h copy \<Rightarrow> do {
       b \<leftarrow> rd (buckets t) h;
       newArray \<leftarrow> wr copy (bucket_length b) \<lparr>bkey = Some key, bvalue = value\<rparr>;
       Some (set_bucket t h \<lparr>bucket_array = newArray, bucket_length = bucket_length b + 1,
                           bucket_capacity = bucket_capacity b * 2\<rparr>) })"

text \<open>Without interference the two halves are the insertion.\<close>
theorem set_halves: "tablec_set t key value = do { plan \<leftarrow> set_search t key; set_store plan key value t }"
proof (cases "tablec_hash t key")
  case None
  then show ?thesis by (simp add: tablec_set_def set_search_def)
next
  case (Some h)
  show ?thesis
  proof (cases "rd (buckets t) h")
    case None
    then show ?thesis using Some by (simp add: tablec_set_def set_search_def del: rd_eq_None)
  next
    case b: (Some b)
    show ?thesis
    proof (cases "bucket_length b = 0")
      case True
      then show ?thesis using Some b
        by (cases "bucket_array b") (auto simp: tablec_set_def set_search_def set_store_def rd_def wr_def)
    next
      case False
      have "i < length arr" if "free_slot arr n = Some (Some i)" for i n and arr :: "'a tablec_bucket list"
        using that by (induction n) (auto split: bind_splits if_splits)
      then show ?thesis using Some b False
        by (auto simp: tablec_set_def set_search_def set_store_def split: bind_splits option.split)
    qed
  qed
qed

section \<open>Two insertions into one bucket\<close>

lemma same_arrays_get:
  assumes "table_capacity t1 = table_capacity t2" and "length (buckets t1) = length (buckets t2)"
    and "\<And>j. j < length (buckets t1) \<Longrightarrow> bucket_array (buckets t1 ! j) = bucket_array (buckets t2 ! j) \<and>
      bucket_capacity (buckets t1 ! j) = bucket_capacity (buckets t2 ! j) \<and>
      (bucket_length (buckets t1 ! j) = 0 \<longleftrightarrow> bucket_length (buckets t2 ! j) = 0)"
  shows "tablec_get t1 k = tablec_get t2 k"
proof (cases "tablec_hash t1 k")
  case None
  then show ?thesis using assms(1) by (simp add: tablec_get_def tablec_hash_def split: if_splits)
next
  case (Some h)
  then have h2: "tablec_hash t2 k = Some h" using assms(1) by (simp add: tablec_hash_def split: if_splits)
  show ?thesis
  proof (cases "h < length (buckets t1)")
    case True
    then show ?thesis using Some h2 assms(2) assms(3) [OF True] by (simp add: tablec_get_def)
  next
    case False
    then have "rd (buckets t1) h = None" "rd (buckets t2) h = None" using assms(2) by simp_all
    then show ?thesis using Some h2 by (simp add: tablec_get_def del: rd_eq_None)
  qed
qed

text \<open>A bucket with room: the place that was read, and what storing there does to a bucket with
  an array of the same length.\<close>

lemma search_room:
  assumes "table_ok t" and "bucket_length (buckets t ! slot_of t key) < bucket_capacity (buckets t ! slot_of t key)"
  obtains i where "i < bucket_capacity (buckets t ! slot_of t key)" and "set_search t key = Some (Plan_slot (slot_of t key) i)"
  | "set_search t key = Some (Plan_first (slot_of t key))"
proof -
  let ?b = "buckets t ! slot_of t key"
  note slot = table_slot [OF assms(1), of key]
  have b: "bucket_capacity ?b = length (bucket_array ?b)" "0 < bucket_capacity ?b"
      "bucket_length ?b = length (entries (bucket_array ?b))"
    using slot(3) by (auto simp: bucket_ok_def)
  show ?thesis
  proof (cases "bucket_length ?b = 0")
    case True
    then have "bkey (bucket_array ?b ! 0) = None"
      using b entries_at [of 0 "bucket_array ?b"] by (auto split: option.splits)
    then show ?thesis using that(2) True slot b by (simp add: set_search_def)
  next
    case False
    obtain i where "free_slot (bucket_array ?b) (bucket_capacity ?b) = Some (Some i)" "i < bucket_capacity ?b"
      using free_slot_spec [of "bucket_capacity ?b" "bucket_array ?b"] b assms(2) by (auto split: option.splits)
    then show ?thesis using that(1) False slot by (simp add: set_search_def)
  qed
qed

lemma search_same_slot: "slot_of t k1 = slot_of t k2 \<Longrightarrow> table_ok t \<Longrightarrow> set_search t k1 = set_search t k2"
  by (simp add: set_search_def table_slot(1))

text \<open>Two stores into one place: the second overwrites the first in the bucket, and only the counts have both.\<close>

lemma store_twice:
  assumes "h < length (buckets t)" and "i < length (bucket_array (buckets t ! h))"
    and "p = Plan_slot h i \<or> p = Plan_first h \<and> i = 0" and "set_store p k2 v2 t = Some t2'"
  shows "\<exists>t1 t2. set_store p k1 v1 t = Some t1 \<and> set_store p k2 v2 t1 = Some t2 \<and> tablec_get t2 = tablec_get t2' \<and>
    table_length t2 = table_length t + 2"
proof -
  let ?b = "buckets t ! h"
  let ?n = "\<lambda>k. case p of Plan_first _ \<Rightarrow> 1 | _ \<Rightarrow> bucket_length ?b + k"
  let ?t1 = "(set_bucket t h (?b\<lparr>bucket_array := (bucket_array ?b)[i := \<lparr>bkey = Some k1, bvalue = v1\<rparr>], bucket_length := ?n 1\<rparr>))
      \<lparr>table_length := table_length t + 1\<rparr>"
  let ?t2 = "(set_bucket t h (?b\<lparr>bucket_array := (bucket_array ?b)[i := \<lparr>bkey = Some k2, bvalue = v2\<rparr>], bucket_length := ?n 2\<rparr>))
      \<lparr>table_length := table_length t + 2\<rparr>"
  have "set_store p k1 v1 t = Some ?t1" using assms(1-3) by (auto simp: set_store_def)
  moreover have "set_store p k2 v2 ?t1 = Some ?t2" using assms(1-3) by (auto simp: set_store_def set_bucket_def)
  moreover have "tablec_get ?t2 = tablec_get t2'"
    by (rule ext, rule same_arrays_get) (use assms in \<open>auto simp: set_store_def set_bucket_def nth_list_update\<close>)
  ultimately show ?thesis by (intro exI [of _ ?t1] exI [of _ ?t2]) simp
qed

text \<open>C24: Two threads insert different new keys into the same bucket, which has room for another entry,
  and both choose their place before either has stored: both choose the same place, and the
  table then is the one without the first insertion, for every lookup; only the count of
  entries has both. The first key is lost. (A bucket without room is another matter: see
  the growth below.)\<close>
theorem concurrent_insertions:
  assumes "table_ok t" and "slot_of t k1 = slot_of t k2" and "k1 \<noteq> k2"
    and "table_map t k1 = None" and "table_map t k2 = None"
    and "bucket_length (buckets t ! slot_of t k1) < bucket_capacity (buckets t ! slot_of t k1)"
  shows "\<exists>p t1 t2 t2'. set_search t k1 = Some p \<and> set_search t k2 = Some p \<and>
    set_store p k1 v1 t = Some t1 \<and> set_store p k2 v2 t1 = Some t2 \<and> tablec_set t k2 v2 = Some t2' \<and>
    tablec_get t2 = tablec_get t2' \<and> table_lookup t2 k1 = Some None \<and> table_length t2 = table_length t + 2"
proof -
  let ?h = "slot_of t k2" let ?b = "buckets t ! ?h"
  have slot: "?h < length (buckets t)" "bucket_capacity ?b = length (bucket_array ?b)" "0 < bucket_capacity ?b"
    using table_slot [OF assms(1), of k2] by (auto simp: bucket_ok_def)
  obtain t2' where t2': "tablec_set t k2 v2 = Some t2'" "table_ok t2'" "table_map t2' = (table_map t)(k2 \<mapsto> v2)"
    by (rule set_fresh [OF assms(1,5)])
  obtain p where p: "set_search t k2 = Some p" "set_search t k1 = Some p" "set_store p k2 v2 t = Some t2'"
    using t2'(1) search_same_slot [OF assms(2,1)] by (auto simp: set_halves split: bind_splits)
  obtain i where i: "i < length (bucket_array ?b)" "p = Plan_slot ?h i \<or> p = Plan_first ?h \<and> i = 0"
    by (rule search_room [OF assms(1) assms(6) [unfolded assms(2)]]) (use p(1) slot in auto)
  obtain t1 t2 where t: "set_store p k1 v1 t = Some t1" "set_store p k2 v2 t1 = Some t2" "tablec_get t2 = tablec_get t2'"
      "table_length t2 = table_length t + 2"
    using store_twice [OF slot(1) i p(3)] by blast
  have "table_lookup t2 k1 = table_lookup t2' k1" using t(3) by (simp add: table_lookup_def)
  then have "table_lookup t2 k1 = Some None" using table_lookup_map [OF t2'(2)] t2'(3) assms(3,4) by simp
  then show ?thesis using p t t2'(1) by blast
qed

text \<open>In a full bucket of one entry, the state of most buckets, the two insertions write behind the new
  array: the second thread stores at the length the first has already raised.\<close>
theorem concurrent_growth:
  assumes "table_ok t" and "slot_of t k1 = slot_of t k2"
    and "bucket_length (buckets t ! slot_of t k1) = 1" and "bucket_capacity (buckets t ! slot_of t k1) = 1"
  shows "\<exists>p1 p2 t1. set_search t k1 = Some p1 \<and> set_search t k2 = Some p2 \<and>
    set_store p1 k1 v1 t = Some t1 \<and> set_store p2 k2 v2 t1 = None"
proof -
  let ?h = "slot_of t k2" let ?b = "buckets t ! ?h"
  note slot = table_slot [OF assms(1), of k2]
  have b: "length (bucket_array ?b) = 1" "length (entries (bucket_array ?b)) = 1" "bucket_capacity ?b = 1" "bucket_length ?b = 1"
    using slot(3) assms(2-4) by (simp_all add: bucket_ok_def)
  then have "free_slot (bucket_array ?b) (bucket_capacity ?b) = Some None"
    using free_slot_spec [of 1 "bucket_array ?b"] entries_full [of "bucket_array ?b"]
    by (auto split: option.splits)
  then have s: "set_search t k2 = Some (Plan_grow ?h (bucket_array ?b @ [null_bucket]))"
    using slot b by (simp add: set_search_def)
  moreover have "set_search t k1 = set_search t k2" by (rule search_same_slot [OF assms(2,1)])
  ultimately show ?thesis using slot(2) b by (simp add: set_store_def set_bucket_def wr_def)
qed

text \<open>Three keys that share a bucket of a table of four.\<close>

lemma demo_slots: "slot_of (tablec_init 4) ''a'' = 1" "slot_of (tablec_init 4) ''e'' = 1"
  by code_simp+

theorem concurrent_insertions_witness:
  "\<exists>p t1 t2. set_search (tablec_init 4) ''a'' = Some p \<and> set_search (tablec_init 4) ''e'' = Some p \<and>
     set_store p ''a'' (Some (1 :: nat)) (tablec_init 4) = Some t1 \<and> set_store p ''e'' (Some 2) t1 = Some t2 \<and>
     table_lookup t2 ''a'' = Some None"
proof -
  have ok: "table_ok (tablec_init 4 :: nat tablec_ht)" "table_map (tablec_init 4 :: nat tablec_ht) = Map.empty"
    by (simp_all add: init_ok init_map)
  have room: "bucket_length (buckets (tablec_init 4 :: nat tablec_ht) ! 1) < bucket_capacity (buckets (tablec_init 4 :: nat tablec_ht) ! 1)"
    by code_simp
  show ?thesis
    using concurrent_insertions [OF ok(1), of "''a''" "''e''" "Some 1" "Some 2"] room ok(2) by (auto simp: demo_slots)
qed

definition demo_full :: "nat tablec_ht" where
  "demo_full = the (tablec_set (tablec_init 4) ''i'' (Some 1))"

theorem concurrent_growth_witness:
  "\<exists>p1 p2 t1. set_search demo_full ''a'' = Some p1 \<and> set_search demo_full ''e'' = Some p2 \<and>
     set_store p1 ''a'' (Some 1) demo_full = Some t1 \<and> set_store p2 ''e'' (Some 2) t1 = None"
proof -
  obtain t where t: "tablec_set (tablec_init 4) ''i'' (Some (1 :: nat)) = Some t" "table_ok t"
    using set_fresh [of "tablec_init 4 :: nat tablec_ht" "''i''" "Some 1"] by (auto simp: init_ok init_map)
  then have ok: "table_ok demo_full" by (simp add: demo_full_def)
  have "slot_of demo_full ''a'' = slot_of demo_full ''e''" "bucket_length (buckets demo_full ! slot_of demo_full ''a'') = 1"
      "bucket_capacity (buckets demo_full ! slot_of demo_full ''a'') = 1"
    by code_simp+
  then show ?thesis by (rule concurrent_growth [OF ok])
qed

end
