(* ===== verification/Http_Race.thy ===== *)
theory Http_Race
  imports Http_Server
begin

text \<open>
  The list of free slots of \<^verbatim>\<open>server/libs/httpserver.c\<close> is shared by the accept loop and all
  connection threads without a lock. Giving a slot back, \<^verbatim>\<open>_httpserver_add_available_socket\<close>, and
  choosing one, \<^verbatim>\<open>_httpserver_select_position\<close>, are each split into the search for an entry and the
  store there; the count of connections, which the one decrements and the accept loop
  increments, is read and written in separate steps. When two connections search before either
  stores, one slot is lost. While a slot is free, an accept and the end of a connection keep
  the list of slots intact, but a lost update leaves the count wrong; when none is free, the
  count, which is used as an index when the table grows, makes two connections share a slot.
\<close>

definition release_search :: "'d httpserver \<Rightarrow> nat option option" where
  "release_search server = first_taken (hs_available server) (hs_capacity server) 0"

definition release_store :: "nat option \<Rightarrow> nat \<Rightarrow> 'd httpserver \<Rightarrow> 'd httpserver option" where
  "release_store r socket_index server = (case r of
     None \<Rightarrow> Some server
   | Some i \<Rightarrow> do {
       avail \<leftarrow> wr (hs_available server) i (socket_index + 1);
       Some (server\<lparr>hs_available := avail\<rparr>) })"

text \<open>\<^verbatim>\<open>server->sockets_length--\<close> after a store, with \<open>n\<close> the value it has read.\<close>

definition release_count :: "nat option \<Rightarrow> int \<Rightarrow> 'd httpserver \<Rightarrow> 'd httpserver" where
  "release_count r n server = (case r of None \<Rightarrow> server | Some i \<Rightarrow> server\<lparr>hs_length := n - 1\<rparr>)"

lemma first_taken_bound: "first_taken avail cap i = Some (Some k) \<Longrightarrow> k < length avail"
proof (induction avail cap i rule: first_taken.induct)
  case (1 avail cap i)
  then show ?case by (subst (asm) first_taken.simps) (auto split: bind_splits if_splits)
qed

text \<open>Without interference the search, the store and the count are the operation.\<close>
theorem release_halves:
  "httpserver_add_available_socket server i = do {
     r \<leftarrow> release_search server;
     server' \<leftarrow> release_store r i server;
     Some (release_count r (hs_length server') server') }"
proof (cases "release_search server")
  case None
  then show ?thesis by (simp add: httpserver_add_available_socket_def release_search_def)
next
  case (Some r)
  show ?thesis
  proof (cases r)
    case None
    then show ?thesis
      using Some by (simp add: httpserver_add_available_socket_def release_search_def release_store_def release_count_def)
  next
    case k: (Some k)
    then have "k < length (hs_available server)" using Some first_taken_bound by (auto simp: release_search_def)
    then show ?thesis
      using Some k by (simp add: httpserver_add_available_socket_def release_search_def release_store_def release_count_def)
  qed
qed

lemma first_available_zeros: "first_available (replicate n 0) n i = Some None"
proof (induction "replicate n (0 :: nat)" n i rule: first_available.induct)
  case (1 n i)
  then show ?case by (subst first_available.simps) auto
qed

text \<open>In a full table of \<open>n\<close> slots two connections end at the same time and give back their slots
  \<open>i\<close> and \<open>j\<close>: both choose the first entry, the slot \<open>i\<close> is lost, and the count drops by two. The
  next connection gets \<open>j\<close>; the one after that finds no free slot, the table grows, and it
  gets the slot \<open>n - 1\<close>. That slot is in use: it is \<open>j\<close>, or it belongs to a connection that
  never ended.\<close>
theorem concurrent_releases:
  assumes "hs_capacity srv = n" and "hs_available srv = replicate n 0" and "hs_length srv = int n"
    and "i < n" and "j < n" and "i \<noteq> j" and "i \<noteq> n - 1"
  shows "\<exists>r srv1 srv2 srv3 srv4. release_search srv = Some r \<and> release_store r i srv = Some srv1 \<and>
    release_store r j (release_count r (hs_length srv1) srv1) = Some srv2 \<and> Suc i \<notin> set (hs_available srv2) \<and>
    take_slot (release_count r (hs_length srv2) srv2) = Some (srv3, j) \<and> take_slot srv3 = Some (srv4, n - 1)"
proof -
  have n: "2 \<le> n" using assms(4-6) by linarith
  then obtain m where m: "n = Suc m" by (cases n) auto
  let ?s1 = "srv\<lparr>hs_available := (replicate n 0)[0 := i + 1]\<rparr>"
  let ?s2 = "srv\<lparr>hs_available := (replicate n 0)[0 := j + 1], hs_length := int n - 1\<rparr>"
  let ?s2' = "srv\<lparr>hs_available := (replicate n 0)[0 := j + 1], hs_length := int n - 2\<rparr>"
  let ?s3 = "srv\<lparr>hs_length := int n - 1\<rparr>"
  have search: "release_search srv = Some (Some 0)"
    using n assms(1,2) by (simp add: release_search_def) (subst first_taken.simps, simp)
  have store: "release_store (Some 0) i srv = Some ?s1"
    "release_store (Some 0) j (release_count (Some 0) (hs_length ?s1) ?s1) = Some ?s2"
    "release_count (Some 0) (hs_length ?s2) ?s2 = ?s2'"
    using n assms(2,3) by (simp_all add: release_store_def release_count_def)
  have lost: "Suc i \<notin> set (hs_available ?s2)" using assms(6) m by simp
  have "first_available ((replicate n 0)[0 := j + 1]) n 0 = Some (Some 0)"
    using n by (subst first_available.simps) simp
  then have take1: "take_slot ?s2' = Some (?s3, j)"
    using assms(1,2) m by (simp add: take_slot_def httpserver_select_position_def)
  have grown: "n - 1 < length (replicate n 0 @ map Suc [n..<n * 2])" using m by simp
  have "first_available (hs_available ?s3) (hs_capacity ?s3) 0 = Some None"
    using assms(1,2) first_available_zeros by simp
  moreover have "nat (int n - 1) = n - 1" "\<not> int n - 1 < 0" using n by linarith+
  ultimately have "\<exists>srv4. take_slot ?s3 = Some (srv4, n - 1)"
    using assms(1,2) grown by (simp add: take_slot_def httpserver_select_position_def Let_def)
  then obtain srv4 where take2: "take_slot ?s3 = Some (srv4, n - 1)" by blast
  show ?thesis
    apply (rule exI [of _ "Some 0"], rule exI [of _ ?s1], rule exI [of _ ?s2], rule exI [of _ ?s3], rule exI [of _ srv4])
    using search store lost take1 take2 by (simp only: simp_thms)
qed

definition two_busy :: "nat httpserver" where
  "two_busy = \<lparr>hs_server = \<lparr>ss_socket = 3, ss_port = 8888\<rparr>, hs_sockets = replicate 2 fresh_client, hs_available = [0, 0],
     hs_capacity = 2, hs_length = 2\<rparr>"

theorem concurrent_releases_witness:
  "\<exists>r srv1 srv2 srv3 srv4. release_search two_busy = Some r \<and> release_store r 0 two_busy = Some srv1 \<and>
    release_store r 1 (release_count r (hs_length srv1) srv1) = Some srv2 \<and>
    take_slot (release_count r (hs_length srv2) srv2) = Some (srv3, 1) \<and> take_slot srv3 = Some (srv4, 1)"
proof -
  have "hs_capacity two_busy = 2" "hs_available two_busy = replicate 2 0" "hs_length two_busy = int 2"
    by (simp_all add: two_busy_def numeral_2_eq_2)
  from concurrent_releases [OF this, of 0 1] show ?thesis by auto
qed

section \<open>An accept and the end of a connection at the same time\<close>

text \<open>Choosing a slot for a new connection, \<^verbatim>\<open>_httpserver_select_position\<close>, split in the same way.\<close>

definition select_search :: "'d httpserver \<Rightarrow> nat option option" where
  "select_search server = first_available (hs_available server) (hs_capacity server) 0"

definition select_store :: "nat option \<Rightarrow> 'd httpserver \<Rightarrow> ('d httpserver \<times> nat) option" where
  "select_store r server = (case r of
     Some i \<Rightarrow> do {
       a \<leftarrow> rd (hs_available server) i;
       Some (server\<lparr>hs_available := (hs_available server)[i := 0]\<rparr>, a - 1) }
   | None \<Rightarrow> do {
       let capacity = hs_capacity server * 2;
       let avail = hs_available server @ map Suc [hs_capacity server ..< capacity];
       if hs_length server < 0 then None
       else do {
         avail' \<leftarrow> wr avail (nat (hs_length server)) 0;
         Some (server\<lparr>hs_capacity := capacity, hs_available := avail',
                 hs_sockets := hs_sockets server @ replicate (hs_capacity server) fresh_client\<rparr>,
               nat (hs_length server)) } })"

text \<open>\<^verbatim>\<open>server->sockets_length++\<close> of the accept loop, with \<open>n\<close> the value it has read.\<close>

definition accept_count :: "int \<Rightarrow> 'd httpserver \<Rightarrow> 'd httpserver" where
  "accept_count n server = server\<lparr>hs_length := n + 1\<rparr>"

text \<open>Without interference the two halves are the operation, and with the count they take a slot.\<close>
theorem select_halves:
  "httpserver_select_position server = do { r \<leftarrow> select_search server; select_store r server }"
  by (simp add: httpserver_select_position_def select_search_def select_store_def)

theorem accept_halves:
  "take_slot server = do {
     r \<leftarrow> select_search server;
     (server', i) \<leftarrow> select_store r server;
     Some (accept_count (hs_length server') server', i) }"
  by (simp add: take_slot_def select_halves accept_count_def)

lemma full_pool:
  assumes "pool_ok srv" and "busy_slots srv = {..<hs_capacity srv}"
  shows "hs_available srv = replicate (hs_capacity srv) 0" and "hs_length srv = int (hs_capacity srv)"
proof -
  have "v = 0" if "v \<in> set (hs_available srv)" for v
  proof (cases v)
    case (Suc j)
    then have "j < hs_capacity srv" using assms(1) that by (auto simp: pool_ok_def list_all_iff)
    then show ?thesis using assms(2) that Suc by (auto simp: busy_slots_def)
  qed
  then show "hs_available srv = replicate (hs_capacity srv) 0"
    using assms(1) by (intro replicate_eqI) (auto simp: pool_ok_def)
  then show "hs_length srv = int (hs_capacity srv)" using assms(1) by (simp add: pool_ok_def)
qed

text \<open>The order of the entries does not matter to the pool.\<close>

lemma pool_reordered:
  assumes "mset (hs_available s) = mset (hs_available t)" and "hs_capacity s = hs_capacity t"
    and "length (hs_sockets s) = length (hs_sockets t)" and "hs_length s = hs_length t"
  shows "pool_ok s = pool_ok t" and "busy_slots s = busy_slots t"
proof -
  have eq: "set (hs_available s) = set (hs_available t)" "length (hs_available s) = length (hs_available t)"
    using assms(1) mset_eq_setD mset_eq_length by blast+
  have f: "mset (filter P (hs_available s)) = mset (filter P (hs_available t))" for P
    using assms(1) by (simp add: mset_filter)
  show "pool_ok s = pool_ok t"
    unfolding pool_ok_def assms(2-4) eq list_all_iff
    using mset_eq_imp_distinct_iff [OF f] mset_eq_length [OF f] by metis
  show "busy_slots s = busy_slots t" by (simp add: busy_slots_def assms(2) eq)
qed

lemma pool_search:
  assumes "pool_ok srv"
  shows "select_search srv = Some (Some k) \<Longrightarrow> k < length (hs_available srv) \<and> hs_available srv ! k \<noteq> 0"
    and "release_search srv = Some (Some j) \<Longrightarrow> j < length (hs_available srv) \<and> hs_available srv ! j = 0"
    and "i \<in> busy_slots srv \<Longrightarrow> \<exists>l. release_search srv = Some (Some l)"
proof -
  have len: "length (hs_available srv) = hs_capacity srv" using assms by (simp add: pool_ok_def)
  show "select_search srv = Some (Some k) \<Longrightarrow> k < length (hs_available srv) \<and> hs_available srv ! k \<noteq> 0"
    using first_available_spec [OF len, of 0] len by (simp add: select_search_def)
  show "release_search srv = Some (Some j) \<Longrightarrow> j < length (hs_available srv) \<and> hs_available srv ! j = 0"
    using first_taken_spec [OF len, of 0] len by (simp add: release_search_def)
  assume i: "i \<in> busy_slots srv"
  obtain s where "httpserver_add_available_socket srv i = Some s" "busy_slots s = busy_slots srv - {i}"
    using release_law [OF assms i] by blast
  then show "\<exists>l. release_search srv = Some (Some l)"
    using i by (auto simp: release_halves release_store_def release_count_def split: bind_splits option.splits)
qed

text \<open>C25: While a slot is free, an accept and the end of a connection keep the list of slots intact when both have
  chosen their entry before either stores: the stores commute, the new connection gets a slot
  that was not in use, and the slots in use are then those of the connections that are left. The
  count of connections is right when one updates it after the other; when both read it before
  either writes, one update is lost and the count is wrong by one, either way.\<close>
theorem concurrent_accept_release:
  assumes "pool_ok srv" and "i \<in> busy_slots srv"
    and "select_search srv = Some (Some k)" and "release_search srv = Some (Some j)"
  shows "\<exists>x srv1 srv2 srv3. select_store (Some k) srv = Some (srv1, x) \<and> release_store (Some j) i srv1 = Some srv2 \<and>
    release_store (Some j) i srv = Some srv3 \<and> select_store (Some k) srv3 = Some (srv2, x) \<and>
    hs_available srv2 = (hs_available srv)[k := 0, j := Suc i] \<and>
    x \<notin> busy_slots srv \<and> busy_slots srv2 = insert x (busy_slots srv) - {i} \<and>
    (let n = hs_length srv in
       release_count (Some j) (n + 1) (accept_count n srv2) = srv2 \<and>
       accept_count (n - 1) (release_count (Some j) n srv2) = srv2 \<and> pool_ok srv2 \<and>
       \<not> pool_ok (release_count (Some j) n (accept_count n srv2)) \<and>
       \<not> pool_ok (accept_count n (release_count (Some j) n srv2)))"
proof -
  let ?av = "hs_available srv" let ?s1 = "srv\<lparr>hs_available := ?av[k := 0]\<rparr>"
  let ?s2 = "srv\<lparr>hs_available := ?av[k := 0, j := Suc i]\<rparr>"
  note k = pool_search(1) [OF assms(1,3)] and j = pool_search(2) [OF assms(1,4)]
  have jk: "j \<noteq> k" using j k by auto
  have take: "take_slot srv = Some (accept_count (hs_length srv) ?s1, ?av ! k - 1)"
    using assms(3) k by (simp add: accept_halves select_store_def)
  have law: "pool_ok (accept_count (hs_length srv) ?s1)" "?av ! k - 1 \<notin> busy_slots srv"
      "busy_slots (accept_count (hs_length srv) ?s1) = insert (?av ! k - 1) (busy_slots srv)"
    using take_slot_law [OF assms(1)] take by auto
  obtain l where l: "release_search (accept_count (hs_length srv) ?s1) = Some (Some l)"
    using pool_search(3) [OF law(1), of i] law(3) assms(2) by blast
  have l': "l < length ?av" "?av[k := 0] ! l = 0"
    using pool_search(2) [OF law(1) l] by (simp_all add: accept_count_def)
  obtain s4 where s4: "httpserver_add_available_socket (accept_count (hs_length srv) ?s1) i = Some s4" "pool_ok s4"
      "busy_slots s4 = insert (?av ! k - 1) (busy_slots srv) - {i}"
    using release_law [OF law(1), of i] law(3) assms(2) by auto
  have e: "s4 = srv\<lparr>hs_available := ?av[k := 0, l := Suc i]\<rparr>"
    using s4(1) l l' by (simp add: release_halves release_store_def release_count_def accept_count_def)
  have m: "mset (hs_available ?s2) = mset (hs_available s4)"
    using j l' k jk by (simp add: e mset_update)
  have ok: "pool_ok ?s2" "busy_slots ?s2 = busy_slots s4"
    using pool_reordered [OF m] s4(2) e by simp_all
  have "\<not> pool_ok (?s2\<lparr>hs_length := v\<rparr>)" if "v \<noteq> hs_length srv" for v
    using ok(1) that by (simp add: pool_ok_def)
  then show ?thesis
    using k j jk law(2) ok s4(3)
    by (simp add: select_store_def release_store_def list_update_swap Let_def accept_count_def release_count_def)
qed

text \<open>C26: In a full table of more than one slot an accept and the end of a connection make two connections share
  a slot: the accept has found no free slot when
  the connection in slot \<open>i\<close> ends and gives it back; then the table grows, and the new
  connection gets the last of the old slots, because the count of connections is the index that
  is used. When that slot is not \<open>i\<close>, it belongs to a connection that is still there, and the
  entry of that connection is the one the accept loop overwrites. When it is \<open>i\<close>, it is still in
  the list of free slots, and the next connection is given it too.\<close>
theorem concurrent_growth_release:
  assumes "pool_ok srv" and "busy_slots srv = {..<hs_capacity srv}" and "1 < hs_capacity srv" and "i < hs_capacity srv"
  shows "\<exists>srv1 srv2 w'. select_search srv = Some None \<and> httpserver_add_available_socket srv i = Some srv1 \<and>
    select_store None srv1 = Some (srv2, hs_capacity srv - 1) \<and>
    store_step (hs_capacity srv - 1) c (w\<lparr>w_server := accept_count (hs_length srv2) srv2\<rparr>) = Some w' \<and>
    hs_sockets (w_server w') ! (hs_capacity srv - 1) = c \<and>
    (if Suc i < hs_capacity srv
     then hs_capacity srv - 1 \<in> busy_slots srv - {i} \<and>
       hs_sockets srv2 ! (hs_capacity srv - 1) = hs_sockets srv ! (hs_capacity srv - 1)
     else \<exists>srv3. take_slot (w_server w') = Some (srv3, hs_capacity srv - 1))"
proof -
  note full = full_pool [OF assms(1,2)]
  let ?n = "hs_capacity srv" let ?s1 = "srv\<lparr>hs_available := (replicate ?n 0)[0 := Suc i], hs_length := int ?n - 1\<rparr>"
  have search: "select_search srv = Some None" using full(1) first_available_zeros by (simp add: select_search_def)
  have "release_search srv = Some (Some 0)"
    using assms(3) full(1) by (simp add: release_search_def) (subst first_taken.simps, simp)
  then have release: "httpserver_add_available_socket srv i = Some ?s1"
    using full assms(3) by (simp add: release_halves release_store_def release_count_def)
  let ?av = "((replicate ?n 0)[0 := Suc i] @ map Suc [?n ..< ?n * 2])[?n - 1 := 0]"
  let ?s2 = "srv\<lparr>hs_available := ?av, hs_length := int ?n - 1, hs_capacity := ?n * 2,
    hs_sockets := hs_sockets srv @ replicate ?n fresh_client\<rparr>"
  have "nat (int ?n - 1) = ?n - 1" "\<not> int ?n - 1 < 0" using assms(3) by linarith+
  then have store: "select_store None ?s1 = Some (?s2, ?n - 1)" using assms(3) by (simp add: select_store_def Let_def)
  have len: "?n - 1 < length (hs_sockets ?s2)" using assms(1,3) by (simp add: pool_ok_def)
  define s3 where "s3 = (accept_count (hs_length ?s2) ?s2)\<lparr>hs_sockets := (hs_sockets ?s2)[?n - 1 := c]\<rparr>"
  have w: "store_step (?n - 1) c (w\<lparr>w_server := accept_count (hs_length ?s2) ?s2\<rparr>) = Some (w\<lparr>w_server := s3\<rparr>)"
    using len by (simp add: store_step_def s3_def accept_count_def)
  have c: "hs_sockets s3 ! (?n - 1) = c" using len by (simp add: s3_def)
  have old: "hs_sockets ?s2 ! (?n - 1) = hs_sockets srv ! (?n - 1)"
    using assms(1,3) by (simp add: pool_ok_def nth_append)
  have again: "\<exists>srv3. take_slot s3 = Some (srv3, ?n - 1)" if "\<not> Suc i < ?n"
  proof -
    have i: "Suc i = ?n" using that assms(4) by linarith
    have av: "?av ! 0 = ?n" "0 < length ?av" using assms(3) i by (simp_all add: nth_append)
    then have "first_available ?av (?n * 2) 0 = Some (Some 0)"
      using assms(3) by (subst first_available.simps) simp
    then show ?thesis
      using av by (simp add: accept_halves select_search_def select_store_def s3_def accept_count_def)
  qed
  have ws: "w_server (w\<lparr>w_server := s3\<rparr>) = s3" by simp
  have last: "?n - 1 \<in> busy_slots srv - {i}" if "Suc i < ?n" using that assms(2) by auto
  have "hs_sockets (w_server (w\<lparr>w_server := s3\<rparr>)) ! (?n - 1) = c \<and>
    (if Suc i < ?n then ?n - 1 \<in> busy_slots srv - {i} \<and> hs_sockets ?s2 ! (?n - 1) = hs_sockets srv ! (?n - 1)
     else \<exists>srv3. take_slot (w_server (w\<lparr>w_server := s3\<rparr>)) = Some (srv3, ?n - 1))"
    unfolding ws using c old again last by presburger
  then show ?thesis using search release store w by blast
qed

lemma two_busy_full: "pool_ok two_busy" "busy_slots two_busy = {..<hs_capacity two_busy}"
  by (auto simp: pool_ok_def two_busy_def busy_slots_def numeral_2_eq_2)

theorem concurrent_growth_release_witness:
  "\<forall>c w. (\<exists>srv1 srv2 w'. httpserver_add_available_socket two_busy 0 = Some srv1 \<and> select_store None srv1 = Some (srv2, 1) \<and>
      store_step 1 c (w\<lparr>w_server := accept_count (hs_length srv2) srv2\<rparr>) = Some w' \<and> hs_sockets (w_server w') ! 1 = c \<and>
      1 \<in> busy_slots two_busy) \<and>
    (\<exists>srv1 srv2 w' srv3. httpserver_add_available_socket two_busy 1 = Some srv1 \<and> select_store None srv1 = Some (srv2, 1) \<and>
      store_step 1 c (w\<lparr>w_server := accept_count (hs_length srv2) srv2\<rparr>) = Some w' \<and>
      take_slot (w_server w') = Some (srv3, 1))"
proof (intro allI)
  fix c :: "nat httpserver_client" and w :: "nat world"
  have n: "hs_capacity two_busy = 2" by (simp add: two_busy_def)
  show "(\<exists>srv1 srv2 w'. httpserver_add_available_socket two_busy 0 = Some srv1 \<and> select_store None srv1 = Some (srv2, 1) \<and>
      store_step 1 c (w\<lparr>w_server := accept_count (hs_length srv2) srv2\<rparr>) = Some w' \<and> hs_sockets (w_server w') ! 1 = c \<and>
      1 \<in> busy_slots two_busy) \<and>
    (\<exists>srv1 srv2 w' srv3. httpserver_add_available_socket two_busy 1 = Some srv1 \<and> select_store None srv1 = Some (srv2, 1) \<and>
      store_step 1 c (w\<lparr>w_server := accept_count (hs_length srv2) srv2\<rparr>) = Some w' \<and>
      take_slot (w_server w') = Some (srv3, 1))"
    using concurrent_growth_release [OF two_busy_full, of 0 c w] concurrent_growth_release [OF two_busy_full, of 1 c w]
    unfolding n by simp blast
qed

definition one_busy :: "nat httpserver" where
  "one_busy = two_busy\<lparr>hs_available := [0, 2], hs_length := 1\<rparr>"

theorem concurrent_accept_release_witness:
  "\<exists>srv1 srv2. select_store (Some 1) one_busy = Some (srv1, 1) \<and> release_store (Some 0) 0 srv1 = Some srv2 \<and>
    hs_available srv2 = [1, 0] \<and> busy_slots srv2 = {1} \<and> \<not> pool_ok (accept_count 1 (release_count (Some 0) 1 srv2))"
proof -
  have ok: "pool_ok one_busy" by (simp add: pool_ok_def one_busy_def two_busy_def)
  have busy: "busy_slots one_busy = {0}" by (auto simp: busy_slots_def one_busy_def two_busy_def)
  have s: "select_search one_busy = Some (Some 1)" "release_search one_busy = Some (Some 0)"
    "select_store (Some 1) one_busy = Some (one_busy\<lparr>hs_available := [0, 0]\<rparr>, 1)" by code_simp+
  have v: "hs_available one_busy = [0, 2]" "hs_length one_busy = 1" by (simp_all add: one_busy_def)
  show ?thesis
    using concurrent_accept_release [OF ok _ s(1,2), of 0] s(3) by (auto simp: busy v Let_def)
qed

end
