(* ===== verification/Http_Loop.thy ===== *)
theory Http_Loop
  imports Http_Server
begin

text \<open>
  The accept loop of \<^verbatim>\<open>server/libs/httpserver.c\<close> as a whole, \<^verbatim>\<open>httpserver_handle_request\<close>: a
  sequence of accepts, each followed by the store of the connection. The results of the
  system's accept are the list the loop runs on; an empty list is a loop that waits. The runs of the
  loop are paths of \<open>sys_step\<close>, which gives them the invariants of the reachable states, and
  the table of slots grows no more than it has to.
\<close>

fun handle_loop ::
  "(int \<times> (nat list \<times> 16 word) \<times> nat) list \<Rightarrow> csocket_server_client \<Rightarrow> 'd world \<Rightarrow> (csocket_server_client \<times> 'd world) option"
where
  "handle_loop [] client w = Some (client, w)"
| "handle_loop ((fd, peer, thread) # accepts) client w = do {
     r \<leftarrow> accept_step fd peer thread client w;
     case r of
       Inl client1 \<Rightarrow> Some (client1, w)
     | Inr (w1, i, http_client) \<Rightarrow> do {
         w2 \<leftarrow> store_step i http_client w1;
         handle_loop accepts (w_data w1 (w_next w)) w2 } }"

definition httpserver_handle_request ::
  "(int \<times> (nat list \<times> 16 word) \<times> nat) list \<Rightarrow> 'd world \<Rightarrow> (csocket_server_client \<times> 'd world) option"
where
  "httpserver_handle_request accepts w = handle_loop accepts no_client w"

lemma take_slot_grows:
  assumes "pool_ok srv" and "take_slot srv = Some (srv', i)"
  shows "hs_capacity srv' = hs_capacity srv \<or> hs_capacity srv' = 2 * hs_capacity srv \<and> card (busy_slots srv) = hs_capacity srv"
proof -
  have len: "length (hs_available srv) = hs_capacity srv" using assms(1) by (simp add: pool_ok_def)
  obtain r where r: "first_available (hs_available srv) (hs_capacity srv) 0 = Some r"
    using first_available_spec [OF len, of 0] by (auto split: option.splits)
  show ?thesis
  proof (cases r)
    case (Some k)
    then show ?thesis using r assms(2) by (auto simp: take_slot_def httpserver_select_position_def split: bind_splits)
  next
    case None
    then have "\<forall>j<hs_capacity srv. hs_available srv ! j = 0" using first_available_spec [OF len, of 0] r by auto
    then have "busy_slots srv = {..<hs_capacity srv}" using len by (auto simp: busy_slots_def in_set_conv_nth)
    then have full: "card (busy_slots srv) = hs_capacity srv" by simp
    let ?avail = "wr (hs_available srv @ map Suc [hs_capacity srv..<hs_capacity srv * 2]) (nat (hs_length srv)) 0"
    have "hs_capacity srv' = hs_capacity srv * 2"
    proof (cases ?avail)
      case None
      then show ?thesis using assms(2) r \<open>r = None\<close>
        by (simp add: take_slot_def httpserver_select_position_def Let_def del: wr_eq_None split: if_splits)
    next
      case (Some avail)
      then show ?thesis using assms(2) r \<open>r = None\<close>
        by (auto simp add: take_slot_def httpserver_select_position_def Let_def simp del: wr_eq_Some split: if_splits)
    qed
    then show ?thesis using full by simp
  qed
qed

lemma running_card:
  assumes "sys_ok s"
  shows "card (busy_slots (w_server (sys_world s))) = length (sys_running s)"
  using sys_ok_D(2,3) [OF assms] distinct_card [of "map fst (sys_running s)"] by simp

lemma accept_step_grows:
  assumes "sys_ok s" and "accept_step fd peer th client (sys_world s) = Some (Inr (w, i, c))"
  shows "hs_capacity (w_server w) \<le> max (hs_capacity (w_server (sys_world s))) (2 * length (sys_running s))"
proof -
  obtain srv' where "take_slot (w_server (sys_world s)) = Some (srv', i)" "w_server w = srv'"
    using assms(2) by (auto simp: accept_step_def csocket_server_accept_def take_slot_def Let_def split: bind_splits if_splits)
  then show ?thesis using take_slot_grows [OF sys_ok_D(1) [OF assms(1)]] running_card [OF assms(1)] by fastforce
qed

text \<open>One turn of the loop as two steps.\<close>

lemma loop_turn:
  assumes "sys_reachable s" and "sys_pending s = None" and "0 \<le> fd"
  obtains w i c s' where "accept_step fd peer th client (sys_world s) = Some (Inr (w, i, c))"
    and "store_step i c w = Some (sys_world s')" and "sys_reachable s'" and "sys_pending s' = None"
    and "sys_running s' = (i, w_next (sys_world s)) # sys_running s"
    and "hs_capacity (w_server (sys_world s')) \<le> max (hs_capacity (w_server (sys_world s))) (2 * length (sys_running s))"
proof -
  have ok: "sys_ok s" by (rule reachable_ok [OF assms(1)])
  obtain w i c where a: "accept_step fd peer th client (sys_world s) = Some (Inr (w, i, c))"
    using accept_step_enabled [OF ok assms(3)] by blast
  let ?y = "\<lparr>sys_world = w, sys_running = (i, w_next (sys_world s)) # sys_running s, sys_pending = Some (i, c)\<rparr>"
  have y: "sys_reachable ?y" by (rule reach_step [OF assms(1) step_accept [OF assms(2) a]])
  obtain w2 where w2: "store_step i c w = Some w2"
    using store_step_enabled [OF reachable_ok [OF y]] by auto
  let ?s' = "\<lparr>sys_world = w2, sys_running = sys_running ?y, sys_pending = None\<rparr>"
  have "sys_step ?y ?s'" using step_store [of ?y i c w2] w2 by simp
  then have "sys_reachable ?s'" by (rule reach_step [OF y])
  moreover have "hs_capacity (w_server w2) = hs_capacity (w_server w)"
    using w2 by (auto simp: store_step_def split: bind_splits)
  ultimately show ?thesis using that [of w i c ?s'] a w2 accept_step_grows [OF ok a] by simp
qed

lemma loop_run:
  assumes "sys_reachable s" and "sys_pending s = None" and "list_all (\<lambda>a. 0 \<le> fst a) accepts"
  shows "\<exists>client' s'. handle_loop accepts client (sys_world s) = Some (client', sys_world s') \<and> sys_reachable s' \<and>
    sys_pending s' = None \<and> length (sys_running s') = length (sys_running s) + length accepts \<and>
    hs_capacity (w_server (sys_world s')) \<le> max (hs_capacity (w_server (sys_world s))) (2 * length (sys_running s'))"
  using assms
proof (induction accepts arbitrary: s client)
  case Nil
  then show ?case by auto
next
  case (Cons a accepts)
  obtain fd peer th where a: "a = (fd, peer, th)" by (cases a)
  have fd: "0 \<le> fd" and rest: "list_all (\<lambda>a. 0 \<le> fst a) accepts" using Cons.prems(3) a by simp_all
  obtain w i c s1 where t: "accept_step fd peer th client (sys_world s) = Some (Inr (w, i, c))"
      "store_step i c w = Some (sys_world s1)" "sys_reachable s1" "sys_pending s1 = None"
      "sys_running s1 = (i, w_next (sys_world s)) # sys_running s"
      "hs_capacity (w_server (sys_world s1)) \<le> max (hs_capacity (w_server (sys_world s))) (2 * length (sys_running s))"
    by (rule loop_turn [OF Cons.prems(1,2) fd])
  obtain client' s' where s': "handle_loop accepts (w_data w (w_next (sys_world s))) (sys_world s1) = Some (client', sys_world s')"
      "sys_reachable s'" "sys_pending s' = None" "length (sys_running s') = length (sys_running s1) + length accepts"
      "hs_capacity (w_server (sys_world s')) \<le> max (hs_capacity (w_server (sys_world s1))) (2 * length (sys_running s'))"
    using Cons.IH [OF t(3,4) rest] by blast
  then show ?case using t(1,2,5,6) a by (intro exI [of _ client'] exI [of _ s']) auto
qed

text \<open>C12: However many connections arrive, the accept loop of a server that has just started takes them all: it does
  not trap, gives every one a slot of its own, allocates one block for each, and grows the
  table to at most twice the number of connections.\<close>
theorem accepts_all:
  assumes "httpserver_start_server os = Ret server" and "list_all (\<lambda>a. 0 \<le> fst a) accepts" and "accepts \<noteq> []"
  shows "\<exists>client' w'. httpserver_handle_request accepts (sys_world (sys_start server)) = Some (client', w') \<and>
    card (busy_slots (w_server w')) = length accepts \<and> length (w_live w') = length accepts \<and> distinct (w_live w') \<and>
    hs_capacity (w_server w') \<le> 2 * length accepts"
proof -
  have cap: "hs_capacity (w_server (sys_world (sys_start server))) = 1"
    using assms(1) by (auto simp: sys_start_def httpserver_start_server_def split: prod.splits if_splits)
  obtain client' s' where s': "handle_loop accepts no_client (sys_world (sys_start server)) = Some (client', sys_world s')"
      "sys_reachable s'" "length (sys_running s') = length accepts"
      "hs_capacity (w_server (sys_world s')) \<le> max 1 (2 * length accepts)"
    using loop_run [OF reach_start [OF assms(1)] _ assms(2), of no_client] cap by (auto simp: sys_start_def)
  have ok: "sys_ok s'" by (rule reachable_ok [OF s'(2)])
  have "distinct (map snd (sys_running s'))" "distinct (w_live (sys_world s'))"
      "set (w_live (sys_world s')) = snd ` set (sys_running s')"
    using sys_ok_D(4-6) [OF ok] by blast+
  then have "length (w_live (sys_world s')) = length accepts"
    using distinct_card [of "w_live (sys_world s')"] distinct_card [of "map snd (sys_running s')"] s'(3) by simp
  moreover have "1 \<le> length accepts" using assms(3) by (cases accepts) auto
  ultimately show ?thesis
    using s' running_card [OF ok] sys_ok_D(5) [OF ok]
    by (intro exI [of _ client'] exI [of _ "sys_world s'"]) (auto simp: httpserver_handle_request_def)
qed

theorem accepts_all_witness:
  "\<exists>client' w'. httpserver_handle_request [(5, ([127, 0, 0, 1], 80), 1), (6, ([127, 0, 0, 1], 81), 2), (7, ([127, 0, 0, 1], 82), 3)]
      (sys_world (sys_start started)) = Some (client', w') \<and> length (w_live w') = 3 \<and> hs_capacity (w_server w') \<le> 6"
  using accepts_all [OF started_start, of "[(5, ([127, 0, 0, 1], 80), 1), (6, ([127, 0, 0, 1], 81), 2), (7, ([127, 0, 0, 1], 82), 3)]"]
  by auto

end
