(* ===== verification/Http_Fragments.thy ===== *)
theory Http_Fragments
  imports Http_Server
begin

text \<open>
  TCP is a stream: one \<^verbatim>\<open>recv\<close> may deliver a part of a request or more than one, which
  \<^verbatim>\<open>listen_messages\<close> of \<^verbatim>\<open>server/libs/httpserver.c\<close> does not take into account; it hands the buffer to
  \<^verbatim>\<open>httpparser_parse_request\<close> after each \<^verbatim>\<open>recv\<close>. This theory says what becomes of a request that is cut
  behind its request line, where the buffer holds zeros behind the cut, and of what follows a
  complete request in the same \<^verbatim>\<open>recv\<close>. The buffer is an uninitialised array on the stack of the
  connection's thread; zeros are what a fresh thread stack holds.
\<close>

section \<open>A request that is cut\<close>

text \<open>The first part of a request: the request line, some complete header lines, and a part of the
  next line.\<close>

definition cut_request :: "string \<Rightarrow> string \<Rightarrow> (string \<times> string) list \<Rightarrow> string \<Rightarrow> string" where
  "cut_request m p hs part = request_line m p @ CRLF @ render_headers hs @ part"

lemma cut_request_prefix:
  assumes "prefix part (render_headers hs' @ CRLF)"
  shows "prefix (cut_request m p hs part) (render_request m p (hs @ hs'))"
  using assms by (simp add: cut_request_def render_request_def render_headers_def)

lemma scan_headers:
  assumes "m \<in> set http_methods" and "good_path p" and "list_all good_header hs"
  shows "scan_end (request_line m p @ CRLF @ render_headers hs @ post) (zt (CRLF @ CRLF)) 0 0 0 =
    scan_end (CRLF @ post) (zt (CRLF @ CRLF)) (length (request_line m p) + length (render_headers hs)) 0 0"
proof -
  have L: "line_text (request_line m p)" "request_line m p \<noteq> []" using request_line_text [OF assms(1,2)] by auto
  have lines: "list_all (\<lambda>x. line_text x \<and> x \<noteq> []) (map header_line hs)"
    using assms(3) good_header_line by (auto simp: list_all_iff)
  have H: "render_headers hs = concat (map (\<lambda>x. x @ CRLF) (map header_line hs))"
    by (simp add: render_headers_def comp_def)
  show ?thesis using scan_lines [OF L(1) lines, of 0 post] L(2) unfolding H by simp
qed

text \<open>Cut between two lines, the search for the blank line reports the end of the last line.\<close>

lemma headers_end_between:
  assumes "m \<in> set http_methods" and "good_path p" and "list_all good_header hs"
  shows "tstr_find_between (cut_request m p hs [] @ NUL # rest) None 0 (Some (zt (CRLF @ CRLF))) 0 =
    Some \<lparr>tok_start = 0, tok_end = length (request_line m p) + length (render_headers hs)\<rparr>"
proof -
  let ?k = "length (request_line m p) + length (render_headers hs)"
  have k: "0 < ?k" using request_line_text [OF assms(1,2)] by simp
  have buf: "cut_request m p hs [] @ NUL # rest = request_line m p @ CRLF @ render_headers hs @ NUL # rest"
    by (simp add: cut_request_def)
  have "scan_end (CRLF @ NUL # rest) (zt (CRLF @ CRLF)) ?k 0 0 = Some (False, ?k + 2, 2, ?k)"
    using k by (simp add: zt_def numeral_eq_Suc)
  then have "find_end (cut_request m p hs [] @ NUL # rest) (Some (zt (CRLF @ CRLF))) 0 0 0 = Some (False, ?k + 2, 2, ?k)"
    unfolding buf find_end_scan drop_0 scan_headers [OF assms] .
  moreover have "rd (cut_request m p hs [] @ NUL # rest) (?k + 2) = Some NUL"
    by (simp add: cut_request_def nth_append)
  ultimately show ?thesis using k by (simp add: find_between_missed)
qed

text \<open>Cut inside a line, it runs past the terminator and reports the position behind it.\<close>

lemma headers_end_inside:
  assumes "m \<in> set http_methods" and "good_path p" and "list_all good_header hs" and "line_text x" and "x \<noteq> []"
  shows "tstr_find_between (cut_request m p hs x @ NUL # NUL # rest) None 0 (Some (zt (CRLF @ CRLF))) 0 =
    Some \<lparr>tok_start = 0, tok_end = length (cut_request m p hs x) + 1\<rparr>"
proof -
  let ?k = "length (request_line m p) + length (render_headers hs)"
  let ?buf = "cut_request m p hs x @ NUL # NUL # rest"
  obtain c t where x: "x = c # t" "c \<noteq> CR" "c \<noteq> NUL" "line_text t" using assms(4,5) by (cases x) auto
  have k: "0 < ?k" using request_line_text [OF assms(1,2)] by simp
  have "scan_end (CRLF @ x @ NUL # NUL # rest) (zt (CRLF @ CRLF)) ?k 0 0 =
      scan_end (t @ NUL # NUL # rest) (zt (CRLF @ CRLF)) (?k + 3) 0 0"
    using k x by (simp add: zt_def numeral_eq_Suc)
  also have "\<dots> = Some (False, ?k + 3 + length t, 0, 0)"
    using scan_end_absent [of "CRLF @ CRLF" t "NUL # rest" "?k + 3"] x(4) line_text_CR [OF x(4)] line_text_c_string [OF x(4)]
    by (simp del: scan_end.simps)
  finally have "find_end ?buf (Some (zt (CRLF @ CRLF))) 0 0 0 = Some (False, length (cut_request m p hs x), 0, 0)"
    using x(1) unfolding find_end_scan drop_0 cut_request_def append_assoc scan_headers [OF assms(1-3)] by simp
  from find_between_missed [OF this] show ?thesis by (simp add: nth_append)
qed

lemma parse_cut:
  assumes "blank_request req" and "m \<in> set http_methods" and "length m < 7" and "good_path p"
    and "list_all good_header hs" and "length hs \<le> headers_max_length req"
    and "tstr_find_between (cut_request m p hs x @ rest) None 0 (Some (zt (CRLF @ CRLF))) 0 = Some \<lparr>tok_start = 0, tok_end = he\<rparr>"
    and "length (request_line m p) + length (render_headers hs) \<le> he"
  obtains q where "httpparser_parse_request req (cut_request m p hs x @ rest) len =
      (case parse_headers q (cut_request m p hs x @ rest) he (length (request_line m p) + length (render_headers hs)) (declared_length hs) of
         None \<Rightarrow> None
       | Some (Bad q) \<Rightarrow> Some (- 1, q)
       | Some (Next q cl) \<Rightarrow> parse_body q (cut_request m p hs x @ rest) len he cl)"
    and "request_ok q" "headers_of q = lowered hs" "headers_length q = length hs" "headers_max_length q = headers_max_length req"
    and "req_path q = Some (zt p)" "cstr (req_method q) = m" "req_body q = None"
proof -
  let ?L = "request_line m p" let ?buf = "cut_request m p hs x @ rest"
  have L: "?L \<noteq> []" using request_line_text [OF assms(2,4)] by simp
  have H: "render_headers hs = concat (map (\<lambda>h. header_line h @ CRLF) hs)" by (simp add: render_headers_def)
  have buf: "?buf = ?L @ CRLF @ render_headers hs @ x @ rest" by (simp add: cut_request_def)
  have he: "0 < he" using L assms(8) by (cases he) auto
  obtain q where q: "httpparser_parse_request req ?buf len =
      (case parse_headers q ?buf he (length ?L) 0 of
         None \<Rightarrow> None
       | Some (Bad q) \<Rightarrow> Some (- 1, q)
       | Some (Next q cl) \<Rightarrow> parse_body q ?buf len he cl)"
    and ok: "request_ok q" "headers_of q = []" "headers_length q = 0" "headers_max_length q = headers_max_length req"
      "req_path q = Some (zt p)" "cstr (req_method q) = m" "req_body q = None"
    by (rule parse_upto_lines [OF assms(1-4) buf assms(7) he])
  obtain q' where "parse_headers q ?buf he (length ?L) 0 =
        parse_headers q' ?buf he (length ?L + length (render_headers hs)) (declared_length hs)"
      "request_ok q'" "headers_of q' = lowered hs" "headers_length q' = length hs" "headers_max_length q' = headers_max_length req"
      "req_path q' = Some (zt p)" "cstr (req_method q') = m" "req_body q' = None"
    using parse_headers_prefix [OF assms(5) L ok(1) _ buf [unfolded H], of he 0] assms(6,8) ok
    by (auto simp: H declared_length_def lowered_def)
  then show ?thesis using that q by metis
qed

section \<open>The line that is cut\<close>

lemma cut_request_lines:
  obtains P where "length P = length (request_line m p) + length (render_headers hs)"
    and "\<And>x. cut_request m p hs x = P @ CRLF @ x" and "request_line m p \<noteq> [] \<Longrightarrow> P \<noteq> []"
proof (cases hs rule: rev_cases)
  case Nil
  show ?thesis by (rule that [of "request_line m p"]) (simp_all add: Nil cut_request_def render_headers_def)
next
  case (snoc hs' h)
  show ?thesis
    by (rule that [of "request_line m p @ CRLF @ render_headers hs' @ header_line h"])
      (simp_all add: snoc cut_request_def render_headers_def)
qed

text \<open>Cut inside its value, a line is read with the value it has so far, and the terminator.\<close>

lemma parse_cut_value:
  assumes "line_text k" and "line_text v" and "CHR '':'' \<notin> set k" and "length k < 64" and "length v < 1023"
    and "lower k \<noteq> ''content-length''" and "P \<noteq> []" and "request_ok req" and "headers_length req < headers_max_length req"
  obtains q where "parse_header req (P @ CRLF @ header_line (k, v) @ NUL # NUL # rest) (length P) cl =
      Some (Next q (cl, length (P @ CRLF @ header_line (k, v)) + 1))"
    and "request_ok q" "headers_of q = headers_of req @ [(lower k, v)]" "req_path q = req_path req" "req_body q = req_body req"
proof -
  let ?n = "headers_length req" and ?s = "P @ CRLF @ header_line (k, v)"
  let ?buf = "P @ CRLF @ header_line (k, v) @ NUL # NUL # rest" and ?h = "req_headers req ! headers_length req"
  have n: "?n < length (req_headers req)" and h: "header_shape ?h"
    using assms(8,9) by (auto simp: request_ok_def req_shape_def list_all_length)
  have f1: "tstr_find_between ?buf None (length P + 2) (Some (zt CRLF)) 0 =
      Some \<lparr>tok_start = length P + 2, tok_end = length ?s + 1\<rparr>"
    using find_between_absent_from [of CRLF "length P + 2" ?s 0 "NUL # rest"] assms(1,2)
      line_text_CR [OF assms(1)] line_text_CR [OF assms(2)] line_text_c_string [OF assms(1)] line_text_c_string [OF assms(2)]
    by (simp add: header_line_def)
  have f2: "tstr_find_between ?buf None (length P + 2) (Some (zt '': '')) l =
      Some \<lparr>tok_start = length P + 2, tok_end = length (P @ CRLF @ k)\<rparr>" for l
    using find_between_first [of "'': ''" "length P + 2" "P @ CRLF @ k" "v @ NUL # NUL # rest" l] assms(1,3)
    by (simp add: header_line_def line_text_c_string)
  let ?k = "k @ NUL # drop (Suc (length k)) (hkey ?h)" and ?v = "(v @ [NUL]) @ NUL # drop (Suc (length (v @ [NUL]))) (hvalue ?h)"
  have ck: "copy_terminated (hkey ?h) ?buf (length P + 2) (int (length k)) = Some ?k"
    using copy_terminated_fits [of k "hkey ?h" "P @ CRLF" "'': '' @ v @ NUL # NUL # rest"] assms(4) h
    by (simp add: header_shape_def header_line_def)
  have cv: "copy_terminated (hvalue ?h) ?buf (length P + 2 + length k + 2) (int (length v) + 1) = Some ?v"
    using copy_terminated_fits [of "v @ [NUL]" "hvalue ?h" "P @ CRLF @ k @ '': ''" "NUL # rest"] assms(5) h
    by (simp add: header_shape_def header_line_def ac_simps)
  obtain x where x: "c_strcmp (lower k @ NUL # drop (Suc (length k)) (hkey ?h)) (zt ''content-length'') = Some x" "x \<noteq> 0"
    using c_strcmp_defined [of "lower k" "''content-length''" "drop (Suc (length k)) (hkey ?h)" "[]"]
      c_strcmp_eq_0 [of "lower k" "''content-length''" "drop (Suc (length k)) (hkey ?h)" "[]"] assms(1,6)
    by (auto simp: zt_def line_text_c_string)
  let ?hd = "\<lparr>hkey = lower k @ NUL # drop (Suc (length k)) (hkey ?h), hvalue = ?v\<rparr>"
  let ?q = "req\<lparr>req_headers := (req_headers req)[?n := ?hd], headers_length := ?n + 1\<rparr>"
  have p: "parse_header req ?buf (length P) cl = Some (Next ?q (cl, length ?s + 1))"
    using n f1 f2 ck cv x assms(1,9)
    by (simp add: parse_header_def Let_def to_lower_case_zt line_text_c_string header_line_def ac_simps)
  have "headers_of ?q = headers_of req @ [(lower k, v)]"
    using n assms(1,2) by (simp add: headers_of_def take_Suc_conv_app_nth header_text_def cstr_append_NUL line_text_c_string)
  then show ?thesis using parse_header_ok [OF p assms(8)] by (intro that [OF p]) simp_all
qed

text \<open>Cut inside its name, a line has no separator, and the length of its value is \<open>- 2\<close>.\<close>

lemma parse_cut_name:
  assumes "line_text x" and "CHR '':'' \<notin> set x" and "P \<noteq> []" and "headers_length req < headers_max_length req"
  shows "parse_header req (P @ CRLF @ x @ NUL # NUL # rest) (length P) cl = None"
proof -
  let ?s = "P @ CRLF @ x" let ?buf = "P @ CRLF @ x @ NUL # NUL # rest"
  have f1: "tstr_find_between ?buf None (length P + 2) (Some (zt CRLF)) 0 =
      Some \<lparr>tok_start = length P + 2, tok_end = length ?s + 1\<rparr>"
    using find_between_absent_from [of CRLF "length P + 2" ?s 0 "NUL # rest"]
      line_text_CR [OF assms(1)] line_text_c_string [OF assms(1)] by simp
  have f2: "tstr_find_between ?buf None (length P + 2) (Some (zt '': '')) (length ?s + 1) =
      Some \<lparr>tok_start = length P + 2, tok_end = length ?s + 1\<rparr>"
    using find_between_absent_from [of "'': ''" "length P + 2" ?s "length ?s + 1" "NUL # rest"]
      assms(2) line_text_c_string [OF assms(1)] by simp
  have "copy_terminated d b n (- 2) = None" for d b n by (simp add: copy_terminated_def c_memcpy_def)
  then show ?thesis using f1 f2 assms(4) by (simp add: parse_header_def Let_def bind_eq_None_conv)
qed

section \<open>Cut in three places\<close>

lemma parse_headers_end: "parse_headers q buf he he cl = Some (Next q cl)"
  by (subst parse_headers.simps) simp

lemma parse_cut_between:
  assumes "blank_request req" and "m \<in> set http_methods" and "length m < 7" and "good_path p"
    and "list_all good_header hs" and "length hs \<le> headers_max_length req"
    and "declared_length hs = 0" and "map_of (lowered hs) ''transfer-encoding'' = None"
  shows "\<exists>q. httpparser_parse_request req (cut_request m p hs [] @ NUL # rest) len = Some (0, q) \<and>
    req_path q = Some (zt p) \<and> headers_of q = lowered hs"
  by (rule parse_cut [OF assms(1-6) headers_end_between [OF assms(2,4,5)], where len = len])
    (use assms(7,8) parse_body_none in \<open>auto simp: parse_headers_end\<close>)

lemma parse_cut_in_value:
  assumes "blank_request req" and "m \<in> set http_methods" and "length m < 7" and "good_path p"
    and "list_all good_header hs" and "length hs < headers_max_length req"
    and "declared_length hs = 0" and "map_of (lowered hs) ''transfer-encoding'' = None"
    and "good_header (k, v)" and "length v < 1023" and "lower k \<notin> {''content-length'', ''transfer-encoding''}"
  shows "\<exists>q. httpparser_parse_request req (cut_request m p hs (header_line (k, v)) @ NUL # NUL # rest) len = Some (0, q) \<and>
    req_path q = Some (zt p) \<and> headers_of q = lowered hs @ [(lower k, v)]"
proof -
  let ?k = "length (request_line m p) + length (render_headers hs)" and ?x = "header_line (k, v)"
  let ?buf = "cut_request m p hs ?x @ NUL # NUL # rest" and ?he = "length (cut_request m p hs ?x) + 1"
  have kv: "line_text k" "line_text v" "CHR '':'' \<notin> set k" "length k < 64" using assms(9) by (auto simp: good_header_def)
  have x: "line_text ?x" "?x \<noteq> []" using good_header_line [OF assms(9)] by auto
  have room: "length hs \<le> headers_max_length req" using assms(6) by simp
  obtain P where P: "length P = ?k" "\<And>x. cut_request m p hs x = P @ CRLF @ x" "P \<noteq> []"
    by (rule cut_request_lines [of m p hs]) (use request_line_text [OF assms(2,4)] in auto)
  show ?thesis
  proof (rule parse_cut [OF assms(1-5) room headers_end_inside [OF assms(2,4,5) x], where len = len])
    fix q
    assume q: "request_ok q" "headers_of q = lowered hs" "headers_length q = length hs"
      "headers_max_length q = headers_max_length req" "req_path q = Some (zt p)"
      "httpparser_parse_request req ?buf len =
        (case parse_headers q ?buf ?he ?k (declared_length hs) of
           None \<Rightarrow> None | Some (Bad q) \<Rightarrow> Some (- 1, q) | Some (Next q cl) \<Rightarrow> parse_body q ?buf len ?he cl)"
    obtain q' where q': "parse_header q (P @ CRLF @ ?x @ NUL # NUL # rest) (length P) (declared_length hs) =
          Some (Next q' (declared_length hs, length (P @ CRLF @ ?x) + 1))"
        "request_ok q'" "headers_of q' = lowered hs @ [(lower k, v)]" "req_path q' = Some (zt p)"
      using parse_cut_value [OF kv assms(10) _ P(3) q(1), of rest "declared_length hs"] q(2-5) assms(6,11) by auto
    have "parse_headers q ?buf ?he ?k (declared_length hs) = Some (Next q' (declared_length hs))"
      using q'(1) P(1) parse_headers_end by (subst parse_headers.simps) (simp add: P(2))
    moreover have "parse_body q' ?buf len ?he (declared_length hs) = Some (0, q')"
      by (rule parse_body_none [OF q'(2)]) (use q'(3) assms(7,8,11) in \<open>auto simp: map_add_def split: option.split\<close>)
    ultimately show ?thesis using q(6) q'(3,4) by simp
  qed (simp add: cut_request_def)
qed

lemma parse_cut_in_name:
  assumes "blank_request req" and "m \<in> set http_methods" and "length m < 7" and "good_path p"
    and "list_all good_header hs" and "length hs < headers_max_length req"
    and "line_text n" and "CHR '':'' \<notin> set n" and "n \<noteq> []"
  shows "httpparser_parse_request req (cut_request m p hs n @ NUL # NUL # rest) len = None"
proof -
  let ?k = "length (request_line m p) + length (render_headers hs)"
  let ?buf = "cut_request m p hs n @ NUL # NUL # rest" and ?he = "length (cut_request m p hs n) + 1"
  have room: "length hs \<le> headers_max_length req" using assms(6) by simp
  obtain P where P: "length P = ?k" "\<And>x. cut_request m p hs x = P @ CRLF @ x" "P \<noteq> []"
    by (rule cut_request_lines [of m p hs]) (use request_line_text [OF assms(2,4)] in auto)
  show ?thesis
  proof (rule parse_cut [OF assms(1-5) room headers_end_inside [OF assms(2,4,5,7,9)], where len = len])
    fix q
    assume q: "headers_length q = length hs" "headers_max_length q = headers_max_length req"
      "httpparser_parse_request req ?buf len =
        (case parse_headers q ?buf ?he ?k (declared_length hs) of
           None \<Rightarrow> None | Some (Bad q) \<Rightarrow> Some (- 1, q) | Some (Next q cl) \<Rightarrow> parse_body q ?buf len ?he cl)"
    have "parse_headers q ?buf ?he ?k (declared_length hs) = None"
      using parse_cut_name [OF assms(7,8) P(3), of q rest "declared_length hs"] q(1,2) assms(6)
      by (subst parse_headers.simps) (simp add: P)
    then show ?thesis using q(3) by simp
  qed (simp add: cut_request_def)
qed

section \<open>Properties\<close>

text \<open>A request that is cut behind its request line, in a buffer that holds zeros behind it. Cut between two
  lines, it is accepted as a complete request with the headers so far. Cut inside the value of
  a header, it is accepted with the value so far. Cut inside the name of a header, it ends in
  a copy of \<open>- 2\<close> bytes.\<close>
theorem parse_cut_request:
  assumes "blank_request req" and "m \<in> set http_methods" and "length m < 7" and "good_path p"
    and "list_all good_header hs" and "length hs < headers_max_length req"
    and "declared_length hs = 0" and "map_of (lowered hs) ''transfer-encoding'' = None"
    and "good_header (k, v)" and "length v < 1023" and "lower k \<notin> {''content-length'', ''transfer-encoding''}"
    and "prefix n k" and "n \<noteq> []"
  shows "(\<exists>q. httpparser_parse_request req (cut_request m p hs [] @ NUL # rest) len = Some (0, q) \<and>
           req_path q = Some (zt p) \<and> headers_of q = lowered hs) \<and>
         (\<exists>q. httpparser_parse_request req (cut_request m p hs (header_line (k, v)) @ NUL # NUL # rest) len = Some (0, q) \<and>
           req_path q = Some (zt p) \<and> headers_of q = lowered hs @ [(lower k, v)]) \<and>
         httpparser_parse_request req (cut_request m p hs n @ NUL # NUL # rest) len = None"
proof (intro conjI)
  show "\<exists>q. httpparser_parse_request req (cut_request m p hs [] @ NUL # rest) len = Some (0, q) \<and>
      req_path q = Some (zt p) \<and> headers_of q = lowered hs"
    by (rule parse_cut_between [OF assms(1-5) _ assms(7,8)]) (use assms(6) in simp)
  show "httpparser_parse_request req (cut_request m p hs n @ NUL # NUL # rest) len = None"
    by (rule parse_cut_in_name [OF assms(1-6) _ _ assms(13)]) (use assms(9,12) in \<open>auto simp: good_header_def prefix_def\<close>)
qed (rule parse_cut_in_value [OF assms(1-11)])

lemma parse_plain_message:
  assumes "blank_request (httpparser_init_request junk (take 30 (req_headers junk)) 30)"
    and "m \<in> set http_methods" and "length m < 7" and "good_path p" and "list_all good_header hs" and "length hs \<le> 30"
    and "declared_length hs = 0" and "map_of (lowered hs) ''transfer-encoding'' = None"
  obtains q where "httpparser_parse_request (httpparser_init_request junk (take 30 (req_headers junk)) 30)
      (recv_into payload (render_request m p hs @ extra)) len = Some (0, q)"
    and "req_path q = Some (zt p)" "headers_of q = lowered hs" "fst (httpparser_free_request q) = [zt p]"
proof -
  let ?rest = "extra @ drop (length (render_request m p hs @ extra)) payload"
  have max: "headers_max_length (httpparser_init_request junk (take 30 (req_headers junk)) 30) = 30"
    by (simp add: httpparser_init_request_def)
  have buf: "recv_into payload (render_request m p hs @ extra) = render_request m p hs @ ?rest" by (simp add: recv_into_def)
  show ?thesis
    using parse_upto_body [OF assms(1-5), of ?rest len] assms(6-8) max parse_body_none [where cl = 0] that
    unfolding buf by (fastforce simp: httpparser_free_request_def)
qed

lemma listen_plain_message:
  assumes "blank_request (httpparser_init_request junk (take 30 (req_headers junk)) 30)"
    and "m \<in> set http_methods" and "length m < 7" and "good_path p" and "list_all good_header hs" and "length hs \<le> 30"
    and "declared_length hs = 0" and "map_of (lowered hs) ''transfer-encoding'' = None"
  obtains q where "listen_messages junk callback payload [render_request m p hs @ extra] s =
       map_option (\<lambda>(s1, evs). (s1, Ev_request q # evs @ [Ev_freed (zt p), Ev_disconnect])) (callback s q)"
    and "req_path q = Some (zt p)" "headers_of q = lowered hs"
proof -
  obtain q where q: "httpparser_parse_request (httpparser_init_request junk (take 30 (req_headers junk)) 30)
      (recv_into payload (render_request m p hs @ extra)) (int (length (render_request m p hs @ extra))) = Some (0, q)"
      "req_path q = Some (zt p)" "headers_of q = lowered hs" "fst (httpparser_free_request q) = [zt p]"
    by (rule parse_plain_message [OF assms])
  have n: "render_request m p hs @ extra \<noteq> []" by (simp add: render_request_def)
  have "listen_messages junk callback payload [render_request m p hs @ extra] s =
      map_option (\<lambda>(s1, evs). (s1, Ev_request q # evs @ [Ev_freed (zt p), Ev_disconnect])) (callback s q)"
    unfolding listen_parsed [OF q(1) n] by (cases "callback s q") (auto simp: q(4))
  then show ?thesis by (rule that) (simp_all add: q(2,3))
qed

text \<open>C28: A request is cut inside the name of a header, and where its first \<^verbatim>\<open>recv\<close> puts this part into the
  receive buffer, the two bytes behind it are zero. Then the server does not survive it,
  whatever arrives later: the parser finds no separator and copies \<open>- 2\<close> bytes, which are
  \<open>2 ^ 64 - 2\<close>. The same bytes in one piece are a request that the server handles.\<close>
theorem split_request_crashes:
  assumes "blank_request (httpparser_init_request junk (take 30 (req_headers junk)) 30)"
    and "m \<in> set http_methods" and "length m < 7" and "good_path p" and "list_all good_header (hs @ (k, v) # hs')"
    and "length hs + length hs' < 30" and "prefix n k" and "n \<noteq> []"
    and "declared_length (hs @ (k, v) # hs') = 0" and "map_of (lowered (hs @ (k, v) # hs')) ''transfer-encoding'' = None"
    and "drop (length (cut_request m p hs n)) payload = NUL # NUL # rest"
  shows "\<exists>later q. render_request m p (hs @ (k, v) # hs') = cut_request m p hs n @ later \<and>
     listen_messages junk callback payload (cut_request m p hs n # recvs) s = None \<and>
     listen_messages junk (\<lambda>log q. Some (log @ [q], [])) payload [cut_request m p hs n @ later] [] =
       Some ([q], [Ev_request q, Ev_freed (zt p), Ev_disconnect]) \<and>
     headers_of q = lowered (hs @ (k, v) # hs')"
proof -
  let ?rq = "httpparser_init_request junk (take 30 (req_headers junk)) 30" and ?c = "cut_request m p hs n"
  let ?R = "render_request m p (hs @ (k, v) # hs')"
  have max: "headers_max_length ?rq = 30" by (simp add: httpparser_init_request_def)
  have "prefix n (render_headers ((k, v) # hs') @ CRLF)"
    using assms(7) by (auto simp: render_headers_def header_line_def prefix_def)
  from cut_request_prefix [OF this, of m p hs] obtain later where R: "?R = ?c @ later" by (elim prefixE)
  have "httpparser_parse_request ?rq (?c @ NUL # NUL # rest) (int (length ?c)) = None"
    by (rule parse_cut_in_name [OF assms(1-4) _ _ _ _ assms(8)])
      (use assms(5-7) in \<open>auto simp: max good_header_def prefix_def\<close>)
  then have 1: "listen_messages junk callback payload (?c # recvs) s = None"
    by (intro listen_traps) (simp_all add: recv_into_def assms(11), simp add: cut_request_def)
  have short: "length (hs @ (k, v) # hs') \<le> 30" using assms(6) by simp
  obtain q where q: "listen_messages junk (\<lambda>log q. Some (log @ [q], [])) payload [?R @ []] [] =
        map_option (\<lambda>(s1, evs). (s1, Ev_request q # evs @ [Ev_freed (zt p), Ev_disconnect])) (Some ([] @ [q], []))"
      "headers_of q = lowered (hs @ (k, v) # hs')"
    by (rule listen_plain_message [OF assms(1-5) short assms(9,10)])
  have 2: "listen_messages junk (\<lambda>log q. Some (log @ [q], [])) payload [?R] [] =
      Some ([q], [Ev_request q, Ev_freed (zt p), Ev_disconnect])"
    using q(1) by simp
  show ?thesis using R 1 2 q(2) by (intro exI [of _ later] exI [of _ q]) (simp only: simp_thms)
qed

text \<open>Of several requests that one \<^verbatim>\<open>recv\<close> delivers only the first is handled; what follows a request
  without a body in the buffer is never looked at.\<close>
theorem pipelined_requests_lost:
  assumes "blank_request (httpparser_init_request junk (take 30 (req_headers junk)) 30)"
    and "m \<in> set http_methods" and "length m < 7" and "good_path p" and "list_all good_header hs" and "length hs \<le> 30"
    and "declared_length hs = 0" and "map_of (lowered hs) ''transfer-encoding'' = None"
  shows "\<exists>q. req_path q = Some (zt p) \<and> headers_of q = lowered hs \<and>
     listen_messages junk callback payload [render_request m p hs @ extra] s =
       map_option (\<lambda>(s1, evs). (s1, Ev_request q # evs @ [Ev_freed (zt p), Ev_disconnect])) (callback s q)"
proof -
  obtain q where "listen_messages junk callback payload [render_request m p hs @ extra] s =
        map_option (\<lambda>(s1, evs). (s1, Ev_request q # evs @ [Ev_freed (zt p), Ev_disconnect])) (callback s q)"
      "req_path q = Some (zt p)" "headers_of q = lowered hs"
    by (rule listen_plain_message [OF assms])
  then show ?thesis by blast
qed

section \<open>A body that is cut\<close>

text \<open>The size of the receive buffer, with and without \<^verbatim>\<open>TCPLIMITS_EXPERIMENTAL_SAVE_MEMORY\<close>; one \<^verbatim>\<open>recv\<close>
  delivers no more.\<close>

definition TCPLIMITS_PACKET_SIZE :: "bool \<Rightarrow> nat" where
  "TCPLIMITS_PACKET_SIZE save_memory = (if save_memory then 1500 else 65536)"

definition requests_in :: "event list \<Rightarrow> httpparser_request list" where
  "requests_in evs = concat (map (\<lambda>e. case e of Ev_request q \<Rightarrow> [q] | _ \<Rightarrow> []) evs)"

lemma parse_body_mismatch:
  assumes "request_ok q" and "map_of (headers_of q) ''transfer-encoding'' = None" and "0 < cl" and "len - int he - 4 \<noteq> cl"
  shows "parse_body q buf len he cl = Some (- 1, q)"
proof -
  have te: "httpparser_get_header q (zt ''transfer-encoding'') = Some None"
    using get_header_map_of [OF assms(1), of "''transfer-encoding''"] assms(2) by auto
  obtain ct where "httpparser_get_header q (zt ''content-type'') = Some ct"
    using get_header_map_of [OF assms(1), of "''content-type''"] by auto
  then show ?thesis using te assms(3,4) by (simp add: parse_body_def)
qed

lemma cut_body:
  assumes "blank_request (httpparser_init_request junk (take 30 (req_headers junk)) 30)"
    and "m \<in> set http_methods" and "length m < 7" and "good_path p" and "list_all good_header hs" and "length hs \<le> 30"
    and "declared_length hs = int (length body)" and "map_of (lowered hs) ''transfer-encoding'' = None"
    and "length part < length body"
  shows "listen_messages junk callback payload ((render_request m p hs @ part) # recvs) s =
    Some (s, [Ev_freed (zt p),
      Ev_response (map Some (''HTTP/1.1 400 Bad request'' @ CRLF @ ''Content-Length: 0'' @ CRLF @ CRLF)), Ev_disconnect])"
proof -
  let ?rq = "httpparser_init_request junk (take 30 (req_headers junk)) 30" and ?R = "render_request m p hs"
  let ?rest = "part @ drop (length (?R @ part)) payload" and ?len = "int (length (?R @ part))"
  have max: "headers_max_length ?rq = 30" by (simp add: httpparser_init_request_def)
  have buf: "recv_into payload (?R @ part) = ?R @ ?rest" by (simp add: recv_into_def)
  have four: "4 \<le> length ?R" by (simp add: render_request_def)
  obtain q where q: "httpparser_parse_request ?rq (?R @ ?rest) ?len = parse_body q (?R @ ?rest) ?len (length ?R - 4) (declared_length hs)"
      "request_ok q" "headers_of q = lowered hs" "req_path q = Some (zt p)" "req_body q = None"
    using parse_upto_body [OF assms(1-5), of ?rest ?len] assms(6) max by auto
  have "?len - int (length ?R - 4) - 4 \<noteq> declared_length hs" using four assms(7,9) by simp
  then have "httpparser_parse_request ?rq (recv_into payload (?R @ part)) ?len = Some (- 1, q)"
    unfolding buf q(1) by (intro parse_body_mismatch [OF q(2)]) (use q(3) assms(7-9) in auto)
  moreover have "render_request m p hs @ part \<noteq> []" by (simp add: render_request_def)
  ultimately have "listen_messages junk callback payload ((?R @ part) # recvs) s = Some (s, map Ev_freed (fst (httpparser_free_request q)) @
      [Ev_response (map Some (''HTTP/1.1 400 Bad request'' @ CRLF @ ''Content-Length: 0'' @ CRLF @ CRLF)), Ev_disconnect])"
    by (intro bad_request_ends [where r = "- 1"]) simp_all
  then show ?thesis using q(4,5) by (simp only: httpparser_free_request_def) simp
qed


text \<open>So a request whose head fits the receive buffer and whose body does not, fails whenever the first
  \<^verbatim>\<open>recv\<close> delivers at least its head, in either configuration.\<close>
theorem large_body_rejected:
  assumes "blank_request (httpparser_init_request junk (take 30 (req_headers junk)) 30)"
    and "m \<in> set http_methods" and "length m < 7" and "good_path p" and "list_all good_header hs" and "length hs \<le> 30"
    and "declared_length hs = int (length body)" and "map_of (lowered hs) ''transfer-encoding'' = None"
    and "TCPLIMITS_PACKET_SIZE save_memory < length (render_request m p hs @ body)"
    and "length msg \<le> TCPLIMITS_PACKET_SIZE save_memory"
    and "prefix msg (render_request m p hs @ body)" and "prefix (render_request m p hs) msg"
  shows "\<exists>evs. listen_messages junk callback payload (msg # recvs) s = Some (s, evs) \<and> requests_in evs = []"
proof -
  obtain part where part: "msg = render_request m p hs @ part" using assms(12) by (auto simp: prefix_def)
  have "length part < length body" using assms(9,10) unfolding part by simp
  then show ?thesis unfolding part by (intro exI, intro conjI, rule cut_body [OF assms(1-8)]) (simp_all add: requests_in_def)
qed

section \<open>Concrete instances\<close>

lemma demo_header:
  "good_header (''Accept'', ''*'')" "lower ''Accept'' = ''accept''" "lowered [(''Accept'', ''*'')] = [(''accept'', ''*'')]"
  "declared_length [(''Accept'', ''*'')] = 0" "good_path ''/a''" "''GET'' \<in> set http_methods"
  "length (cut_request ''GET'' ''/a'' [] ''Acc'') = 20"
  by code_simp+

theorem parse_cut_request_witness:
  "\<exists>q. httpparser_parse_request request_30 (''GET /a HTTP/1.1'' @ CRLF @ ''Accept: *'' @ [NUL, NUL]) 26 = Some (0, q) \<and>
     headers_of q = [(lower ''Accept'', ''*'')]"
proof -
  have "cut_request ''GET'' ''/a'' [] (header_line (''Accept'', ''*'')) = ''GET /a HTTP/1.1'' @ CRLF @ ''Accept: *''" by code_simp
  then show ?thesis
    using parse_cut_request [OF request_30_blank, of "''GET''" "''/a''" "[]" "''Accept''" "''*''" "''A''" "[]" 26]
    by (auto simp: request_30_max demo_header declared_length_def lowered_def)
qed

theorem split_request_crashes_witness:
  "\<forall>recvs. \<exists>later. render_request ''GET'' ''/a'' [(''Accept'', ''*'')] = cut_request ''GET'' ''/a'' [] ''Acc'' @ later \<and>
     listen_messages request_30 (\<lambda>n q. Some (n + 1, [])) (replicate 100 NUL) (cut_request ''GET'' ''/a'' [] ''Acc'' # recvs) (0 :: nat) = None"
proof -
  have d: "drop (length (cut_request ''GET'' ''/a'' [] ''Acc'')) (replicate 100 NUL) = NUL # NUL # replicate 78 NUL"
    unfolding demo_header(7) by code_simp
  have b: "blank_request (httpparser_init_request request_30 (take 30 (req_headers request_30)) 30)"
    by (simp add: init_request_30 request_30_blank)
  have h: "list_all good_header ([] @ (''Accept'', ''*'') # [])" "prefix ''Acc'' ''Accept''" "length ''GET'' < 7"
    "declared_length ([] @ (''Accept'', ''*'') # []) = 0" "map_of (lowered ([] @ (''Accept'', ''*'') # [])) ''transfer-encoding'' = None"
    by (simp_all add: demo_header)
  show ?thesis
    using split_request_crashes [OF b demo_header(6) h(3) demo_header(5) h(1) _ h(2) _ h(4,5) d, where callback = "\<lambda>n q. Some (n + 1, [])" and s = "0 :: nat"]
    by (intro allI) auto
qed

theorem pipelined_requests_lost_witness:
  "\<exists>q. listen_messages request_30 (\<lambda>n q. Some (n + 1, [])) (replicate 100 NUL)
      [render_request ''GET'' ''/a'' [] @ render_request ''GET'' ''/a'' []] (0 :: nat) =
     Some (1, [Ev_request q, Ev_freed (zt ''/a''), Ev_disconnect])"
  using pipelined_requests_lost [of request_30 "''GET''" "''/a''" "[]" "\<lambda>n q. Some (n + 1, [])" "replicate 100 NUL"
      "render_request ''GET'' ''/a'' []" "0 :: nat"]
  by (auto simp: init_request_30 request_30_blank demo_header declared_length_def lowered_def)


end
