(* ===== verification/Cthreads.thy ===== *)
theory Cthreads
  imports Prelude
begin

text \<open>
  \<^verbatim>\<open>server/libs/cthreads.c\<close> and \<^verbatim>\<open>cthreads.h\<close>: one interface over pthread
  and the Windows threads. Both branches are modelled; the Windows one carries the prefix
  \<open>win_\<close>. The operating system is an argument \<open>ret\<close> that gives the result of each call,
  and every wrapper returns the calls it made, in order. The macros of the header that depend
  on the platform are a record of flags. Debug output is not modelled. What the properties
  say of the effect of a call (\<open>apply_attr\<close>, \<open>shared_held\<close>) is its documented
  behaviour.
\<close>

section \<open>Configuration\<close>

text \<open>The macros of \<^verbatim>\<open>cthreads.h\<close> behind \<^verbatim>\<open>#ifndef _WIN32\<close>, from the value of
  \<^verbatim>\<open>_POSIX_C_SOURCE\<close> (0 when it is not defined) and the target.\<close>

record cthreads_features =
  thread_inheritsched :: bool
  thread_stack :: bool
  mutex_type :: bool
  mutex_robust :: bool
  mutex_protocol :: bool
  mutex_prioceiling :: bool
  cond_clock :: bool
  has_rwlock :: bool

definition cthreads_features_of :: "nat \<Rightarrow> bool \<Rightarrow> bool \<Rightarrow> cthreads_features" where
  "cthreads_features_of posix_c_source android linux_or_freebsd = \<lparr>
     thread_inheritsched = (\<not> android),
     thread_stack = (200112 \<le> posix_c_source),
     mutex_type = (200809 \<le> posix_c_source),
     mutex_robust = (200112 \<le> posix_c_source \<and> linux_or_freebsd \<and> \<not> android),
     mutex_protocol = (\<not> android),
     mutex_prioceiling = (\<not> android),
     cond_clock = (200112 \<le> posix_c_source),
     has_rwlock = (200112 \<le> posix_c_source)\<rparr>"

section \<open>Data\<close>

text \<open>A thread is its handle (\<^verbatim>\<open>pThread\<close> or \<^verbatim>\<open>wThread\<close>); 0 is the null handle.\<close>

record cthreads_thread =
  t_handle :: nat

record ('d, 'r) cthreads_args =
  args_func :: "'d \<Rightarrow> 'r"
  args_data :: 'd

record cthreads_thread_attr =
  stacksize :: nat
  stackaddr :: nat
  detachstate :: int
  guardsize :: nat
  inheritsched :: int
  schedpolicy :: int
  scope :: int
  stack :: nat

record win_thread_attr =
  w_stacksize :: nat
  dwCreationFlags :: int

record cthreads_mutex_attr =
  m_pshared :: int
  m_type :: int
  m_robust :: int
  m_protocol :: int
  m_prioceiling :: int

record cthreads_cond_attr =
  c_pshared :: int
  c_clock :: int

text \<open>The calls of pthread. The flag of \<^verbatim>\<open>pthread_create\<close> and of the two
  \<^verbatim>\<open>init\<close> calls tells whether an attribute object is passed, that of
  \<^verbatim>\<open>pthread_join\<close> whether a place for the value is.\<close>

datatype pt_call =
    Attr_init | Attr_setdetachstate int | Attr_setguardsize nat | Attr_setinheritsched int
  | Attr_setschedpolicy int | Attr_setscope int | Attr_setstack nat nat | Attr_setstacksize nat
  | Thread_create bool | Thread_detach nat | Thread_join nat bool | Thread_cancel nat | Thread_equal nat nat
  | Mutexattr_init | Mutexattr_setpshared int | Mutexattr_settype int | Mutexattr_setrobust int
  | Mutexattr_setprotocol int | Mutexattr_setprioceiling int
  | Mutex_init bool | Mutex_lock | Mutex_trylock | Mutex_unlock | Mutex_destroy
  | Condattr_init | Condattr_setpshared int | Condattr_setclock int
  | Cond_init bool | Cond_signal | Cond_broadcast | Cond_destroy | Cond_wait
  | Rwlock_init | Rwlock_rdlock | Rwlock_wrlock | Rwlock_unlock | Rwlock_destroy

datatype win_call =
    CreateThread nat int | CloseHandle nat | WaitForSingleObject nat | GetExitCodeThread nat
  | TerminateThread nat int | ExitThread "32 word"
  | InitializeCriticalSection | EnterCriticalSection | TryEnterCriticalSection | LeaveCriticalSection
  | DeleteCriticalSection
  | InitializeConditionVariable | WakeConditionVariable | WakeAllConditionVariable | SleepConditionVariableCS
  | InitializeSRWLock | AcquireSRWLockShared | AcquireSRWLockExclusive | ReleaseSRWLockShared
  | ReleaseSRWLockExclusive

text \<open>A wrapper that is one call.\<close>

definition one_call :: "('c \<Rightarrow> int) \<Rightarrow> 'c \<Rightarrow> int \<times> 'c list" where
  "one_call ret c = (ret c, [c])"

text \<open>\<open>set_if c x\<close>: the call \<open>x\<close> under \<^verbatim>\<open>if (attr->field)\<close> and its macro.\<close>

definition set_if :: "bool \<Rightarrow> 'c \<Rightarrow> 'c list" where
  "set_if c x = (if c then [x] else [])"

section \<open>Threads on pthread\<close>

definition thread_attr_calls :: "cthreads_features \<Rightarrow> cthreads_thread_attr \<Rightarrow> pt_call list" where
  "thread_attr_calls ft a =
     set_if (detachstate a \<noteq> 0) (Attr_setdetachstate (detachstate a)) @
     set_if (guardsize a \<noteq> 0) (Attr_setguardsize (guardsize a)) @
     set_if (thread_inheritsched ft \<and> inheritsched a \<noteq> 0) (Attr_setinheritsched (inheritsched a)) @
     set_if (schedpolicy a \<noteq> 0) (Attr_setschedpolicy (schedpolicy a)) @
     set_if (scope a \<noteq> 0) (Attr_setscope (scope a)) @
     set_if (thread_stack ft \<and> stack a \<noteq> 0) (Attr_setstack (stackaddr a) (stack a)) @
     set_if (stacksize a \<noteq> 0) (Attr_setstacksize (stacksize a))"

text \<open>\<open>new\<close> is the handle that \<^verbatim>\<open>pthread_create\<close> stores.\<close>

definition cthreads_thread_create ::
  "cthreads_features \<Rightarrow> (pt_call \<Rightarrow> int) \<Rightarrow> nat \<Rightarrow> cthreads_thread \<Rightarrow> cthreads_thread_attr option \<Rightarrow>
   int \<times> cthreads_thread \<times> pt_call list"
where
  "cthreads_thread_create ft ret new thread attr = (case attr of
     None \<Rightarrow> (ret (Thread_create False), thread\<lparr>t_handle := new\<rparr>, [Thread_create False])
   | Some a \<Rightarrow>
       if ret Attr_init \<noteq> 0 then (1, thread, [Attr_init])
       else (ret (Thread_create True), thread\<lparr>t_handle := new\<rparr>,
             [Attr_init] @ thread_attr_calls ft a @ [Thread_create True]))"

definition cthreads_thread_detach :: "(pt_call \<Rightarrow> int) \<Rightarrow> cthreads_thread \<Rightarrow> int \<times> pt_call list" where
  "cthreads_thread_detach ret thread = one_call ret (Thread_detach (t_handle thread))"

text \<open>\<^verbatim>\<open>code\<close> is the pointer passed by the caller, and \<open>mem\<close> the caller's memory. The
  exit value of the thread is stored at \<^verbatim>\<open>&code\<close>, the address of the parameter itself.
  The result is the return value, the final value of the parameter, and the memory.\<close>

definition cthreads_thread_join ::
  "(pt_call \<Rightarrow> int) \<Rightarrow> nat \<Rightarrow> cthreads_thread \<Rightarrow> nat option \<Rightarrow> (nat \<Rightarrow> nat) \<Rightarrow>
   int \<times> nat option \<times> (nat \<Rightarrow> nat) \<times> pt_call list"
where
  "cthreads_thread_join ret exit_value thread code mem = (
     let c = Thread_join (t_handle thread) (code \<noteq> None); r = ret c in
     (r, if code \<noteq> None \<and> r = 0 then Some exit_value else code, mem, [c]))"

definition cthreads_thread_equal :: "(pt_call \<Rightarrow> int) \<Rightarrow> cthreads_thread \<Rightarrow> cthreads_thread \<Rightarrow> int \<times> pt_call list" where
  "cthreads_thread_equal ret t1 t2 = one_call ret (Thread_equal (t_handle t1) (t_handle t2))"

definition cthreads_thread_self :: "nat \<Rightarrow> cthreads_thread" where
  "cthreads_thread_self self = \<lparr>t_handle = self\<rparr>"

definition cthreads_thread_id :: "cthreads_thread \<Rightarrow> 64 word" where
  "cthreads_thread_id thread = of_nat (t_handle thread)"

definition cthreads_thread_cancel :: "(pt_call \<Rightarrow> int) \<Rightarrow> cthreads_thread \<Rightarrow> int \<times> pt_call list" where
  "cthreads_thread_cancel ret thread = one_call ret (Thread_cancel (t_handle thread))"

section \<open>Locks and conditions on pthread\<close>

definition cthreads_mutex_init ::
  "cthreads_features \<Rightarrow> (pt_call \<Rightarrow> int) \<Rightarrow> cthreads_mutex_attr option \<Rightarrow> int \<times> pt_call list"
where
  "cthreads_mutex_init ft ret attr = (case attr of
     None \<Rightarrow> one_call ret (Mutex_init False)
   | Some a \<Rightarrow>
       if ret Mutexattr_init \<noteq> 0 then (1, [Mutexattr_init])
       else (ret (Mutex_init True),
         [Mutexattr_init] @
         set_if (m_pshared a \<noteq> 0) (Mutexattr_setpshared (m_pshared a)) @
         set_if (mutex_type ft \<and> m_type a \<noteq> 0) (Mutexattr_settype (m_type a)) @
         set_if (mutex_robust ft \<and> m_robust a \<noteq> 0) (Mutexattr_setrobust (m_robust a)) @
         set_if (mutex_protocol ft \<and> m_protocol a \<noteq> 0) (Mutexattr_setprotocol (m_protocol a)) @
         set_if (mutex_prioceiling ft \<and> m_prioceiling a \<noteq> 0) (Mutexattr_setprioceiling (m_prioceiling a)) @
         [Mutex_init True]))"

definition cthreads_mutex_lock :: "(pt_call \<Rightarrow> int) \<Rightarrow> int \<times> pt_call list" where
  "cthreads_mutex_lock ret = one_call ret Mutex_lock"

definition cthreads_mutex_trylock :: "(pt_call \<Rightarrow> int) \<Rightarrow> int \<times> pt_call list" where
  "cthreads_mutex_trylock ret = one_call ret Mutex_trylock"

definition cthreads_mutex_unlock :: "(pt_call \<Rightarrow> int) \<Rightarrow> int \<times> pt_call list" where
  "cthreads_mutex_unlock ret = one_call ret Mutex_unlock"

definition cthreads_mutex_destroy :: "(pt_call \<Rightarrow> int) \<Rightarrow> int \<times> pt_call list" where
  "cthreads_mutex_destroy ret = one_call ret Mutex_destroy"

definition cthreads_cond_init ::
  "cthreads_features \<Rightarrow> (pt_call \<Rightarrow> int) \<Rightarrow> cthreads_cond_attr option \<Rightarrow> int \<times> pt_call list"
where
  "cthreads_cond_init ft ret attr = (case attr of
     None \<Rightarrow> one_call ret (Cond_init False)
   | Some a \<Rightarrow>
       if ret Condattr_init \<noteq> 0 then (1, [Condattr_init])
       else (ret (Cond_init True),
         [Condattr_init] @
         set_if (c_pshared a \<noteq> 0) (Condattr_setpshared (c_pshared a)) @
         set_if (cond_clock ft \<and> c_clock a \<noteq> 0) (Condattr_setclock (c_clock a)) @
         [Cond_init True]))"

definition cthreads_cond_signal :: "(pt_call \<Rightarrow> int) \<Rightarrow> int \<times> pt_call list" where
  "cthreads_cond_signal ret = one_call ret Cond_signal"

definition cthreads_cond_broadcast :: "(pt_call \<Rightarrow> int) \<Rightarrow> int \<times> pt_call list" where
  "cthreads_cond_broadcast ret = one_call ret Cond_broadcast"

definition cthreads_cond_destroy :: "(pt_call \<Rightarrow> int) \<Rightarrow> int \<times> pt_call list" where
  "cthreads_cond_destroy ret = one_call ret Cond_destroy"

definition cthreads_cond_wait :: "(pt_call \<Rightarrow> int) \<Rightarrow> int \<times> pt_call list" where
  "cthreads_cond_wait ret = one_call ret Cond_wait"

definition cthreads_rwlock_init :: "(pt_call \<Rightarrow> int) \<Rightarrow> int \<times> pt_call list" where
  "cthreads_rwlock_init ret = one_call ret Rwlock_init"

definition cthreads_rwlock_rdlock :: "(pt_call \<Rightarrow> int) \<Rightarrow> int \<times> pt_call list" where
  "cthreads_rwlock_rdlock ret = one_call ret Rwlock_rdlock"

definition cthreads_rwlock_unlock :: "(pt_call \<Rightarrow> int) \<Rightarrow> int \<times> pt_call list" where
  "cthreads_rwlock_unlock ret = one_call ret Rwlock_unlock"

definition cthreads_rwlock_wrlock :: "(pt_call \<Rightarrow> int) \<Rightarrow> int \<times> pt_call list" where
  "cthreads_rwlock_wrlock ret = one_call ret Rwlock_wrlock"

definition cthreads_rwlock_destroy :: "(pt_call \<Rightarrow> int) \<Rightarrow> int \<times> pt_call list" where
  "cthreads_rwlock_destroy ret = one_call ret Rwlock_destroy"

text \<open>\<^verbatim>\<open>cthreads_thread_exit\<close> hands the address of its parameter, a place on the stack
  that ends with the thread, to \<^verbatim>\<open>pthread_exit\<close>.\<close>

definition cthreads_thread_exit :: "nat \<Rightarrow> 32 word \<Rightarrow> nat" where
  "cthreads_thread_exit address_of_code code = address_of_code"

section \<open>The Windows branch\<close>

definition WAIT_FAILED :: int where
  "WAIT_FAILED = 2 ^ 32 - 1"

text \<open>The function a Windows thread runs, and its creation: \<open>new\<close> is the handle returned by
  \<^verbatim>\<open>CreateThread\<close>. The block \<^verbatim>\<open>args\<close> belongs to the caller.\<close>

definition winthreads_function_wrapper :: "('d, 'r) cthreads_args \<Rightarrow> 'r \<times> int" where
  "winthreads_function_wrapper args = (args_func args (args_data args), 1)"

definition win_thread_create ::
  "nat \<Rightarrow> cthreads_thread \<Rightarrow> win_thread_attr option \<Rightarrow> ('d \<Rightarrow> 'r) \<Rightarrow> 'd \<Rightarrow> ('d, 'r) cthreads_args \<Rightarrow>
   int \<times> cthreads_thread \<times> ('d, 'r) cthreads_args \<times> win_call list"
where
  "win_thread_create new thread attr func data args = (
     let args1 = args\<lparr>args_func := func, args_data := data\<rparr>;
         call = (case attr of
           Some a \<Rightarrow> CreateThread (w_stacksize a) (dwCreationFlags a)
         | None \<Rightarrow> CreateThread 0 0) in
     (if new = 0 then 1 else 0, thread\<lparr>t_handle := new\<rparr>, args1, [call]))"

definition win_thread_detach :: "(win_call \<Rightarrow> int) \<Rightarrow> cthreads_thread \<Rightarrow> int \<times> win_call list" where
  "win_thread_detach ret thread = one_call ret (CloseHandle (t_handle thread))"

definition win_thread_join ::
  "(win_call \<Rightarrow> int) \<Rightarrow> nat \<Rightarrow> cthreads_thread \<Rightarrow> nat option \<Rightarrow> (nat \<Rightarrow> nat) \<Rightarrow>
   int \<times> nat option \<times> (nat \<Rightarrow> nat) \<times> win_call list"
where
  "win_thread_join ret exit_value thread code mem = (
     let w = WaitForSingleObject (t_handle thread); g = GetExitCodeThread (t_handle thread) in
     if ret w = WAIT_FAILED then (0, code, mem, [w])
     else (if ret g = 0 then 1 else 0, if ret g = 0 then code else Some exit_value, mem, [w, g]))"

definition win_thread_equal :: "cthreads_thread \<Rightarrow> cthreads_thread \<Rightarrow> int" where
  "win_thread_equal t1 t2 = (if t_handle t1 = t_handle t2 then 1 else 0)"

definition win_thread_exit :: "32 word \<Rightarrow> win_call list" where
  "win_thread_exit code = [ExitThread code]"

definition win_thread_cancel :: "(win_call \<Rightarrow> int) \<Rightarrow> cthreads_thread \<Rightarrow> int \<times> win_call list" where
  "win_thread_cancel ret thread = one_call ret (TerminateThread (t_handle thread) 0)"

text \<open>The operations of a critical section and of a condition variable, all but one of which
  return 0 whatever the call did.\<close>

definition always_0 :: "win_call \<Rightarrow> int \<times> win_call list" where
  "always_0 c = (0, [c])"

definition win_mutex_init :: "int \<times> win_call list" where
  "win_mutex_init = always_0 InitializeCriticalSection"

definition win_mutex_lock :: "int \<times> win_call list" where
  "win_mutex_lock = always_0 EnterCriticalSection"

definition win_mutex_trylock :: "(win_call \<Rightarrow> int) \<Rightarrow> int \<times> win_call list" where
  "win_mutex_trylock ret = always_0 TryEnterCriticalSection"

definition win_mutex_unlock :: "int \<times> win_call list" where
  "win_mutex_unlock = always_0 LeaveCriticalSection"

definition win_mutex_destroy :: "int \<times> win_call list" where
  "win_mutex_destroy = always_0 DeleteCriticalSection"

definition win_cond_init :: "int \<times> win_call list" where
  "win_cond_init = always_0 InitializeConditionVariable"

definition win_cond_signal :: "int \<times> win_call list" where
  "win_cond_signal = always_0 WakeConditionVariable"

definition win_cond_broadcast :: "int \<times> win_call list" where
  "win_cond_broadcast = always_0 WakeAllConditionVariable"

definition win_cond_destroy :: "int \<times> win_call list" where
  "win_cond_destroy = (0, [])"

definition win_cond_wait :: "(win_call \<Rightarrow> int) \<Rightarrow> int \<times> win_call list" where
  "win_cond_wait ret = (if ret SleepConditionVariableCS = 0 then 1 else 0, [SleepConditionVariableCS])"

subsection \<open>Read-write locks\<close>

record cthreads_rwlock =
  rw_type :: int
  rw_lock :: bool

definition win_rwlock_init :: "bool \<Rightarrow> cthreads_rwlock \<Rightarrow> int \<times> cthreads_rwlock \<times> win_call list" where
  "win_rwlock_init allocated rwlock =
     (if \<not> allocated then (1, rwlock\<lparr>rw_lock := False\<rparr>, [])
      else (0, rwlock\<lparr>rw_lock := True\<rparr>, [InitializeSRWLock]))"

definition win_rwlock_rdlock :: "cthreads_rwlock \<Rightarrow> int \<times> cthreads_rwlock \<times> win_call list" where
  "win_rwlock_rdlock rwlock = (0, rwlock\<lparr>rw_type := 1\<rparr>, [AcquireSRWLockShared])"

definition win_rwlock_wrlock :: "cthreads_rwlock \<Rightarrow> int \<times> cthreads_rwlock \<times> win_call list" where
  "win_rwlock_wrlock rwlock = (0, rwlock\<lparr>rw_type := 2\<rparr>, [AcquireSRWLockExclusive])"

definition win_rwlock_unlock :: "cthreads_rwlock \<Rightarrow> int \<times> cthreads_rwlock \<times> win_call list" where
  "win_rwlock_unlock rwlock = (0, rwlock\<lparr>rw_type := 0\<rparr>,
     if rw_type rwlock = 1 then [ReleaseSRWLockShared]
     else if rw_type rwlock = 2 then [ReleaseSRWLockExclusive] else [])"

definition win_rwlock_destroy :: "cthreads_rwlock \<Rightarrow> int \<times> cthreads_rwlock \<times> win_call list" where
  "win_rwlock_destroy rwlock = (0, rwlock\<lparr>rw_type := 0, rw_lock := False\<rparr>, [])"

section \<open>Attributes\<close>

text \<open>What an attribute object holds after the calls, against what was asked for: the fields
  that are not zero and that the platform supports, the defaults otherwise.\<close>

record thread_setting =
  e_detachstate :: int
  e_guardsize :: nat
  e_inheritsched :: int
  e_schedpolicy :: int
  e_scope :: int
  e_stackaddr :: nat
  e_stacksize :: nat

fun apply_attr :: "pt_call \<Rightarrow> thread_setting \<Rightarrow> thread_setting" where
  "apply_attr (Attr_setdetachstate v) e = e\<lparr>e_detachstate := v\<rparr>"
| "apply_attr (Attr_setguardsize v) e = e\<lparr>e_guardsize := v\<rparr>"
| "apply_attr (Attr_setinheritsched v) e = e\<lparr>e_inheritsched := v\<rparr>"
| "apply_attr (Attr_setschedpolicy v) e = e\<lparr>e_schedpolicy := v\<rparr>"
| "apply_attr (Attr_setscope v) e = e\<lparr>e_scope := v\<rparr>"
| "apply_attr (Attr_setstack a n) e = e\<lparr>e_stackaddr := a, e_stacksize := n\<rparr>"
| "apply_attr (Attr_setstacksize n) e = e\<lparr>e_stacksize := n\<rparr>"
| "apply_attr c e = e"

definition requested :: "cthreads_features \<Rightarrow> cthreads_thread_attr \<Rightarrow> thread_setting \<Rightarrow> thread_setting" where
  "requested ft a d = (let own_stack = thread_stack ft \<and> stack a \<noteq> 0 in \<lparr>
     e_detachstate = if detachstate a \<noteq> 0 then detachstate a else e_detachstate d,
     e_guardsize = if guardsize a \<noteq> 0 then guardsize a else e_guardsize d,
     e_inheritsched = if thread_inheritsched ft \<and> inheritsched a \<noteq> 0 then inheritsched a else e_inheritsched d,
     e_schedpolicy = if schedpolicy a \<noteq> 0 then schedpolicy a else e_schedpolicy d,
     e_scope = if scope a \<noteq> 0 then scope a else e_scope d,
     e_stackaddr = if own_stack then stackaddr a else e_stackaddr d,
     e_stacksize = if stacksize a \<noteq> 0 then stacksize a else if own_stack then stack a else e_stacksize d\<rparr>)"

lemma fold_set_if: "fold f (set_if c x) e = (if c then f x e else e)"
  by (simp add: set_if_def)

lemma thread_attr_calls_requested: "fold apply_attr (thread_attr_calls ft a) d = requested ft a d"
  by (cases d) (simp add: thread_attr_calls_def fold_set_if requested_def Let_def)

lemma thread_attr_calls_no_create: "Thread_create b \<notin> set (thread_attr_calls ft a)"
  by (auto simp: thread_attr_calls_def set_if_def split: if_splits)

text \<open>Creating a thread with attributes sets exactly what was asked for: behind the
  calls the attribute object holds every field that is not zero and that the platform
  supports, and the default in the others; then exactly one thread is created, with it, and
  the result is that of \<^verbatim>\<open>pthread_create\<close>. When the attribute object cannot be
  initialised the result is 1 and no thread is created.\<close>
theorem thread_create_attributes:
  shows "case cthreads_thread_create ft ret new thread (Some a) of (r, thread', calls) \<Rightarrow>
    if ret Attr_init = 0
    then r = ret (Thread_create True) \<and> t_handle thread' = new \<and> fold apply_attr calls d = requested ft a d \<and>
         filter (\<lambda>c. c \<in> {Thread_create True, Thread_create False}) calls = [Thread_create True]
    else r = 1 \<and> thread' = thread \<and> Thread_create True \<notin> set calls \<and> Thread_create False \<notin> set calls"
proof -
  have "filter (\<lambda>c. c \<in> {Thread_create True, Thread_create False}) (thread_attr_calls ft a) = []"
    using thread_attr_calls_no_create by (auto simp: filter_empty_conv)
  then show ?thesis by (simp add: cthreads_thread_create_def thread_attr_calls_requested)
qed

section \<open>Joins, results and locks\<close>

text \<open>Joining never delivers the exit value: whatever it is, the caller's memory is as before.\<close>

lemma join_value_lost:
  "fst (snd (snd (cthreads_thread_join ret v thread code mem))) = mem"
  "fst (snd (snd (win_thread_join ret' v thread code mem))) = mem"
  by (simp_all add: cthreads_thread_join_def win_thread_join_def Let_def)

text \<open>On Windows the results of the wrappers do not say what the header promises (0 on
  success): detaching and cancelling return 0 exactly when the system call failed (they hand
  on its BOOL), joining returns 0 when the wait failed, and a trylock returns 0 also when the
  lock was not taken.\<close>
theorem win_results_inverted:
  shows "(fst (win_thread_detach ret t) = 0 \<longleftrightarrow> ret (CloseHandle (t_handle t)) = 0) \<and>
    (fst (win_thread_cancel ret t) = 0 \<longleftrightarrow> ret (TerminateThread (t_handle t) 0) = 0) \<and>
    (fst (win_thread_join ret v t code mem) = 0 \<longleftrightarrow>
       ret (WaitForSingleObject (t_handle t)) = WAIT_FAILED \<or> ret (GetExitCodeThread (t_handle t)) \<noteq> 0) \<and>
    fst (win_mutex_trylock ret) = 0"
  by (simp add: win_thread_detach_def win_thread_cancel_def one_call_def win_thread_join_def Let_def
      win_mutex_trylock_def always_0_def)

text \<open>On Windows the block of arguments is read when the new thread starts, not when it is
  created: if the caller uses one block for two threads, as the accept loop does, and the
  first has not started yet, both run the second function on the second data.\<close>
theorem win_shared_args:
  assumes "win_thread_create h1 t1 a1 f1 d1 args = (r1, t1', args1, c1)"
    and "win_thread_create h2 t2 a2 f2 d2 args1 = (r2, t2', args2, c2)"
  shows "winthreads_function_wrapper args1 = (f1 d1, 1) \<and> winthreads_function_wrapper args2 = (f2 d2, 1)"
  using assms by (auto simp: win_thread_create_def Let_def winthreads_function_wrapper_def)

text \<open>Sequences of lock operations on Windows, and the holds they leave.\<close>

datatype rw_op = RdLock | WrLock | Unlock

fun rw_step :: "rw_op \<Rightarrow> cthreads_rwlock \<Rightarrow> int \<times> cthreads_rwlock \<times> win_call list" where
  "rw_step RdLock rw = win_rwlock_rdlock rw"
| "rw_step WrLock rw = win_rwlock_wrlock rw"
| "rw_step Unlock rw = win_rwlock_unlock rw"

fun rw_run :: "rw_op list \<Rightarrow> cthreads_rwlock \<Rightarrow> cthreads_rwlock \<times> win_call list" where
  "rw_run [] rw = (rw, [])"
| "rw_run (x # xs) rw = (case rw_step x rw of (r, rw1, c1) \<Rightarrow> case rw_run xs rw1 of (rw2, c2) \<Rightarrow> (rw2, c1 @ c2))"

definition shared_held :: "win_call list \<Rightarrow> int" where
  "shared_held cs = int (count_list cs AcquireSRWLockShared) - int (count_list cs ReleaseSRWLockShared)"

definition exclusive_held :: "win_call list \<Rightarrow> int" where
  "exclusive_held cs = int (count_list cs AcquireSRWLockExclusive) - int (count_list cs ReleaseSRWLockExclusive)"

lemma held_simps [simp]:
  "shared_held [] = 0" "exclusive_held [] = 0"
  "shared_held (a @ b) = shared_held a + shared_held b" "exclusive_held (a @ b) = exclusive_held a + exclusive_held b"
  "shared_held (AcquireSRWLockShared # b) = shared_held b + 1"
  "shared_held (ReleaseSRWLockShared # b) = shared_held b - 1"
  "shared_held (AcquireSRWLockExclusive # b) = shared_held b"
  "shared_held (ReleaseSRWLockExclusive # b) = shared_held b"
  "exclusive_held (AcquireSRWLockShared # b) = exclusive_held b"
  "exclusive_held (ReleaseSRWLockShared # b) = exclusive_held b"
  "exclusive_held (AcquireSRWLockExclusive # b) = exclusive_held b + 1"
  "exclusive_held (ReleaseSRWLockExclusive # b) = exclusive_held b - 1"
  by (simp_all add: shared_held_def exclusive_held_def)

lemmas win_rwlock_defs = win_rwlock_rdlock_def win_rwlock_wrlock_def win_rwlock_unlock_def

lemma rw_run_append:
  "rw_run (xs @ ys) rw = (case rw_run xs rw of (rw1, c1) \<Rightarrow> case rw_run ys rw1 of (rw2, c2) \<Rightarrow> (rw2, c1 @ c2))"
  by (induction xs arbitrary: rw) (auto split: prod.splits)

lemma rw_run_Cons:
  assumes "rw_run (x # xs) rw = (rw', cs)"
  obtains r rw1 c1 c2 where "rw_step x rw = (r, rw1, c1)" "rw_run xs rw1 = (rw', c2)" "cs = c1 @ c2"
  using assms by (auto split: prod.splits)

lemma readers:
  "rw_run (replicate n RdLock) rw = (rw', cs) \<Longrightarrow>
   shared_held cs = int n \<and> (0 < n \<longrightarrow> rw_type rw' = 1) \<and> (n = 0 \<longrightarrow> rw' = rw)"
proof (induction n arbitrary: rw cs)
  case 0
  then show ?case by simp
next
  case (Suc n)
  obtain r rw1 c1 c2 where s: "rw_step RdLock rw = (r, rw1, c1)" "rw_run (replicate n RdLock) rw1 = (rw', c2)" "cs = c1 @ c2"
    by (rule rw_run_Cons [OF Suc.prems [unfolded replicate_Suc]])
  have "c1 = [AcquireSRWLockShared]" "rw_type rw1 = 1" using s(1) by (auto simp: win_rwlock_defs)
  then show ?case using Suc.IH [OF s(2)] s(3) by (cases "n = 0") auto
qed

lemma unlocks_do_nothing:
  "rw_type rw = 0 \<Longrightarrow> rw_run (replicate n Unlock) rw = (rw', cs) \<Longrightarrow> cs = [] \<and> rw_type rw' = 0"
proof (induction n arbitrary: rw cs)
  case 0
  then show ?case by simp
next
  case (Suc n)
  obtain r rw1 c1 c2 where s: "rw_step Unlock rw = (r, rw1, c1)" "rw_run (replicate n Unlock) rw1 = (rw', c2)" "cs = c1 @ c2"
    by (rule rw_run_Cons [OF Suc.prems(2) [unfolded replicate_Suc]])
  have "c1 = []" "rw_type rw1 = 0" using s(1) Suc.prems(1) by (auto simp: win_rwlock_defs)
  then show ?case using Suc.IH [OF _ s(2)] s(3) by simp
qed

text \<open>The Windows read-write lock is right for one user after another: if every lock,
  shared or exclusive, is unlocked before the next one, nothing stays held.\<close>
theorem win_rwlock_sequential:
  assumes "list_all (\<lambda>x. x \<noteq> Unlock) ks" and "rw_run (concat (map (\<lambda>k. [k, Unlock]) ks)) rw = (rw', cs)"
  shows "shared_held cs = 0 \<and> exclusive_held cs = 0"
  using assms
proof (induction ks arbitrary: rw cs)
  case Nil
  then show ?case by simp
next
  case (Cons k ks)
  then show ?case by (cases k) (auto simp: win_rwlock_defs split: prod.splits)
qed

theorem win_rwlock_sequential_witness:
  "case rw_run [RdLock, Unlock, WrLock, Unlock] \<lparr>rw_type = 0, rw_lock = True\<rparr> of (rw', cs) \<Rightarrow> shared_held cs = 0 \<and> exclusive_held cs = 0"
proof -
  obtain rw' cs where "rw_run [RdLock, Unlock, WrLock, Unlock] \<lparr>rw_type = 0, rw_lock = True\<rparr> = (rw', cs)" by fastforce
  then show ?thesis using win_rwlock_sequential [of "[RdLock, WrLock]" _ rw' cs] by simp
qed

text \<open>Which traces the system lets happen: a call that takes the lock shared returns only when there is no
  exclusive hold, one that takes it exclusively only when there is no hold at all. \<open>s\<close> and \<open>e\<close>
  are the holds at the start.\<close>

fun granted :: "int \<Rightarrow> int \<Rightarrow> win_call list \<Rightarrow> bool" where
  "granted s e [] \<longleftrightarrow> True"
| "granted s e (c # cs) \<longleftrightarrow>
     (c = AcquireSRWLockExclusive \<longrightarrow> s = 0 \<and> e = 0) \<and> (c = AcquireSRWLockShared \<longrightarrow> e = 0) \<and>
     granted (s + shared_held [c]) (e + exclusive_held [c]) cs"

lemma granted_append:
  "granted s e (as @ bs) \<longleftrightarrow> granted s e as \<and> granted (s + shared_held as) (e + exclusive_held as) bs"
proof (induction as arbitrary: s e)
  case Nil
  then show ?case by simp
next
  case (Cons a as)
  have "shared_held (a # as) = shared_held [a] + shared_held as" "exclusive_held (a # as) = exclusive_held [a] + exclusive_held as"
    using held_simps(3) [of "[a]" as] held_simps(4) [of "[a]" as] by simp_all
  then show ?case by (simp add: Cons.IH add.assoc)
qed

lemma readers_granted:
  "rw_run (replicate n RdLock) rw = (rw', cs) \<Longrightarrow> granted s 0 cs \<and> exclusive_held cs = 0"
proof (induction n arbitrary: rw cs s)
  case 0
  then show ?case by simp
next
  case (Suc n)
  obtain r rw1 c1 c2 where s: "rw_step RdLock rw = (r, rw1, c1)" "rw_run (replicate n RdLock) rw1 = (rw', c2)" "cs = c1 @ c2"
    by (rule rw_run_Cons [OF Suc.prems [unfolded replicate_Suc]])
  have "c1 = [AcquireSRWLockShared]" using s(1) by (auto simp: win_rwlock_defs)
  then show ?case using Suc.IH [OF s(2)] s(3) by simp
qed

text \<open>With shared holds that no reader owns, the lock is never taken exclusively again: an unlock
  releases a hold only when a reader has come since the last one.\<close>

lemma stuck:
  "rw_run xs rw = (rw', cs) \<Longrightarrow> granted s e cs \<Longrightarrow> rw_type rw = 0 \<or> rw_type rw = 1 \<Longrightarrow>
   0 < k \<Longrightarrow> k + rw_type rw \<le> s \<Longrightarrow> WrLock \<notin> set xs \<and> k \<le> s + shared_held cs"
proof (induction xs arbitrary: rw cs s e)
  case Nil
  then show ?case by auto
next
  case (Cons x xs)
  obtain r rw1 c1 c2 where s: "rw_step x rw = (r, rw1, c1)" "rw_run xs rw1 = (rw', c2)" "cs = c1 @ c2"
    by (rule rw_run_Cons [OF Cons.prems(1)])
  have g: "granted s e c1" "granted (s + shared_held c1) (e + exclusive_held c1) c2"
    using Cons.prems(2) s(3) by (simp_all add: granted_append)
  have "x \<noteq> WrLock" "rw_type rw1 = 0 \<or> rw_type rw1 = 1" "k + rw_type rw1 \<le> s + shared_held c1"
    using s(1) g(1) Cons.prems(3-5) by (cases x; auto simp: win_rwlock_defs)+
  then show ?case using Cons.IH [OF s(2) g(2)] Cons.prems(4) s(3) by auto
qed

text \<open>C38: With several readers at once the Windows read-write lock is wrong: the kind of the lock is one field, reset by
  the first unlock, so of \<open>n\<close> shared holds taken together the \<open>n\<close> unlocks release only one. The
  other \<open>n - 1\<close> stay held for ever: whatever locks and unlocks follow, at least \<open>n - 1\<close> shared
  holds are left, and no writer ever enters again.\<close>
theorem win_rwlock_readers_stuck:
  assumes "2 \<le> n" and "rw_run (replicate n RdLock @ replicate n Unlock) rw = (rw1, cs)"
  shows "granted 0 0 cs \<and> shared_held cs = int n - 1 \<and>
    (\<forall>xs rw2 ds. rw_run xs rw1 = (rw2, ds) \<and> granted 0 0 (cs @ ds) \<longrightarrow>
       WrLock \<notin> set xs \<and> int n - 1 \<le> shared_held (cs @ ds))"
proof -
  obtain rw0 c1 where r: "rw_run (replicate n RdLock) rw = (rw0, c1)" by fastforce
  obtain c2 where u: "rw_run (replicate n Unlock) rw0 = (rw1, c2)" "cs = c1 @ c2"
    using assms(2) r by (auto simp: rw_run_append split: prod.splits)
  obtain m where m: "n = Suc m" using assms(1) by (cases n) auto
  obtain x rw2 c3 c4 where s: "rw_step Unlock rw0 = (x, rw2, c3)" "rw_run (replicate m Unlock) rw2 = (rw1, c4)" "c2 = c3 @ c4"
    by (rule rw_run_Cons [OF u(1) [unfolded m replicate_Suc]])
  have c3: "c3 = [ReleaseSRWLockShared]" "rw_type rw2 = 0"
    using s(1) readers [OF r] assms(1) by (auto simp: win_rwlock_defs)
  have c4: "c4 = []" "rw_type rw1 = 0" using unlocks_do_nothing [OF c3(2) s(2)] by simp_all
  have cs: "granted 0 0 cs" "shared_held cs = int n - 1"
    using readers [OF r] readers_granted [OF r] u(2) s(3) c3(1) c4(1) by (simp_all add: granted_append)
  moreover have "WrLock \<notin> set xs \<and> int n - 1 \<le> shared_held (cs @ ds)"
    if "rw_run xs rw1 = (rw2, ds)" "granted 0 0 (cs @ ds)" for xs rw2 ds
    using stuck [OF that(1), of "int n - 1" "exclusive_held cs" "int n - 1"] that(2) cs(2) c4(2) assms(1)
    by (simp add: granted_append)
  ultimately show ?thesis by blast
qed

theorem win_rwlock_readers_stuck_witness:
  "case rw_run [RdLock, RdLock, Unlock, Unlock] \<lparr>rw_type = 0, rw_lock = True\<rparr> of (rw1, cs) \<Rightarrow> shared_held cs = 1 \<and>
     \<not> granted 0 0 (cs @ snd (rw_run [RdLock, Unlock, WrLock] rw1))"
proof -
  obtain rw1 cs where r: "rw_run [RdLock, RdLock, Unlock, Unlock] \<lparr>rw_type = 0, rw_lock = True\<rparr> = (rw1, cs)" by fastforce
  obtain rw2 ds where d: "rw_run [RdLock, Unlock, WrLock] rw1 = (rw2, ds)" by fastforce
  have e: "replicate 2 RdLock @ replicate 2 Unlock = [RdLock, RdLock, Unlock, Unlock]" by (simp add: numeral_2_eq_2)
  note stuck = win_rwlock_readers_stuck [OF order.refl, unfolded e, OF r]
  have "shared_held cs = 1" using stuck by simp
  moreover have "\<not> granted 0 0 (cs @ ds)"
    using stuck [THEN conjunct2, THEN conjunct2, rule_format, of "[RdLock, Unlock, WrLock]" rw2 ds] d by auto
  ultimately show ?thesis by (simp only: r prod.case d snd_conv simp_thms)
qed

theorem win_shared_args_witness:
  "let args1 = fst (snd (snd (win_thread_create 7 \<lparr>t_handle = 0\<rparr> None Suc 0 \<lparr>args_func = Suc, args_data = 5\<rparr>)));
       args2 = fst (snd (snd (win_thread_create 8 \<lparr>t_handle = 0\<rparr> None (\<lambda>x. 10 * x) 2 args1))) in
   winthreads_function_wrapper args1 = (1, 1) \<and> winthreads_function_wrapper args2 = (20, 1)"
proof -
  obtain r1 t1' c1 and args1 :: "(nat, nat) cthreads_args" where
    1: "win_thread_create 7 \<lparr>t_handle = 0\<rparr> None Suc 0 \<lparr>args_func = Suc, args_data = 5\<rparr> = (r1, t1', args1, c1)"
    by (metis prod_cases4)
  obtain r2 t2' c2 args2 where
    2: "win_thread_create 8 \<lparr>t_handle = 0\<rparr> None (\<lambda>x. 10 * x) 2 args1 = (r2, t2', args2, c2)"
    by (metis prod_cases4)
  show ?thesis using win_shared_args [OF 1 2] unfolding 1 Let_def by (simp add: 2)
qed

end
