(* ===== verification/Pcll.thy ===== *)
theory Pcll
  imports Prelude
begin

text \<open>
  \<^verbatim>\<open>server/libs/pcll.c\<close>: the wrapper around a TLS library, for OpenSSL, wolfSSL and the
  build without a library; the Schannel branches are in \<^verbatim>\<open>Pcll_Schannel\<close>. The objects of the library
  are handles: a context and a connection object, each live until it is freed. Freeing a
  handle that is not live, or using one, traps; freeing the null pointer does nothing. The
  calls of \<^verbatim>\<open>wolfSSL_Cleanup\<close>, which take the whole library down, are counted. The
  results of the library's functions are arguments. The wolfSSL branch of
  \<^verbatim>\<open>pcll_set_safe_mode\<close> ends with an identifier that is declared nowhere
  (\<^verbatim>\<open>PCCL_SUCCESS\<close>); it is read as \<^verbatim>\<open>PCLL_SUCCESS\<close>.
\<close>

section \<open>The objects of the library\<close>

datatype pcll_ssl_library = PCLL_OPENSSL | PCLL_WOLFSSL | PCLL_NO_LIBRARY

record ssl_heap =
  live_ssl :: "nat list"
  live_ctx :: "nat list"
  next_handle :: nat
  cleanups :: nat

definition ctx_new :: "bool \<Rightarrow> ssl_heap \<Rightarrow> nat option \<times> ssl_heap" where
  "ctx_new ok h = (if ok then (Some (next_handle h),
       h\<lparr>live_ctx := next_handle h # live_ctx h, next_handle := next_handle h + 1\<rparr>)
     else (None, h))"

definition ssl_new :: "bool \<Rightarrow> ssl_heap \<Rightarrow> nat option \<times> ssl_heap" where
  "ssl_new ok h = (if ok then (Some (next_handle h),
       h\<lparr>live_ssl := next_handle h # live_ssl h, next_handle := next_handle h + 1\<rparr>)
     else (None, h))"

definition ctx_free :: "nat option \<Rightarrow> ssl_heap \<Rightarrow> ssl_heap option" where
  "ctx_free p h = (case p of
     None \<Rightarrow> Some h
   | Some c \<Rightarrow> if c \<in> set (live_ctx h) then Some (h\<lparr>live_ctx := remove1 c (live_ctx h)\<rparr>) else None)"

definition ssl_free :: "nat option \<Rightarrow> ssl_heap \<Rightarrow> ssl_heap option" where
  "ssl_free p h = (case p of
     None \<Rightarrow> Some h
   | Some s \<Rightarrow> if s \<in> set (live_ssl h) then Some (h\<lparr>live_ssl := remove1 s (live_ssl h)\<rparr>) else None)"

definition use_ctx :: "nat option \<Rightarrow> ssl_heap \<Rightarrow> unit option" where
  "use_ctx p h = (case p of Some c \<Rightarrow> if c \<in> set (live_ctx h) then Some () else None | None \<Rightarrow> None)"

definition use_ssl :: "nat option \<Rightarrow> ssl_heap \<Rightarrow> unit option" where
  "use_ssl p h = (case p of Some s \<Rightarrow> if s \<in> set (live_ssl h) then Some () else None | None \<Rightarrow> None)"

section \<open>Data\<close>

record pcll_connection =
  pc_ssl :: "nat option"
  pc_ctx :: "nat option"

record pcll_server =
  ps_ssl :: "nat option"
  ps_ctx :: "nat option"

definition PCLL_SUCCESS :: int where "PCLL_SUCCESS = 0"

definition PCLL_ERROR :: int where "PCLL_ERROR = - 1"

text \<open>\<^verbatim>\<open>SSL_SUCCESS\<close> and \<^verbatim>\<open>WOLFSSL_SUCCESS\<close> are both 1,
  \<^verbatim>\<open>X509_V_OK\<close> is 0.\<close>

definition SSL_SUCCESS :: int where "SSL_SUCCESS = 1"

definition X509_V_OK :: int where "X509_V_OK = 0"

text \<open>What the library answers while a server, a connection or the checks of a peer are set up.\<close>

record server_answers =
  sa_ctx :: bool
  sa_min_proto :: int
  sa_cert :: int
  sa_key :: int
  sa_check :: int

record client_answers =
  ca_ctx :: bool
  ca_min_proto :: int
  ca_ssl :: bool

record safe_answers =
  fa_paths :: int
  fa_host :: int
  fa_sni :: int
  fa_verify :: int
  fa_fd :: int

section \<open>Operations\<close>

text \<open>The calls that set up the library itself.\<close>

definition pcll_init_ssl_library :: "pcll_ssl_library \<Rightarrow> string list" where
  "pcll_init_ssl_library lib = (case lib of
     PCLL_OPENSSL \<Rightarrow> [''SSL_library_init'', ''SSL_load_error_strings'', ''OpenSSL_add_all_algorithms'']
   | PCLL_WOLFSSL \<Rightarrow> [''wolfSSL_Init'']
   | PCLL_NO_LIBRARY \<Rightarrow> [])"

text \<open>\<^verbatim>\<open>SSL_free\<close> and \<^verbatim>\<open>SSL_CTX_free\<close> in a row.\<close>

definition free_both :: "pcll_connection \<Rightarrow> ssl_heap \<Rightarrow> ssl_heap option" where
  "free_both connection h = do { h1 \<leftarrow> ssl_free (pc_ssl connection) h; ctx_free (pc_ctx connection) h1 }"

text \<open>The steps of a server's set-up: the first result that is not 1 frees the context and is
  returned.\<close>

fun setup_steps :: "int list \<Rightarrow> nat option \<Rightarrow> ssl_heap \<Rightarrow> (int \<times> ssl_heap) option" where
  "setup_steps [] ctx h = Some (PCLL_SUCCESS, h)"
| "setup_steps (ret # rets) ctx h =
     (if ret \<noteq> SSL_SUCCESS then do { h1 \<leftarrow> ctx_free ctx h; Some (ret, h1) }
      else setup_steps rets ctx h)"

definition pcll_init_tls_server ::
  "pcll_ssl_library \<Rightarrow> server_answers \<Rightarrow> pcll_server \<Rightarrow> ssl_heap \<Rightarrow> (int \<times> pcll_server \<times> ssl_heap) option"
where
  "pcll_init_tls_server lib ans server h = (
     if lib = PCLL_NO_LIBRARY then Some (PCLL_ERROR, server, h)
     else case ctx_new (sa_ctx ans) h of (ctx, h1) \<Rightarrow>
       let server1 = server\<lparr>ps_ctx := ctx\<rparr> in
       if ctx = None then do { h2 \<leftarrow> ctx_free ctx h1; Some (PCLL_ERROR, server1, h2) }
       else do {
         (ret, h2) \<leftarrow> setup_steps
           ((if lib = PCLL_OPENSSL then [sa_min_proto ans] else []) @ [sa_cert ans, sa_key ans, sa_check ans]) ctx h1;
         Some (ret, server1, h2) })"

text \<open>\<^verbatim>\<open>SSL_new\<close> on the context of a connection, with its failure branch.\<close>

definition new_ssl :: "bool \<Rightarrow> pcll_connection \<Rightarrow> ssl_heap \<Rightarrow> (int \<times> pcll_connection \<times> ssl_heap) option" where
  "new_ssl ok connection h = do {
     use_ctx (pc_ctx connection) h;
     (case ssl_new ok h of (ssl, h1) \<Rightarrow>
        let connection1 = connection\<lparr>pc_ssl := ssl\<rparr> in
        if ssl = None then do { h2 \<leftarrow> free_both connection1 h1; Some (PCLL_ERROR, connection1, h2) }
        else Some (PCLL_SUCCESS, connection1, h1)) }"

definition pcll_init_ssl ::
  "pcll_ssl_library \<Rightarrow> client_answers \<Rightarrow> pcll_connection \<Rightarrow> ssl_heap \<Rightarrow> (int \<times> pcll_connection \<times> ssl_heap) option"
where
  "pcll_init_ssl lib ans connection h = (
     if lib = PCLL_NO_LIBRARY then Some (PCLL_ERROR, connection, h)
     else case ctx_new (ca_ctx ans) h of (ctx, h1) \<Rightarrow>
       let connection1 = connection\<lparr>pc_ctx := ctx\<rparr> in
       if ctx = None then do { h2 \<leftarrow> ctx_free ctx h1; Some (PCLL_ERROR, connection1, h2) }
       else if lib = PCLL_OPENSSL \<and> ca_min_proto ans \<noteq> SSL_SUCCESS
       then do { h2 \<leftarrow> ctx_free ctx h1; Some (ca_min_proto ans, connection1, h2) }
       else new_ssl (ca_ssl ans) connection1 h1)"

definition pcll_init_only_ssl ::
  "pcll_ssl_library \<Rightarrow> bool \<Rightarrow> pcll_connection \<Rightarrow> ssl_heap \<Rightarrow> (int \<times> pcll_connection \<times> ssl_heap) option"
where
  "pcll_init_only_ssl lib ok connection h =
     (if lib = PCLL_NO_LIBRARY then Some (PCLL_ERROR, connection, h) else new_ssl ok connection h)"

definition pcll_set_safe_mode ::
  "pcll_ssl_library \<Rightarrow> safe_answers \<Rightarrow> pcll_connection \<Rightarrow> ssl_heap \<Rightarrow> (int \<times> ssl_heap) option"
where
  "pcll_set_safe_mode lib ans connection h = (case lib of
     PCLL_OPENSSL \<Rightarrow> do {
       use_ctx (pc_ctx connection) h;
       if fa_paths ans \<noteq> SSL_SUCCESS then Some (fa_paths ans, h)
       else do {
         use_ssl (pc_ssl connection) h;
         if fa_host ans \<noteq> SSL_SUCCESS then Some (fa_host ans, h)
         else if fa_sni ans \<noteq> SSL_SUCCESS then Some (fa_sni ans, h)
         else if fa_verify ans \<noteq> X509_V_OK then Some (fa_verify ans, h)
         else if fa_fd ans \<noteq> SSL_SUCCESS then do { h1 \<leftarrow> free_both connection h; Some (fa_fd ans, h1) }
         else Some (PCLL_SUCCESS, h) } }
   | PCLL_WOLFSSL \<Rightarrow> do {
       use_ctx (pc_ctx connection) h;
       if fa_paths ans \<noteq> SSL_SUCCESS then Some (fa_paths ans, h)
       else if pc_ssl connection = None then Some (PCLL_ERROR, h)
       else do {
         use_ssl (pc_ssl connection) h;
         if fa_fd ans \<noteq> SSL_SUCCESS then do { h1 \<leftarrow> free_both connection h; Some (fa_fd ans, h1) }
         else Some (PCLL_SUCCESS, h) } }
   | PCLL_NO_LIBRARY \<Rightarrow> Some (PCLL_ERROR, h))"

definition pcll_connect :: "pcll_ssl_library \<Rightarrow> int \<Rightarrow> pcll_connection \<Rightarrow> ssl_heap \<Rightarrow> (int \<times> ssl_heap) option" where
  "pcll_connect lib ret connection h = (
     if lib = PCLL_NO_LIBRARY then Some (PCLL_ERROR, h)
     else do {
       use_ssl (pc_ssl connection) h;
       if ret \<noteq> SSL_SUCCESS then Some (ret, h) else Some (PCLL_SUCCESS, h) })"

definition pcll_accept :: "pcll_ssl_library \<Rightarrow> int \<Rightarrow> pcll_connection \<Rightarrow> ssl_heap \<Rightarrow> (int \<times> ssl_heap) option" where
  "pcll_accept lib ret connection h = (
     if lib = PCLL_NO_LIBRARY then Some (PCLL_ERROR, h)
     else do {
       use_ssl (pc_ssl connection) h;
       if ret \<noteq> SSL_SUCCESS then do { h1 \<leftarrow> free_both connection h; Some (ret, h1) }
       else Some (PCLL_SUCCESS, h) })"

definition pcll_get_error :: "pcll_ssl_library \<Rightarrow> int \<Rightarrow> pcll_connection \<Rightarrow> ssl_heap \<Rightarrow> (int \<times> ssl_heap) option" where
  "pcll_get_error lib ret connection h = (
     if lib = PCLL_NO_LIBRARY then Some (PCLL_ERROR, h)
     else do { use_ssl (pc_ssl connection) h; Some (ret, h) })"

text \<open>\<open>written\<close> and \<open>received\<close> are what the library's write and read return.\<close>

definition pcll_send :: "pcll_ssl_library \<Rightarrow> int \<Rightarrow> int \<Rightarrow> pcll_connection \<Rightarrow> ssl_heap \<Rightarrow> (int \<times> ssl_heap) option" where
  "pcll_send lib written n connection h = (
     if lib = PCLL_NO_LIBRARY then Some (PCLL_ERROR, h)
     else do {
       use_ssl (pc_ssl connection) h;
       if written \<noteq> n then do { h1 \<leftarrow> free_both connection h; Some (PCLL_ERROR, h1) }
       else Some (PCLL_SUCCESS, h) })"

definition pcll_recv :: "pcll_ssl_library \<Rightarrow> int \<Rightarrow> pcll_connection \<Rightarrow> ssl_heap \<Rightarrow> (int \<times> ssl_heap) option" where
  "pcll_recv lib received connection h = (
     if lib = PCLL_NO_LIBRARY then Some (PCLL_ERROR, h)
     else do {
       use_ssl (pc_ssl connection) h;
       if received = - 1 then do { h1 \<leftarrow> free_both connection h; Some (PCLL_ERROR, h1) }
       else Some (received, h) })"

text \<open>OpenSSL's branch tests for null pointers, which the library's functions ignore anyway.\<close>

definition pcll_free :: "pcll_ssl_library \<Rightarrow> pcll_connection \<Rightarrow> ssl_heap \<Rightarrow> ssl_heap option" where
  "pcll_free lib connection h = (case lib of
     PCLL_OPENSSL \<Rightarrow> do {
       h1 \<leftarrow> (if pc_ssl connection \<noteq> None then ssl_free (pc_ssl connection) h else Some h);
       (if pc_ctx connection \<noteq> None then ctx_free (pc_ctx connection) h1 else Some h1) }
   | PCLL_WOLFSSL \<Rightarrow> do { h1 \<leftarrow> free_both connection h; Some (h1\<lparr>cleanups := cleanups h1 + 1\<rparr>) }
   | PCLL_NO_LIBRARY \<Rightarrow> Some h)"

definition pcll_shutdown :: "pcll_ssl_library \<Rightarrow> pcll_connection \<Rightarrow> ssl_heap \<Rightarrow> ssl_heap option" where
  "pcll_shutdown lib connection h =
     (if lib = PCLL_NO_LIBRARY then Some h else do { use_ssl (pc_ssl connection) h; Some h })"

section \<open>Setting up\<close>

definition server_good :: "pcll_ssl_library \<Rightarrow> server_answers \<Rightarrow> bool" where
  "server_good lib ans \<longleftrightarrow> lib \<noteq> PCLL_NO_LIBRARY \<and> sa_ctx ans \<and> (lib = PCLL_OPENSSL \<longrightarrow> sa_min_proto ans = SSL_SUCCESS) \<and>
     sa_cert ans = SSL_SUCCESS \<and> sa_key ans = SSL_SUCCESS \<and> sa_check ans = SSL_SUCCESS"

definition client_good :: "pcll_ssl_library \<Rightarrow> client_answers \<Rightarrow> bool" where
  "client_good lib ans \<longleftrightarrow> lib \<noteq> PCLL_NO_LIBRARY \<and> ca_ctx ans \<and>
     (lib = PCLL_OPENSSL \<longrightarrow> ca_min_proto ans = SSL_SUCCESS) \<and> ca_ssl ans"

lemmas pcll_heap_defs = ctx_new_def ssl_new_def ctx_free_def ssl_free_def use_ctx_def use_ssl_def free_both_def

lemma setup_steps_result:
  "setup_steps rets (Some c) (h\<lparr>live_ctx := c # cs, next_handle := n\<rparr>) = Some
     (case find (\<lambda>r. r \<noteq> SSL_SUCCESS) rets of
        None \<Rightarrow> (PCLL_SUCCESS, h\<lparr>live_ctx := c # cs, next_handle := n\<rparr>)
      | Some r \<Rightarrow> (r, h\<lparr>live_ctx := cs, next_handle := n\<rparr>))"
  by (induction rets) (auto simp: ctx_free_def)

text \<open>Setting up a TLS server never leaks and never traps: its context stays live exactly
  when every call of the library succeeded, and otherwise the live objects are those from
  before.\<close>
theorem server_setup_no_leak:
  shows "\<exists>r server' h'. pcll_init_tls_server lib ans server h = Some (r, server', h') \<and>
    live_ssl h' = live_ssl h \<and>
    live_ctx h' = (if server_good lib ans then next_handle h # live_ctx h else live_ctx h) \<and>
    (server_good lib ans \<longrightarrow> r = PCLL_SUCCESS \<and> ps_ctx server' = Some (next_handle h))"
  by (cases lib) (auto simp: pcll_init_tls_server_def server_good_def ctx_new_def ctx_free_def Let_def
      setup_steps_result split: option.splits)

text \<open>But a failed set-up is reported as a success: the wrapper returns the result of the call
  that failed, the library reports a failure as 0, and 0 is \<^verbatim>\<open>PCLL_SUCCESS\<close>. With a
  certificate file that cannot be read, the set-up returns success and hands out a context
  that was already freed.\<close>
theorem server_failure_is_success:
  assumes "lib \<noteq> PCLL_NO_LIBRARY" and "sa_ctx ans" and "sa_min_proto ans = SSL_SUCCESS" and "sa_cert ans = 0"
    and "next_handle h \<notin> set (live_ctx h)"
  shows "\<exists>server' h'. pcll_init_tls_server lib ans server h = Some (PCLL_SUCCESS, server', h') \<and>
    ps_ctx server' = Some (next_handle h) \<and> use_ctx (ps_ctx server') h' = None"
  using assms
  by (cases lib) (auto simp: pcll_init_tls_server_def ctx_new_def use_ctx_def ctx_free_def setup_steps_result SSL_SUCCESS_def PCLL_SUCCESS_def)

definition empty_ssl_heap :: ssl_heap where
  "empty_ssl_heap = \<lparr>live_ssl = [], live_ctx = [], next_handle = 1, cleanups = 0\<rparr>"

theorem server_failure_is_success_witness:
  "\<exists>server' h'. pcll_init_tls_server PCLL_OPENSSL
      \<lparr>sa_ctx = True, sa_min_proto = 1, sa_cert = 0, sa_key = 1, sa_check = 1\<rparr> \<lparr>ps_ssl = None, ps_ctx = None\<rparr> empty_ssl_heap =
        Some (PCLL_SUCCESS, server', h') \<and> ps_ctx server' = Some 1 \<and> use_ctx (ps_ctx server') h' = None"
  using server_failure_is_success [of PCLL_OPENSSL "\<lparr>sa_ctx = True, sa_min_proto = 1, sa_cert = 0, sa_key = 1, sa_check = 1\<rparr>"
      empty_ssl_heap "\<lparr>ps_ssl = None, ps_ctx = None\<rparr>"]
  by (auto simp: SSL_SUCCESS_def empty_ssl_heap_def)

section \<open>The life of a connection\<close>

text \<open>A connection that owns its two objects, and the heap without them.\<close>

definition owned :: "pcll_connection \<Rightarrow> ssl_heap \<Rightarrow> bool" where
  "owned c h \<longleftrightarrow> (case (pc_ssl c, pc_ctx c) of
     (Some s, Some x) \<Rightarrow> s \<in> set (live_ssl h) \<and> x \<in> set (live_ctx h) \<and> distinct (live_ssl h) \<and> distinct (live_ctx h)
   | _ \<Rightarrow> False)"

definition released :: "pcll_connection \<Rightarrow> ssl_heap \<Rightarrow> ssl_heap" where
  "released c h = h\<lparr>live_ssl := remove1 (the (pc_ssl c)) (live_ssl h), live_ctx := remove1 (the (pc_ctx c)) (live_ctx h)\<rparr>"

lemma owned_free_both: "owned c h \<Longrightarrow> free_both c h = Some (released c h)"
  by (auto simp: owned_def released_def pcll_heap_defs split: option.splits)

lemma owned_use: "owned c h \<Longrightarrow> use_ssl (pc_ssl c) h = Some ()" "owned c h \<Longrightarrow> use_ctx (pc_ctx c) h = Some ()"
  by (auto simp: owned_def pcll_heap_defs split: option.splits)

lemma released_dead:
  assumes "owned c h"
  shows "use_ssl (pc_ssl c) (released c h) = None" and "use_ctx (pc_ctx c) (released c h) = None" and "ssl_free (pc_ssl c) (released c h) = None"
    and "pc_ssl c \<noteq> None"
  using assms by (auto simp: owned_def released_def pcll_heap_defs split: option.splits)

text \<open>The operations on a connection that is set up, with what the library answers, run by a client
  that does not look at the results.\<close>

datatype pcll_op = Set_safe_mode safe_answers | Connect int | Accept int | Get_error int | Send int int | Recv int | Shutdown

fun pcll_step :: "pcll_ssl_library \<Rightarrow> pcll_op \<Rightarrow> pcll_connection \<Rightarrow> ssl_heap \<Rightarrow> ssl_heap option" where
  "pcll_step lib (Set_safe_mode a) c h = map_option snd (pcll_set_safe_mode lib a c h)"
| "pcll_step lib (Connect r) c h = map_option snd (pcll_connect lib r c h)"
| "pcll_step lib (Accept r) c h = map_option snd (pcll_accept lib r c h)"
| "pcll_step lib (Get_error r) c h = map_option snd (pcll_get_error lib r c h)"
| "pcll_step lib (Send w n) c h = map_option snd (pcll_send lib w n c h)"
| "pcll_step lib (Recv r) c h = map_option snd (pcll_recv lib r c h)"
| "pcll_step lib Shutdown c h = pcll_shutdown lib c h"

fun pcll_run :: "pcll_ssl_library \<Rightarrow> pcll_op list \<Rightarrow> pcll_connection \<Rightarrow> ssl_heap \<Rightarrow> ssl_heap option" where
  "pcll_run lib [] c h = Some h"
| "pcll_run lib (x # xs) c h = do { h1 \<leftarrow> pcll_step lib x c h; pcll_run lib xs c h1 }"

text \<open>The failures after which an operation frees the objects. In the safe mode it is only that of
  the last call, \<^verbatim>\<open>SSL_set_fd\<close>, which is made when those before it succeeded.\<close>

fun op_frees :: "pcll_ssl_library \<Rightarrow> pcll_op \<Rightarrow> bool" where
  "op_frees lib (Set_safe_mode a) \<longleftrightarrow> fa_paths a = SSL_SUCCESS \<and>
     (lib = PCLL_OPENSSL \<longrightarrow> fa_host a = SSL_SUCCESS \<and> fa_sni a = SSL_SUCCESS \<and> fa_verify a = X509_V_OK) \<and>
     fa_fd a \<noteq> SSL_SUCCESS"
| "op_frees lib (Accept r) \<longleftrightarrow> r \<noteq> SSL_SUCCESS"
| "op_frees lib (Send w n) \<longleftrightarrow> w \<noteq> n"
| "op_frees lib (Recv r) \<longleftrightarrow> r = - 1"
| "op_frees lib x \<longleftrightarrow> False"

text \<open>What a connection leaves after its final \<^verbatim>\<open>pcll_free\<close>.\<close>

definition freed :: "pcll_ssl_library \<Rightarrow> pcll_connection \<Rightarrow> ssl_heap \<Rightarrow> ssl_heap" where
  "freed lib c h = (released c h)\<lparr>cleanups := cleanups h + (if lib = PCLL_WOLFSSL then 1 else 0)\<rparr>"

lemmas pcll_op_defs = pcll_set_safe_mode_def pcll_connect_def pcll_accept_def pcll_get_error_def pcll_send_def
  pcll_recv_def pcll_shutdown_def

lemma step_owned:
  assumes "lib \<noteq> PCLL_NO_LIBRARY" and "owned c h"
  shows "pcll_step lib x c h = Some (if op_frees lib x then released c h else h)"
proof -
  have "pc_ssl c \<noteq> None" by (rule released_dead(4) [OF assms(2)])
  then show ?thesis
    using assms by (cases x; cases lib) (auto simp: pcll_op_defs owned_use owned_free_both)
qed

lemma step_dead:
  "lib \<noteq> PCLL_NO_LIBRARY \<Longrightarrow> use_ssl (pc_ssl c) h = None \<Longrightarrow> use_ctx (pc_ctx c) h = None \<Longrightarrow> pcll_step lib x c h = None"
  by (cases x; cases lib) (auto simp: pcll_op_defs)

lemma free_owned: "lib \<noteq> PCLL_NO_LIBRARY \<Longrightarrow> owned c h \<Longrightarrow> pcll_free lib c h = Some (freed lib c h)"
  by (cases lib) (auto simp: pcll_free_def freed_def owned_free_both owned_def released_def pcll_heap_defs split: option.splits)

lemma free_dead: "lib \<noteq> PCLL_NO_LIBRARY \<Longrightarrow> owned c h \<Longrightarrow> pcll_free lib c (released c h) = None"
  using released_dead [of c h] by (cases lib) (auto simp: pcll_free_def free_both_def)

text \<open>C36: Over any sequence of operations on a connection that is set up, the final
  \<^verbatim>\<open>pcll_free\<close> releases exactly its two objects (and takes wolfSSL down, once) if no operation has
  freed them before, and is undefined behaviour otherwise. An accept, a send or a receive that
  fails frees them itself, and so does the safe mode when the socket cannot be set; the pointers
  stay in the connection, so the next operation uses, or the final call frees, what is already
  freed.\<close>
theorem connection_freed_once:
  assumes "lib \<noteq> PCLL_NO_LIBRARY" and "owned c h"
  shows "Option.bind (pcll_run lib xs c h) (pcll_free lib c) =
    (if list_ex (op_frees lib) xs then None else Some (freed lib c h))"
  using assms(2)
proof (induction xs)
  case Nil
  then show ?case using free_owned [OF assms(1)] by simp
next
  case (Cons x xs)
  show ?case
  proof (cases "op_frees lib x")
    case True
    have "Option.bind (pcll_run lib xs c (released c h)) (pcll_free lib c) = None"
      using free_dead [OF assms] step_dead [OF assms(1) released_dead(1,2) [OF assms(2)]] by (cases xs) auto
    then show ?thesis using True step_owned [OF assms, of x] by simp
  next
    case False
    then show ?thesis using step_owned [OF assms, of x] Cons by simp
  qed
qed

text \<open>Setting up a client connection never leaks: either both objects are live and the connection
  owns them, with the result \<^verbatim>\<open>PCLL_SUCCESS\<close>, or the live objects are those from
  before.\<close>
theorem client_setup_no_leak:
  assumes "distinct (live_ssl h)" and "distinct (live_ctx h)" and "\<forall>x\<in>set (live_ssl h) \<union> set (live_ctx h). x < next_handle h"
  shows "\<exists>r c' h'. pcll_init_ssl lib ans c h = Some (r, c', h') \<and>
    (if client_good lib ans then r = PCLL_SUCCESS \<and> owned c' h' \<and> live_ssl (released c' h') = live_ssl h \<and> live_ctx (released c' h') = live_ctx h
     else live_ssl h' = live_ssl h \<and> live_ctx h' = live_ctx h)"
proof -
  have "next_handle h \<notin> set (live_ctx h)" using assms(3) by auto
  moreover have "next_handle h + 1 \<notin> set (live_ssl h)" by (meson assms(3) UnI1 not_add_less1)
  ultimately show ?thesis using assms(1,2)
    by (cases lib) (auto simp: pcll_init_ssl_def client_good_def new_ssl_def pcll_heap_defs owned_def released_def Let_def)
qed

definition client_1 :: "int \<times> pcll_connection \<times> ssl_heap" where
  "client_1 = the (pcll_init_ssl PCLL_OPENSSL \<lparr>ca_ctx = True, ca_min_proto = 1, ca_ssl = True\<rparr>
     \<lparr>pc_ssl = None, pc_ctx = None\<rparr> empty_ssl_heap)"

theorem client_setup_no_leak_witness:
  "\<exists>r c' h'. pcll_init_ssl PCLL_OPENSSL \<lparr>ca_ctx = True, ca_min_proto = 1, ca_ssl = True\<rparr>
     \<lparr>pc_ssl = None, pc_ctx = None\<rparr> empty_ssl_heap = Some (r, c', h') \<and> r = PCLL_SUCCESS \<and> owned c' h'"
proof -
  have "client_good PCLL_OPENSSL \<lparr>ca_ctx = True, ca_min_proto = 1, ca_ssl = True\<rparr>" by (simp add: client_good_def SSL_SUCCESS_def)
  then show ?thesis
    using client_setup_no_leak [of empty_ssl_heap PCLL_OPENSSL "\<lparr>ca_ctx = True, ca_min_proto = 1, ca_ssl = True\<rparr>"
        "\<lparr>pc_ssl = None, pc_ctx = None\<rparr>"]
    by (auto simp: empty_ssl_heap_def)
qed

theorem connection_freed_once_witness:
  "(let c = fst (snd client_1); h = snd (snd client_1) in
     Option.bind (pcll_run PCLL_OPENSSL [Connect 1, Send 5 5, Send 3 5] c h) (pcll_free PCLL_OPENSSL c) = None \<and>
     Option.bind (pcll_run PCLL_OPENSSL [Set_safe_mode \<lparr>fa_paths = 1, fa_host = 1, fa_sni = 1, fa_verify = 0, fa_fd = 0\<rparr>] c h)
       (pcll_free PCLL_OPENSSL c) = None \<and>
     map_option live_ssl (Option.bind (pcll_run PCLL_OPENSSL [Connect 1, Send 5 5, Recv 3] c h) (pcll_free PCLL_OPENSSL c)) = Some [])"
proof -
  let ?c = "fst (snd client_1)" and ?h = "snd (snd client_1)"
  have "owned ?c ?h" by code_simp
  note freed = connection_freed_once [OF _ this, of PCLL_OPENSSL]
  have l: "live_ssl (freed PCLL_OPENSSL ?c ?h) = []" by code_simp
  show ?thesis
    using freed [of "[Connect 1, Send 5 5, Send 3 5]"] freed [of "[Connect 1, Send 5 5, Recv 3]"] l
      freed [of "[Set_safe_mode \<lparr>fa_paths = 1, fa_host = 1, fa_sni = 1, fa_verify = 0, fa_fd = 0\<rparr>]"]
    by (simp add: Let_def SSL_SUCCESS_def X509_V_OK_def)
qed

end
