(* ===== verification/Pcll_Schannel.thy ===== *)
theory Pcll_Schannel
  imports Pcll
begin

text \<open>
  The Schannel branches of \<^verbatim>\<open>server/libs/pcll.c\<close>, where the file does the framing of a
  TLS stream itself: the handshake loop, the send loop that cuts data into records, and the
  receive loop that collects records in \<^verbatim>\<open>incoming\<close> and hands out what is decrypted.
  The security package and the sockets are functions of an environment record, on a state of
  the network; a security context is a value that \<open>None\<close> replaces when it is deleted, and
  deleting or using a deleted one traps. The loops depend on the peer, so they are partial
  functions: \<^term>\<open>None\<close> is a trap or a loop that does not end, and the theorems show when
  neither happens. Positions are naturals, as the C code only stores non-negative ones.
  Memory of the security package (the output tokens) is not modelled.
\<close>

section \<open>The environment\<close>

text \<open>An empty answer of \<^verbatim>\<open>recv\<close> is the end of the stream.\<close>

datatype recv_answer = Recv_data bytes | Recv_failed

text \<open>\<^verbatim>\<open>DecryptMessage\<close>: the contents it leaves in the buffer, the place and length of
  the plain text in it, and the length of the extra bytes behind the message.\<close>

datatype decrypt_answer =
    Dec_ok bytes nat nat "nat option"
  | Dec_context_expired
  | Dec_renegotiate
  | Dec_incomplete
  | Dec_invalid

datatype init_status =
    Init_ok
  | Init_incomplete_credentials
  | Init_continue
  | Init_incomplete_message
  | Init_failed

record init_answer =
  ia_status :: init_status
  ia_extra :: "nat option"
  ia_token :: bytes

record stream_sizes =
  cb_header :: nat
  cb_maximum :: nat
  cb_trailer :: nat

text \<open>\<open>se_init\<close> is \<^verbatim>\<open>InitializeSecurityContext\<close> on a context, a host name and the bytes
  collected so far, with the context afterwards: a first call that fails creates none; \<open>se_close\<close> is the same call behind \<^verbatim>\<open>ApplyControlToken\<close>, which asks for
  the message that ends the session.\<close>

record ('k, 's) schannel_env =
  se_recv :: "nat \<Rightarrow> 's \<Rightarrow> recv_answer \<times> 's"
  se_send :: "bytes \<Rightarrow> 's \<Rightarrow> int \<times> 's"
  se_init :: "'k option \<Rightarrow> string option \<Rightarrow> bytes \<Rightarrow> init_answer \<times> 'k option"
  se_close :: "'k \<Rightarrow> init_answer \<times> 'k"
  se_sizes :: "'k \<Rightarrow> stream_sizes"
  se_encrypt :: "'k \<Rightarrow> bytes \<Rightarrow> (bytes \<times> bytes \<times> bytes \<times> 'k) option"
  se_decrypt :: "'k \<Rightarrow> bytes \<Rightarrow> decrypt_answer \<times> 'k"

section \<open>The connection\<close>

text \<open>\<open>sc_decrypted\<close> is an offset into \<open>sc_incoming\<close>.\<close>

record 'k schannel_connection =
  sc_hostname :: string
  sc_received :: nat
  sc_available :: nat
  sc_used :: nat
  sc_decrypted :: "nat option"
  sc_incoming :: bytes
  sc_sizes :: stream_sizes
  sc_context :: "'k option"
  sc_handle :: bool
  sc_wsa :: nat

text \<open>The two ways to create a connection only start the socket library.\<close>

definition schannel_init_ssl :: "int \<Rightarrow> 'k schannel_connection \<Rightarrow> int \<times> 'k schannel_connection" where
  "schannel_init_ssl wsa connection =
     (if wsa \<noteq> 0 then (PCLL_ERROR, connection) else (PCLL_SUCCESS, connection\<lparr>sc_wsa := sc_wsa connection + 1\<rparr>))"

definition schannel_set_safe_mode ::
  "bool \<Rightarrow> bool \<Rightarrow> string \<Rightarrow> 'k schannel_connection \<Rightarrow> int \<times> 'k schannel_connection"
where
  "schannel_set_safe_mode connected acquired hostname connection =
     (if \<not> connected then (PCLL_ERROR, connection)
      else if \<not> acquired then (PCLL_ERROR, connection)
      else (PCLL_SUCCESS, connection\<lparr>sc_handle := True, sc_hostname := hostname, sc_received := 0, sc_available := 0,
              sc_used := 0, sc_decrypted := None\<rparr>))"

text \<open>\<^verbatim>\<open>memmove(incoming, incoming + from, n)\<close>.\<close>

definition shift_incoming :: "nat \<Rightarrow> nat \<Rightarrow> 'k schannel_connection \<Rightarrow> 'k schannel_connection option" where
  "shift_incoming from n connection = do {
     inc \<leftarrow> c_memcpy (sc_incoming connection) 0 (sc_incoming connection) from (int n);
     Some (connection\<lparr>sc_incoming := inc\<rparr>) }"

text \<open>\<^verbatim>\<open>recv(socket, incoming + received, sizeof(incoming) - received, 0)\<close> and the count
  of what came.\<close>

definition store_received :: "bytes \<Rightarrow> 'k schannel_connection \<Rightarrow> 'k schannel_connection option" where
  "store_received bs connection = do {
     inc \<leftarrow> c_memcpy (sc_incoming connection) (sc_received connection) bs 0 (int (length bs));
     Some (connection\<lparr>sc_incoming := inc, sc_received := sc_received connection + length bs\<rparr>) }"

text \<open>\<^verbatim>\<open>while (sent != total)\<close> around \<^verbatim>\<open>send\<close>, also the loop that sends a
  handshake token. More bytes accepted than offered would be against the contract of
  \<^verbatim>\<open>send\<close> and trap.\<close>

function send_bytes :: "('k, 's) schannel_env \<Rightarrow> bytes \<Rightarrow> 's \<Rightarrow> (bool \<times> 's) option" where
  "send_bytes env bs s =
     (if bs = [] then Some (True, s)
      else case se_send env bs s of (ret, s1) \<Rightarrow>
        if ret \<le> 0 then Some (False, s1)
        else if int (length bs) < ret then None
        else send_bytes env (drop (nat ret) bs) s1)"
  by pat_completeness auto
termination
  by (relation "measure (\<lambda>(env, bs, s). length bs)") auto

declare send_bytes.simps [simp del]

section \<open>The handshake\<close>

text \<open>What a turn of the loop does to the collected input: an extra buffer is moved to the
  front, otherwise everything collected is dropped.\<close>

definition keep_extra :: "nat option \<Rightarrow> 'k schannel_connection \<Rightarrow> 'k schannel_connection option" where
  "keep_extra extra connection = (case extra of
     Some n \<Rightarrow>
       if sc_received connection < n then None
       else do {
         c1 \<leftarrow> shift_incoming (sc_received connection - n) n connection;
         Some (c1\<lparr>sc_received := n\<rparr>) }
   | None \<Rightarrow> Some (connection\<lparr>sc_received := 0\<rparr>))"

definition drop_context :: "'k schannel_connection \<Rightarrow> 'k schannel_connection option" where
  "drop_context connection =
     (if sc_context connection = None \<or> \<not> sc_handle connection then None
      else Some (connection\<lparr>sc_context := None, sc_handle := False\<rparr>))"

definition connect_fail :: "'k schannel_connection \<Rightarrow> 's \<Rightarrow> (int \<times> 'k schannel_connection \<times> 's) option" where
  "connect_fail connection s = do { c1 \<leftarrow> drop_context connection; Some (PCLL_ERROR, c1, s) }"

definition connect_done ::
  "('k, 's) schannel_env \<Rightarrow> 'k schannel_connection \<Rightarrow> 's \<Rightarrow> (int \<times> 'k schannel_connection \<times> 's) option"
where
  "connect_done env connection s = do {
     k \<leftarrow> sc_context connection;
     Some (PCLL_SUCCESS, connection\<lparr>sc_sizes := se_sizes env k\<rparr>, s) }"

text \<open>\<open>started\<close> tells whether the local pointer \<^verbatim>\<open>context\<close> is set: it is null in the first
  turn, where no input is passed, and points to the context of the connection in the others.
  \<open>Inl\<close> ends the loop, \<open>Inr\<close> goes on to receive.\<close>

definition connect_turn ::
  "('k, 's) schannel_env \<Rightarrow> bool \<Rightarrow> 'k schannel_connection \<Rightarrow> 's \<Rightarrow>
   ((int \<times> 'k schannel_connection \<times> 's) + ('k schannel_connection \<times> 's)) option"
where
  "connect_turn env started connection s = (
     if started \<and> sc_context connection = None then None
     else case se_init env (if started then sc_context connection else None)
       (if started then None else Some (sc_hostname connection))
       (if started then take (sc_received connection) (sc_incoming connection) else []) of (a, k) \<Rightarrow> do {
       c1 \<leftarrow> keep_extra (if started then ia_extra a else None) (connection\<lparr>sc_context := k\<rparr>);
       case ia_status a of
         Init_ok \<Rightarrow> map_option Inl (connect_done env c1 s)
       | Init_incomplete_credentials \<Rightarrow> map_option Inl (connect_done env c1 s)
       | Init_continue \<Rightarrow> do {
           (sent, s1) \<leftarrow> send_bytes env (ia_token a) s;
           if sent then Some (Inr (c1, s1)) else map_option Inl (connect_fail c1 s1) }
       | Init_incomplete_message \<Rightarrow> Some (Inr (c1, s))
       | Init_failed \<Rightarrow> map_option Inl (connect_fail c1 s) })"

definition connect_recv ::
  "('k, 's) schannel_env \<Rightarrow> 'k schannel_connection \<Rightarrow> 's \<Rightarrow>
   ((int \<times> 'k schannel_connection \<times> 's) + ('k schannel_connection \<times> 's)) option"
where
  "connect_recv env connection s = (
     if sc_received connection = length (sc_incoming connection) then map_option Inl (connect_fail connection s)
     else case se_recv env (length (sc_incoming connection) - sc_received connection) s of
       (Recv_failed, s1) \<Rightarrow> map_option Inl (connect_fail connection s1)
     | (Recv_data bs, s1) \<Rightarrow>
         if bs = [] then Some (Inl (PCLL_SUCCESS, connection, s1))
         else do { c1 \<leftarrow> store_received bs connection; Some (Inr (c1, s1)) })"

partial_function (option) connect_loop ::
  "('k, 's) schannel_env \<Rightarrow> bool \<Rightarrow> 'k schannel_connection \<Rightarrow> 's \<Rightarrow> (int \<times> 'k schannel_connection \<times> 's) option"
where
  "connect_loop env started connection s = do {
     r \<leftarrow> connect_turn env started connection s;
     case r of
       Inl result \<Rightarrow> Some result
     | Inr (c1, s1) \<Rightarrow> do {
         r1 \<leftarrow> connect_recv env c1 s1;
         case r1 of
           Inl result \<Rightarrow> Some result
         | Inr (c2, s2) \<Rightarrow> connect_loop env True c2 s2 } }"

definition schannel_connect ::
  "('k, 's) schannel_env \<Rightarrow> 'k schannel_connection \<Rightarrow> 's \<Rightarrow> (int \<times> 'k schannel_connection \<times> 's) option"
where
  "schannel_connect env connection s = connect_loop env False connection s"

text \<open>Accepting is not implemented in this branch and reports success; an error code is its own
  description.\<close>

definition schannel_accept :: "'k schannel_connection \<Rightarrow> int" where
  "schannel_accept connection = PCLL_SUCCESS"

definition schannel_init_tls_server :: "pcll_server \<Rightarrow> int \<times> pcll_server" where
  "schannel_init_tls_server server = (PCLL_SUCCESS, server)"

definition schannel_get_error :: "'k schannel_connection \<Rightarrow> int \<Rightarrow> int" where
  "schannel_get_error connection error = error"

section \<open>Sending\<close>

text \<open>One record: the data is copied behind the room for the header in a buffer on the stack
  (\<open>wbuffer\<close>, whatever it held), encrypted in place, and the three parts are sent as one
  block of the sum of their lengths.\<close>

definition seal_record ::
  "('k, 's) schannel_env \<Rightarrow> bytes \<Rightarrow> bytes \<Rightarrow> 'k schannel_connection \<Rightarrow> (bytes \<times> 'k) option option"
where
  "seal_record env wbuffer chunk connection = do {
     k \<leftarrow> sc_context connection;
     w1 \<leftarrow> c_memcpy wbuffer (cb_header (sc_sizes connection)) chunk 0 (int (length chunk));
     case se_encrypt env k (take (length chunk) (drop (cb_header (sc_sizes connection)) w1)) of
       None \<Rightarrow> Some None
     | Some (header, body, trailer, k1) \<Rightarrow> do {
         w2 \<leftarrow> c_memcpy w1 0 header 0 (int (length header));
         w3 \<leftarrow> c_memcpy w2 (cb_header (sc_sizes connection)) body 0 (int (length body));
         w4 \<leftarrow> c_memcpy w3 (cb_header (sc_sizes connection) + length chunk) trailer 0 (int (length trailer));
         Some (Some (take (length header + length body + length trailer) w4, k1)) } }"

partial_function (option) schannel_send ::
  "('k, 's) schannel_env \<Rightarrow> bytes \<Rightarrow> bytes \<Rightarrow> 'k schannel_connection \<Rightarrow> 's \<Rightarrow> (int \<times> 'k schannel_connection \<times> 's) option"
where
  "schannel_send env wbuffer data connection s =
     (if data = [] then Some (PCLL_SUCCESS, connection, s)
      else do {
        r \<leftarrow> seal_record env wbuffer (take (cb_maximum (sc_sizes connection)) data) connection;
        case r of
          None \<Rightarrow> Some (PCLL_ERROR, connection, s)
        | Some (frame, k1) \<Rightarrow> do {
            (sent, s1) \<leftarrow> send_bytes env frame s;
            if \<not> sent then Some (PCLL_ERROR, connection\<lparr>sc_context := Some k1\<rparr>, s1)
            else schannel_send env wbuffer (drop (cb_maximum (sc_sizes connection)) data)
                   (connection\<lparr>sc_context := Some k1\<rparr>) s1 } })"

section \<open>Receiving\<close>

text \<open>Handing out \<open>n\<close> decrypted bytes that start at \<open>off\<close>: when none are left, the
  record they came from is removed from the front of the collected bytes.\<close>

definition take_decrypted :: "nat \<Rightarrow> nat \<Rightarrow> 'k schannel_connection \<Rightarrow> 'k schannel_connection option" where
  "take_decrypted n off connection =
     (if n = sc_available connection then
        (if sc_received connection < sc_used connection then None
         else do {
           c1 \<leftarrow> shift_incoming (sc_used connection) (sc_received connection - sc_used connection) connection;
           Some (c1\<lparr>sc_received := sc_received connection - sc_used connection, sc_used := 0, sc_available := 0,
                   sc_decrypted := None\<rparr>) })
      else Some (connection\<lparr>sc_available := sc_available connection - n, sc_decrypted := Some (off + n)\<rparr>))"

text \<open>What a turn without decrypted bytes decides: a message was decrypted, the call ends with a
  result, or more bytes are needed.\<close>

datatype 'k decrypt_turn =
    Decrypted "'k schannel_connection"
  | Ends int "'k schannel_connection"
  | Needs_more "'k schannel_connection"

definition decrypt_turn :: "('k, 's) schannel_env \<Rightarrow> nat \<Rightarrow> 'k schannel_connection \<Rightarrow> 'k decrypt_turn option" where
  "decrypt_turn env result connection =
     (if sc_received connection = 0 then Some (Needs_more connection)
      else do {
        k \<leftarrow> sc_context connection;
        case se_decrypt env k (take (sc_received connection) (sc_incoming connection)) of (a, k1) \<Rightarrow>
          let c1 = connection\<lparr>sc_context := Some k1\<rparr> in
          (case a of
             Dec_ok buffer off n extra \<Rightarrow> do {
               inc \<leftarrow> c_memcpy (sc_incoming connection) 0 buffer 0 (int (length buffer));
               if sc_received connection < (case extra of None \<Rightarrow> 0 | Some e \<Rightarrow> e) then None
               else Some (Decrypted (c1\<lparr>sc_incoming := inc, sc_decrypted := Some off, sc_available := n,
                      sc_used := sc_received connection - (case extra of None \<Rightarrow> 0 | Some e \<Rightarrow> e)\<rparr>)) }
           | Dec_context_expired \<Rightarrow> Some (Ends (int result) (c1\<lparr>sc_received := 0\<rparr>))
           | Dec_renegotiate \<Rightarrow> Some (Ends PCLL_ERROR c1)
           | Dec_incomplete \<Rightarrow> Some (Needs_more c1)
           | Dec_invalid \<Rightarrow> Some (Ends PCLL_ERROR c1)) })"

text \<open>\<open>data\<close> is the caller's buffer, \<open>pos\<close> the place of the next byte in it, \<open>len\<close>
  what is left to fill, \<open>result\<close> the number of bytes filled so far.\<close>

partial_function (option) recv_loop ::
  "('k, 's) schannel_env \<Rightarrow> bytes \<Rightarrow> nat \<Rightarrow> nat \<Rightarrow> nat \<Rightarrow> 'k schannel_connection \<Rightarrow> 's \<Rightarrow>
   (int \<times> bytes \<times> 'k schannel_connection \<times> 's) option"
where
  "recv_loop env data pos len result connection s =
     (if len = 0 then Some (int result, data, connection, s)
      else case sc_decrypted connection of
        Some off \<Rightarrow> do {
          data1 \<leftarrow> c_memcpy data pos (sc_incoming connection) off (int (min len (sc_available connection)));
          c1 \<leftarrow> take_decrypted (min len (sc_available connection)) off connection;
          recv_loop env data1 (pos + min len (sc_available connection)) (len - min len (sc_available connection))
            (result + min len (sc_available connection)) c1 s }
      | None \<Rightarrow> do {
          t \<leftarrow> decrypt_turn env result connection;
          case t of
            Decrypted c1 \<Rightarrow> recv_loop env data pos len result c1 s
          | Ends r c1 \<Rightarrow> Some (r, data, c1, s)
          | Needs_more c1 \<Rightarrow>
              if result \<noteq> 0 then Some (int result, data, c1, s)
              else if sc_received c1 = length (sc_incoming c1) then Some (PCLL_ERROR, data, c1, s)
              else (case se_recv env (length (sc_incoming c1) - sc_received c1) s of
                  (Recv_failed, s1) \<Rightarrow> Some (PCLL_ERROR, data, c1, s1)
                | (Recv_data bs, s1) \<Rightarrow>
                    if bs = [] then Some (PCLL_SUCCESS, data, c1, s1)
                    else do { c2 \<leftarrow> store_received bs c1; recv_loop env data pos len result c2 s1 }) })"

definition schannel_recv ::
  "('k, 's) schannel_env \<Rightarrow> bytes \<Rightarrow> nat \<Rightarrow> 'k schannel_connection \<Rightarrow> 's \<Rightarrow> (int \<times> bytes \<times> 'k schannel_connection \<times> 's) option"
where
  "schannel_recv env data len connection s = recv_loop env data 0 len 0 connection s"

section \<open>Closing\<close>

text \<open>The shutdown message is sent with one call whose result does not matter; then both
  handles are deleted.\<close>

definition schannel_shutdown ::
  "('k, 's) schannel_env \<Rightarrow> 'k schannel_connection \<Rightarrow> 's \<Rightarrow> ('k schannel_connection \<times> 's) option"
where
  "schannel_shutdown env connection s = do {
     k \<leftarrow> sc_context connection;
     case se_close env k of (a, k1) \<Rightarrow> do {
       let s1 = (if ia_status a = Init_ok then snd (se_send env (ia_token a) s) else s);
       c1 \<leftarrow> drop_context (connection\<lparr>sc_context := Some k1\<rparr>);
       Some (c1, s1) } }"

definition schannel_free :: "'k schannel_connection \<Rightarrow> 'k schannel_connection" where
  "schannel_free connection = connection\<lparr>sc_wsa := sc_wsa connection - 1\<rparr>"

section \<open>A stream of records\<close>

text \<open>
  What the documentation of the security package promises of messages: \<open>seal\<close> is what the
  peer does to a plain text of at most \<open>lim\<close> bytes in a state of the context; the result is decrypted, in place, to
  that text whatever follows it, and the number of bytes that follow is reported; a part of a
  message is reported as incomplete and changes nothing.
\<close>

definition record_layer :: "('k, 's) schannel_env \<Rightarrow> nat \<Rightarrow> ('k \<Rightarrow> bytes \<Rightarrow> bytes \<times> 'k) \<Rightarrow> bool" where
  "record_layer env lim seal \<longleftrightarrow> (\<forall>k p. length p \<le> lim \<longrightarrow> fst (seal k p) \<noteq> [] \<and>
     (\<forall>rest. \<exists>buffer off. se_decrypt env k (fst (seal k p) @ rest) =
         (Dec_ok buffer off (length p) (if rest = [] then None else Some (length rest)), snd (seal k p)) \<and>
       length buffer = length (fst (seal k p) @ rest) \<and> drop (length (fst (seal k p))) buffer = rest \<and>
       off + length p \<le> length (fst (seal k p)) \<and> take (length p) (drop off buffer) = p) \<and>
     (\<forall>x. strict_prefix x (fst (seal k p)) \<and> x \<noteq> [] \<longrightarrow> se_decrypt env k x = (Dec_incomplete, k)))"

text \<open>A stream socket: \<open>pending\<close> is what the peer has sent and was not received yet. A receive
  takes a part of it from the front, of any size, and an empty part only at its end.\<close>

definition stream_socket :: "('k, 's) schannel_env \<Rightarrow> ('s \<Rightarrow> bytes) \<Rightarrow> bool" where
  "stream_socket env pending \<longleftrightarrow> (\<forall>n s. 0 < n \<longrightarrow> (case se_recv env n s of
     (Recv_failed, s1) \<Rightarrow> False
   | (Recv_data bs, s1) \<Rightarrow> length bs \<le> n \<and> pending s = bs @ pending s1 \<and> (bs = [] \<longrightarrow> pending s = [])))"

fun frames :: "('k \<Rightarrow> bytes \<Rightarrow> bytes \<times> 'k) \<Rightarrow> 'k \<Rightarrow> bytes list \<Rightarrow> bytes" where
  "frames seal k [] = []"
| "frames seal k (p # ps) = fst (seal k p) @ frames seal (snd (seal k p)) ps"

fun frames_fit :: "('k \<Rightarrow> bytes \<Rightarrow> bytes \<times> 'k) \<Rightarrow> nat \<Rightarrow> nat \<Rightarrow> 'k \<Rightarrow> bytes list \<Rightarrow> bool" where
  "frames_fit seal lim n k [] \<longleftrightarrow> True"
| "frames_fit seal lim n k (p # ps) \<longleftrightarrow> length p \<le> lim \<and> length (fst (seal k p)) \<le> n \<and> frames_fit seal lim n (snd (seal k p)) ps"

text \<open>The plain text that a connection has still to deliver: what is decrypted, \<open>d\<close>, and
  the messages \<open>ps\<close> in the collected bytes and on the wire.\<close>

definition holds_stream ::
  "nat \<Rightarrow> ('k \<Rightarrow> bytes \<Rightarrow> bytes \<times> 'k) \<Rightarrow> ('s \<Rightarrow> bytes) \<Rightarrow> 'k \<Rightarrow> bytes list \<Rightarrow> bytes \<Rightarrow> 'k schannel_connection \<Rightarrow> 's \<Rightarrow> bool"
where
  "holds_stream lim seal pending k ps d c s \<longleftrightarrow> sc_context c = Some k \<and> sc_used c \<le> sc_received c \<and>
     sc_received c \<le> length (sc_incoming c) \<and> 0 < length (sc_incoming c) \<and> frames_fit seal lim (length (sc_incoming c)) k ps \<and>
     drop (sc_used c) (take (sc_received c) (sc_incoming c)) @ pending s = frames seal k ps \<and>
     (case sc_decrypted c of
        None \<Rightarrow> sc_used c = 0 \<and> d = []
      | Some off \<Rightarrow> sc_available c = length d \<and> off + length d \<le> length (sc_incoming c) \<and>
          take (length d) (drop off (sc_incoming c)) = d)"

definition undelivered ::
  "nat \<Rightarrow> ('k \<Rightarrow> bytes \<Rightarrow> bytes \<times> 'k) \<Rightarrow> ('s \<Rightarrow> bytes) \<Rightarrow> bytes \<Rightarrow> 'k schannel_connection \<Rightarrow> 's \<Rightarrow> bool"
where
  "undelivered lim seal pending plain c s \<longleftrightarrow>
     (\<exists>k ps d. holds_stream lim seal pending k ps d c s \<and> plain = d @ concat ps)"

lemma c_memcpy_int:
  "c_memcpy dst d src s (int n) = (if d + n \<le> length dst \<and> s + n \<le> length src
     then Some (take d dst @ take n (drop s src) @ drop (d + n) dst) else None)"
  by (simp add: c_memcpy_def)

lemma take_decrypted_step:
  assumes "holds_stream lim seal pending k ps d c s" and "sc_decrypted c = Some off" and "pos + n \<le> length data"
    and "n \<le> length d"
  obtains c1 where "c_memcpy data pos (sc_incoming c) off (int n) = Some (put_at data pos (take n d))"
    "take_decrypted n off c = Some c1" "holds_stream lim seal pending k ps (drop n d) c1 s"
    "n = length d \<Longrightarrow> sc_decrypted c1 = None"
proof -
  have h: "sc_available c = length d" "off + length d \<le> length (sc_incoming c)"
    "take (length d) (drop off (sc_incoming c)) = d" "sc_used c \<le> sc_received c" "sc_received c \<le> length (sc_incoming c)"
    using assms(1,2) by (simp_all add: holds_stream_def)
  have t: "take n (drop off (sc_incoming c)) = take n d"
    using arg_cong [OF h(3), of "take n"] assms(4) by (simp add: min_def)
  then have cp: "c_memcpy data pos (sc_incoming c) off (int n) = Some (put_at data pos (take n d))"
    using assms(3,4) h(2) by (simp add: c_memcpy_put_at)
  show ?thesis
  proof (cases "n = length d")
    case True
    let ?r = "sc_received c - sc_used c"
    let ?inc = "take ?r (drop (sc_used c) (sc_incoming c)) @ drop ?r (sc_incoming c)"
    let ?c = "c\<lparr>sc_incoming := ?inc, sc_received := ?r, sc_used := 0, sc_available := 0, sc_decrypted := None\<rparr>"
    have "take_decrypted n off c = Some ?c"
      using True h by (simp add: take_decrypted_def shift_incoming_def c_memcpy_int del: of_nat_diff)
    moreover have "take ?r ?inc = drop (sc_used c) (take (sc_received c) (sc_incoming c))" "length ?inc = length (sc_incoming c)"
      using h(4,5) by (simp_all add: drop_take)
    then have "holds_stream lim seal pending k ps (drop n d) ?c s"
      using assms(1) True h(5) unfolding holds_stream_def by simp
    ultimately show ?thesis using that cp by simp
  next
    case False
    let ?c = "c\<lparr>sc_available := length d - n, sc_decrypted := Some (off + n)\<rparr>"
    have "take_decrypted n off c = Some ?c" using False h by (simp add: take_decrypted_def)
    moreover have "take (length d - n) (drop (off + n) (sc_incoming c)) = drop n d"
      using arg_cong [OF h(3), of "drop n"] assms(4) by (simp add: drop_take add.commute)
    then have "holds_stream lim seal pending k ps (drop n d) ?c s"
      using assms h unfolding holds_stream_def by simp
    ultimately show ?thesis using that cp False by blast
  qed
qed

lemma prefix_cases: "x @ y = f @ z \<Longrightarrow> strict_prefix x f \<or> (\<exists>r. x = f @ r \<and> r @ y = z)"
  by (auto simp: append_eq_append_conv2 strict_prefix_def prefix_def)

lemma decrypt_step:
  assumes "record_layer env lim seal" and "holds_stream lim seal pending k ps d c s" and "sc_decrypted c = None" and "0 < sc_received c"
  obtains p ps' c1 where "ps = p # ps'" "decrypt_turn env result c = Some (Decrypted c1)"
      "holds_stream lim seal pending (snd (seal k p)) ps' p c1 s" "sc_decrypted c1 \<noteq> None"
  | p ps' where "ps = p # ps'" "decrypt_turn env result c = Some (Needs_more c)"
      "strict_prefix (take (sc_received c) (sc_incoming c)) (fst (seal k p))"
proof -
  let ?x = "take (sc_received c) (sc_incoming c)"
  have h: "sc_context c = Some k" "sc_received c \<le> length (sc_incoming c)" "0 < length (sc_incoming c)"
    "frames_fit seal lim (length (sc_incoming c)) k ps" "?x @ pending s = frames seal k ps"
    using assms(2,3) by (auto simp: holds_stream_def)
  have l: "length ?x = sc_received c" using h(2) by simp
  then have ne: "?x \<noteq> []" using assms(4) by auto
  then obtain p ps' where ps: "ps = p # ps'" using h(5) by (cases ps) auto
  then have lim: "length p \<le> lim" using h(4) by simp
  have "strict_prefix ?x (fst (seal k p)) \<or> (\<exists>r. ?x = fst (seal k p) @ r \<and> r @ pending s = frames seal (snd (seal k p)) ps')"
    using prefix_cases [of ?x "pending s" "fst (seal k p)" "frames seal (snd (seal k p)) ps'"] h(5) ps by simp
  then show ?thesis
  proof (elim disjE exE conjE)
    assume pre: "strict_prefix ?x (fst (seal k p))"
    then have "se_decrypt env k ?x = (Dec_incomplete, k)" using assms(1) ne lim unfolding record_layer_def by blast
    moreover have "c\<lparr>sc_context := Some k\<rparr> = c" using h(1) by simp
    ultimately have "decrypt_turn env result c = Some (Needs_more c)" using h(1) assms(4) by (simp add: decrypt_turn_def)
    then show ?thesis using that(2) ps pre by blast
  next
    fix r assume r: "?x = fst (seal k p) @ r" "r @ pending s = frames seal (snd (seal k p)) ps'"
    let ?n = "length (fst (seal k p))"
    obtain buffer off where dec: "se_decrypt env k (fst (seal k p) @ r) =
        (Dec_ok buffer off (length p) (if r = [] then None else Some (length r)), snd (seal k p))"
      "length buffer = length (fst (seal k p) @ r)" "drop ?n buffer = r" "off + length p \<le> ?n" "take (length p) (drop off buffer) = p"
      using assms(1) lim unfolding record_layer_def by blast
    have len: "sc_received c = ?n + length r" "length buffer = sc_received c" using l r(1) dec(2) by simp_all
    let ?inc = "buffer @ drop (sc_received c) (sc_incoming c)"
    let ?c = "c\<lparr>sc_context := Some (snd (seal k p)), sc_incoming := ?inc, sc_decrypted := Some off, sc_available := length p, sc_used := ?n\<rparr>"
    have d: "se_decrypt env k ?x = (Dec_ok buffer off (length p) (if r = [] then None else Some (length r)), snd (seal k p))"
      using dec(1) r(1) by simp
    have e: "(case (if r = [] then None else Some (length r)) of None \<Rightarrow> 0 | Some e \<Rightarrow> e) = length r" by simp
    have cp: "c_memcpy (sc_incoming c) 0 buffer 0 (int (length buffer)) = Some ?inc"
      using h(2) len(2) by (simp add: c_memcpy_int)
    have n: "\<not> sc_received c < length r" "sc_received c - length r = ?n" using len(1) by simp_all
    have "decrypt_turn env result c = Some (Decrypted ?c)"
      using h(1) assms(4) by (simp add: decrypt_turn_def d cp n e Let_def)
    moreover have "drop ?n (take (sc_received c) ?inc) = r" "length ?inc = length (sc_incoming c)" "take (length p) (drop off ?inc) = p"
      using dec len h(2) by simp_all
    then have "holds_stream lim seal pending (snd (seal k p)) ps' p ?c s"
      using assms(2) ps r(2) len dec(4) unfolding holds_stream_def by simp
    ultimately show ?thesis using that(1) ps by simp
  qed
qed

lemma recv_step:
  assumes "stream_socket env pending" and "holds_stream lim seal pending k ps d c s" and "sc_decrypted c = None"
    and "sc_received c < length (sc_incoming c)"
  obtains s1 where "se_recv env (length (sc_incoming c) - sc_received c) s = (Recv_data [], s1)" "pending s = []"
      "holds_stream lim seal pending k ps d c s1"
  | bs s1 c1 where "se_recv env (length (sc_incoming c) - sc_received c) s = (Recv_data bs, s1)" "bs \<noteq> []"
      "store_received bs c = Some c1" "holds_stream lim seal pending k ps d c1 s1" "sc_decrypted c1 = None"
      "length (pending s1) < length (pending s)"
proof -
  let ?m = "length (sc_incoming c) - sc_received c"
  have law: "case se_recv env ?m s of (Recv_failed, s1) \<Rightarrow> False
    | (Recv_data bs, s1) \<Rightarrow> length bs \<le> ?m \<and> pending s = bs @ pending s1 \<and> (bs = [] \<longrightarrow> pending s = [])"
    using assms(1,4) unfolding stream_socket_def by simp
  obtain a s1 where a: "se_recv env ?m s = (a, s1)" by (cases "se_recv env ?m s")
  obtain bs where bs: "a = Recv_data bs" using law a by (cases a) simp_all
  have "length bs \<le> ?m \<and> pending s = bs @ pending s1 \<and> (bs = [] \<longrightarrow> pending s = [])"
    using law unfolding a bs prod.case recv_answer.case .
  moreover have "se_recv env ?m s = (Recv_data bs, s1)" using a bs by simp
  ultimately have r: "se_recv env ?m s = (Recv_data bs, s1)" "length bs \<le> ?m" "pending s = bs @ pending s1" "bs = [] \<Longrightarrow> pending s = []"
    by blast+
  show ?thesis
  proof (cases "bs = []")
    case True
    then have "pending s1 = pending s" using r(3) by (metis append_Nil)
    then have "holds_stream lim seal pending k ps d c s1" using assms(2) by (simp add: holds_stream_def)
    show ?thesis by (rule that(1)) (use r(1,4) True \<open>holds_stream lim seal pending k ps d c s1\<close> in simp_all)
  next
    case False
    let ?inc = "take (sc_received c) (sc_incoming c) @ bs @ drop (sc_received c + length bs) (sc_incoming c)"
    let ?c = "c\<lparr>sc_incoming := ?inc, sc_received := sc_received c + length bs\<rparr>"
    have l: "sc_received c + length bs \<le> length (sc_incoming c)" using r(2) assms(4) by simp
    then have "store_received bs c = Some ?c" by (simp add: store_received_def c_memcpy_int)
    moreover have "take (sc_received c + length bs) ?inc = take (sc_received c) (sc_incoming c) @ bs"
      "length ?inc = length (sc_incoming c)" using l by simp_all
    then have "holds_stream lim seal pending k ps d ?c s1"
      using assms(2,3) l r(3) unfolding holds_stream_def by auto
    ultimately show ?thesis using that(2) [OF r(1) False] assms(3) r(3) False by simp
  qed
qed

definition stream_measure :: "('s \<Rightarrow> bytes) \<Rightarrow> bytes list \<Rightarrow> 'k schannel_connection \<Rightarrow> 's \<Rightarrow> nat" where
  "stream_measure pending ps c s = 2 * length ps + (if sc_decrypted c = None then 0 else 1) + length (pending s)"

text \<open>\<open>delivered plain len result r\<close>: the call has returned \<open>r\<close> with the first \<open>n\<close>
  bytes of the plain text, and the connection still holds the rest.\<close>

definition delivered ::
  "nat \<Rightarrow> ('k \<Rightarrow> bytes \<Rightarrow> bytes \<times> 'k) \<Rightarrow> ('s \<Rightarrow> bytes) \<Rightarrow> bytes \<Rightarrow> nat \<Rightarrow> bytes \<Rightarrow> nat \<Rightarrow> nat \<Rightarrow>
   (int \<times> bytes \<times> 'k schannel_connection \<times> 's) option \<Rightarrow> bool"
where
  "delivered lim seal pending data pos plain len result r \<longleftrightarrow> (\<exists>n c s. r = Some (int (result + n), put_at data pos (take n plain), c, s) \<and>
     n \<le> len \<and> n \<le> length plain \<and> undelivered lim seal pending (drop n plain) c s \<and> (result + n = 0 \<longrightarrow> len = 0 \<or> plain = []))"

lemma deliveredI:
  "r = Some (int result, data, c, s) \<Longrightarrow> undelivered lim seal pending plain c s \<Longrightarrow> result = 0 \<longrightarrow> len = 0 \<or> plain = [] \<Longrightarrow>
   delivered lim seal pending data pos plain len result r"
  unfolding delivered_def by (intro exI [of _ 0] exI [of _ c] exI [of _ s]) simp

lemma delivered_more:
  assumes "delivered lim seal pending (put_at data pos (take n plain)) (pos + n) (drop n plain) (len - n) (result + n) r"
    and "n \<le> len" and "n \<le> length plain" and "pos + len \<le> length data" and "n = 0 \<longrightarrow> len = 0 \<or> drop n plain = plain"
  shows "delivered lim seal pending data pos plain len result r"
proof -
  obtain m c s where r: "r = Some (int (result + n + m), put_at (put_at data pos (take n plain)) (pos + n) (take m (drop n plain)), c, s)"
    "m \<le> len - n" "m \<le> length (drop n plain)" "undelivered lim seal pending (drop m (drop n plain)) c s"
    "result + n + m = 0 \<longrightarrow> len - n = 0 \<or> drop n plain = []"
    using assms(1) unfolding delivered_def by blast
  have "put_at (put_at data pos (take n plain)) (pos + length (take n plain)) (take m (drop n plain)) =
      put_at data pos (take n plain @ take m (drop n plain))"
    by (rule put_at_append) (use assms(2-4) r(2,3) in simp)
  moreover have "length (take n plain) = n" using assms(3) by simp
  ultimately have "put_at (put_at data pos (take n plain)) (pos + n) (take m (drop n plain)) = put_at data pos (take (n + m) plain)"
    by (simp only: take_add)
  then show ?thesis
    unfolding delivered_def using r assms(2,3) by (intro exI [of _ "n + m"] exI [of _ c] exI [of _ s]) (auto simp: add.commute add.assoc)
qed

lemma recv_loop_delivers:
  assumes "record_layer env lim seal" and "stream_socket env pending" and "holds_stream lim seal pending k ps d c s"
    and "pos + len \<le> length data"
  shows "delivered lim seal pending data pos (d @ concat ps) len result (recv_loop env data pos len result c s)"
  using assms(3,4)
proof (induction "stream_measure pending ps c s" arbitrary: k ps d c s data pos len result rule: less_induct)
  case less
  have und: "undelivered lim seal pending (d @ concat ps) c s" using less.prems(1) unfolding undelivered_def by blast
  show ?case
  proof (cases "len = 0")
    case True
    then show ?thesis using und by (intro deliveredI) (simp_all add: recv_loop.simps)
  next
    case len: False
    show ?thesis
    proof (cases "sc_decrypted c")
      case (Some off)
      let ?n = "min len (length d)"
      have avail: "sc_available c = length d" using less.prems(1) Some by (simp add: holds_stream_def)
      have fit: "pos + ?n \<le> length data" using less.prems(2) by simp
      obtain c1 where c1: "c_memcpy data pos (sc_incoming c) off (int ?n) = Some (put_at data pos (take ?n d))"
          "take_decrypted ?n off c = Some c1" "holds_stream lim seal pending k ps (drop ?n d) c1 s" "?n = length d \<Longrightarrow> sc_decrypted c1 = None"
        by (rule take_decrypted_step [OF less.prems(1) Some fit]) auto
      have step: "recv_loop env data pos len result c s =
          recv_loop env (put_at data pos (take ?n d)) (pos + ?n) (len - ?n) (result + ?n) c1 s"
        by (subst recv_loop.simps) (simp add: len Some avail c1(1,2))
      have t: "take ?n (d @ concat ps) = take ?n d" "drop ?n (d @ concat ps) = drop ?n d @ concat ps" by simp_all
      have "delivered lim seal pending (put_at data pos (take ?n d)) (pos + ?n) (drop ?n d @ concat ps) (len - ?n) (result + ?n)
          (recv_loop env (put_at data pos (take ?n d)) (pos + ?n) (len - ?n) (result + ?n) c1 s)"
      proof (cases "?n = length d")
        case True
        show ?thesis
          by (rule less.hyps [OF _ c1(3)]) (use c1(4) [OF True] Some fit less.prems(2) in \<open>auto simp: stream_measure_def\<close>)
      next
        case False
        then have z: "len - ?n = 0" "0 < ?n" using len by auto
        have "undelivered lim seal pending (drop ?n d @ concat ps) c1 s" using c1(3) unfolding undelivered_def by blast
        then show ?thesis using z by (intro deliveredI) (simp_all add: recv_loop.simps)
      qed
      then show ?thesis unfolding step t(1) [symmetric] t(2) [symmetric]
        by (rule delivered_more) (use less.prems(2) in auto)
    next
      case None
      then have d: "d = []" using less.prems(1) by (simp add: holds_stream_def)
      have finish: ?thesis if turn: "decrypt_turn env result c = Some (Needs_more c)"
        and small: "sc_received c < length (sc_incoming c)" and part: "pending s = [] \<Longrightarrow> ps = []"
      proof (cases "result = 0")
        case False
        have "recv_loop env data pos len result c s = Some (int result, data, c, s)"
          by (subst recv_loop.simps) (simp add: len None turn False)
        then show ?thesis by (rule deliveredI [OF _ und]) (simp add: False)
      next
        case True
        then have turn0: "decrypt_turn env 0 c = Some (Needs_more c)" using turn by simp
        show ?thesis
        proof (rule recv_step [OF assms(2) less.prems(1) None small])
          fix s1 assume s1: "se_recv env (length (sc_incoming c) - sc_received c) s = (Recv_data [], s1)" "pending s = []"
            "holds_stream lim seal pending k ps d c s1"
          have "recv_loop env data pos len result c s = Some (int result, data, c, s1)"
            by (subst recv_loop.simps) (use small in \<open>simp add: len None turn0 True s1(1) PCLL_SUCCESS_def\<close>)
          moreover have "undelivered lim seal pending (d @ concat ps) c s1" using s1(3) unfolding undelivered_def by blast
          ultimately show ?thesis by (rule deliveredI) (simp add: part [OF s1(2)] d)
        next
          fix bs s1 c1 assume c1: "se_recv env (length (sc_incoming c) - sc_received c) s = (Recv_data bs, s1)" "bs \<noteq> []"
            "store_received bs c = Some c1" "holds_stream lim seal pending k ps d c1 s1" "sc_decrypted c1 = None"
            "length (pending s1) < length (pending s)"
          have "recv_loop env data pos len result c s = recv_loop env data pos len result c1 s1"
            by (subst recv_loop.simps) (use small in \<open>simp add: len None turn0 True c1(1-3)\<close>)
          then show ?thesis
            using less.hyps [OF _ c1(4) less.prems(2), of result] c1(5,6) None by (simp add: stream_measure_def)
        qed
      qed
      show ?thesis
      proof (cases "sc_received c = 0")
        case True
        have e: "drop (sc_used c) (take (sc_received c) (sc_incoming c)) @ pending s = frames seal k ps" "0 < length (sc_incoming c)"
          "frames_fit seal lim (length (sc_incoming c)) k ps"
          using less.prems(1) by (auto simp: holds_stream_def)
        have "ps = []" if "pending s = []"
        proof (rule ccontr)
          assume "ps \<noteq> []"
          then obtain p ps' where "ps = p # ps'" by (cases ps) auto
          then show False using e(1,3) True that assms(1) by (auto simp: record_layer_def)
        qed
        then show ?thesis using True e(2) by (intro finish) (simp_all add: decrypt_turn_def)
      next
        case False
        then have pos: "0 < sc_received c" by simp
        show ?thesis
        proof (rule decrypt_step [OF assms(1) less.prems(1) None pos, of result])
          fix p ps' c1 assume c1: "ps = p # ps'" "decrypt_turn env result c = Some (Decrypted c1)"
            "holds_stream lim seal pending (snd (seal k p)) ps' p c1 s" "sc_decrypted c1 \<noteq> None"
          have "recv_loop env data pos len result c s = recv_loop env data pos len result c1 s"
            by (subst recv_loop.simps) (simp add: len None c1(2))
          then show ?thesis
            using less.hyps [OF _ c1(3) less.prems(2), of result] c1(1,4) None d by (simp add: stream_measure_def)
        next
          fix p ps' assume p: "ps = p # ps'" "decrypt_turn env result c = Some (Needs_more c)"
            "strict_prefix (take (sc_received c) (sc_incoming c)) (fst (seal k p))"
          have h: "length (fst (seal k p)) \<le> length (sc_incoming c)" "sc_received c \<le> length (sc_incoming c)"
            "take (sc_received c) (sc_incoming c) @ pending s = frames seal k ps"
            using less.prems(1) p(1) None by (auto simp: holds_stream_def)
          have "sc_received c < length (fst (seal k p))" using prefix_length_less [OF p(3)] h(2) by simp
          moreover have "pending s \<noteq> []" using h(3) p(1,3) by (auto simp: strict_prefix_def prefix_def)
          ultimately show ?thesis using h(1) p(2) by (intro finish) auto
        qed
      qed
    qed
  qed
qed

section \<open>Sending a stream\<close>

text \<open>The sender's side of the same messages: \<^verbatim>\<open>EncryptMessage\<close> fills the header it was
  given room for, keeps the length of the data, and uses at most the room of the trailer.\<close>

definition sender_layer :: "('k, 's) schannel_env \<Rightarrow> stream_sizes \<Rightarrow> ('k \<Rightarrow> bytes \<Rightarrow> bytes \<times> 'k) \<Rightarrow> bool" where
  "sender_layer env sizes seal \<longleftrightarrow> (\<forall>k p. length p \<le> cb_maximum sizes \<longrightarrow> (\<exists>h b t.
     se_encrypt env k p = Some (h, b, t, snd (seal k p)) \<and> h @ b @ t = fst (seal k p) \<and>
     length h = cb_header sizes \<and> length b = length p \<and> length t \<le> cb_trailer sizes))"

definition sink_socket :: "('k, 's) schannel_env \<Rightarrow> ('s \<Rightarrow> bytes) \<Rightarrow> bool" where
  "sink_socket env sent \<longleftrightarrow> (\<forall>bs s. bs \<noteq> [] \<longrightarrow> (case se_send env bs s of (ret, s1) \<Rightarrow>
     0 < ret \<and> ret \<le> int (length bs) \<and> sent s1 = sent s @ take (nat ret) bs))"

function chunks :: "nat \<Rightarrow> bytes \<Rightarrow> bytes list" where
  "chunks n xs = (if xs = [] \<or> n = 0 then [] else take n xs # chunks n (drop n xs))"
  by pat_completeness auto
termination
  by (relation "measure (\<lambda>(n, xs). length xs)") auto

declare chunks.simps [simp del]

lemma concat_chunks: "0 < n \<Longrightarrow> concat (chunks n xs) = xs"
proof (induction n xs rule: chunks.induct)
  case (1 n xs)
  then show ?case by (subst chunks.simps) (cases "xs = []", simp_all)
qed

lemma chunks_fit:
  assumes "\<And>k p. length p \<le> lim \<Longrightarrow> length (fst (seal k p)) \<le> m" and "n \<le> lim"
  shows "frames_fit seal lim m k (chunks n xs)"
  using assms(2)
proof (induction n xs arbitrary: k rule: chunks.induct)
  case (1 n xs)
  have "length (take n xs) \<le> lim" using "1.prems" by simp
  then show ?case using assms(1) [of "take n xs"] 1 by (subst chunks.simps) simp
qed

lemma send_bytes_all:
  assumes "sink_socket env sent"
  shows "\<exists>s1. send_bytes env bs s = Some (True, s1) \<and> sent s1 = sent s @ bs"
proof (induction "length bs" arbitrary: bs s rule: less_induct)
  case less
  show ?case
  proof (cases "bs = []")
    case True
    then show ?thesis by (simp add: send_bytes.simps [of env "[]"])
  next
    case False
    obtain ret s1 where r: "se_send env bs s = (ret, s1)" by (cases "se_send env bs s")
    have "case se_send env bs s of (ret, s1) \<Rightarrow> 0 < ret \<and> ret \<le> int (length bs) \<and> sent s1 = sent s @ take (nat ret) bs"
      by (rule assms [unfolded sink_socket_def, rule_format, OF False])
    then have l: "0 < ret" "ret \<le> int (length bs)" "sent s1 = sent s @ take (nat ret) bs"
      unfolding r prod.case by blast+
    have "length (drop (nat ret) bs) < length bs" using l(1) False by simp
    then obtain s2 where s2: "send_bytes env (drop (nat ret) bs) s1 = Some (True, s2)" "sent s2 = sent s1 @ drop (nat ret) bs"
      using less [of "drop (nat ret) bs" s1] by blast
    have "send_bytes env bs s = send_bytes env (drop (nat ret) bs) s1"
      by (subst send_bytes.simps) (use l(1,2) in \<open>simp add: False r\<close>)
    moreover have "sent s2 = sent s @ bs" using s2(2) l(3) by simp
    ultimately show ?thesis using s2(1) by simp
  qed
qed

lemma seal_record_frame:
  assumes "sender_layer env (sc_sizes c) seal" and "sc_context c = Some k" and "length chunk \<le> cb_maximum (sc_sizes c)"
    and "cb_header (sc_sizes c) + length chunk + cb_trailer (sc_sizes c) \<le> length wbuffer"
  shows "seal_record env wbuffer chunk c = Some (Some (seal k chunk))"
proof -
  let ?n = "cb_header (sc_sizes c)"
  obtain h b t where e: "se_encrypt env k chunk = Some (h, b, t, snd (seal k chunk))" "h @ b @ t = fst (seal k chunk)"
    "length h = ?n" "length b = length chunk" "length t \<le> cb_trailer (sc_sizes c)"
    using assms(1,3) unfolding sender_layer_def by blast
  let ?w1 = "take ?n wbuffer @ chunk @ drop (?n + length chunk) wbuffer"
  let ?w2 = "h @ chunk @ drop (?n + length chunk) wbuffer"
  let ?w3 = "h @ b @ drop (?n + length chunk) wbuffer"
  let ?w4 = "h @ b @ t @ drop (?n + length chunk + length t) wbuffer"
  have l: "?n + length chunk \<le> length wbuffer" "?n + length chunk + length t \<le> length wbuffer" using assms(4) e(5) by simp_all
  have w1: "c_memcpy wbuffer ?n chunk 0 (int (length chunk)) = Some ?w1" using l(1) by (simp add: c_memcpy_int)
  have w2: "c_memcpy ?w1 0 h 0 (int (length h)) = Some ?w2" using l(1) e(3) by (simp add: c_memcpy_int)
  have w3: "c_memcpy ?w2 ?n b 0 (int (length b)) = Some ?w3" using l(1) e(3,4) by (simp add: c_memcpy_int)
  have w4: "c_memcpy ?w3 (?n + length chunk) t 0 (int (length t)) = Some ?w4"
    using l(2) e(3,4) by (simp add: c_memcpy_int ac_simps)
  have c: "take (length chunk) (drop ?n ?w1) = chunk" using l(1) by simp
  have f: "take (length h + length b + length t) ?w4 = h @ b @ t" by simp
  show ?thesis
    by (simp only: seal_record_def assms(2) Option.bind.simps w1 c e(1) option.case prod.case w2 w3 w4 f e(2) prod.collapse)
qed

lemma schannel_send_all:
  assumes "sender_layer env sizes seal" and "sink_socket env sent" and "0 < cb_maximum sizes"
    and "cb_header sizes + cb_maximum sizes + cb_trailer sizes \<le> length wbuffer"
    and "sc_context c = Some k" and "sc_sizes c = sizes"
  shows "\<exists>c' s'. schannel_send env wbuffer data c s = Some (PCLL_SUCCESS, c', s') \<and>
    sent s' = sent s @ frames seal k (chunks (cb_maximum sizes) data)"
  using assms(5,6)
proof (induction "length data" arbitrary: data c k s rule: less_induct)
  case less
  show ?case
  proof (cases "data = []")
    case True
    then show ?thesis by (subst schannel_send.simps) (simp add: chunks.simps)
  next
    case False
    let ?m = "cb_maximum sizes" let ?p = "take ?m data" let ?c = "c\<lparr>sc_context := Some (snd (seal k ?p))\<rparr>"
    have r: "seal_record env wbuffer ?p c = Some (Some (seal k ?p))"
      by (rule seal_record_frame) (use assms(1,4) less.prems in simp_all)
    obtain s1 where s1: "send_bytes env (fst (seal k ?p)) s = Some (True, s1)" "sent s1 = sent s @ fst (seal k ?p)"
      using send_bytes_all [OF assms(2)] by blast
    obtain c' s' where ih: "schannel_send env wbuffer (drop ?m data) ?c s1 = Some (PCLL_SUCCESS, c', s')"
        "sent s' = sent s1 @ frames seal (snd (seal k ?p)) (chunks ?m (drop ?m data))"
      using less.hyps [of "drop ?m data" ?c "snd (seal k ?p)" s1] False assms(3) less.prems by auto
    obtain fr k1 where sk: "seal k ?p = (fr, k1)" by (cases "seal k ?p")
    have "schannel_send env wbuffer data c s = schannel_send env wbuffer (drop ?m data) ?c s1"
      using r s1(1) by (subst schannel_send.simps) (simp add: False less.prems(2) sk)
    moreover have "chunks ?m data = ?p # chunks ?m (drop ?m data)"
      using False assms(3) by (subst chunks.simps) simp
    ultimately show ?thesis using ih s1(2) by simp
  qed
qed

section \<open>Properties\<close>

text \<open>Any number of receives, and what they put together.\<close>

fun recv_all ::
  "('k, 's) schannel_env \<Rightarrow> bytes \<Rightarrow> nat \<Rightarrow> nat \<Rightarrow> 'k schannel_connection \<Rightarrow> 's \<Rightarrow> (bytes \<times> 'k schannel_connection \<times> 's) option"
where
  "recv_all env data len 0 c s = Some ([], c, s)"
| "recv_all env data len (Suc m) c s = do {
     (r, data1, c1, s1) \<leftarrow> schannel_recv env data len c s;
     if r < 0 then None
     else do {
       (rest, c2, s2) \<leftarrow> recv_all env data1 len m c1 s1;
       Some (take (nat r) data1 @ rest, c2, s2) } }"

lemma recv_delivers:
  assumes "record_layer env lim seal" and "stream_socket env pending" and "undelivered lim seal pending plain c s"
    and "len \<le> length data"
  shows "\<exists>n c' s'. schannel_recv env data len c s = Some (int n, take n plain @ drop n data, c', s') \<and> n \<le> len \<and>
    n \<le> length plain \<and> undelivered lim seal pending (drop n plain) c' s' \<and> (n = 0 \<longrightarrow> len = 0 \<or> plain = [])"
proof -
  obtain k ps d where h: "holds_stream lim seal pending k ps d c s" "plain = d @ concat ps"
    using assms(3) unfolding undelivered_def by blast
  have "delivered lim seal pending data 0 plain len 0 (recv_loop env data 0 len 0 c s)"
    unfolding h(2) by (rule recv_loop_delivers [OF assms(1,2) h(1)]) (simp add: assms(4))
  then show ?thesis by (auto simp: delivered_def schannel_recv_def put_at_def)
qed

lemma recv_all_delivers:
  assumes "record_layer env lim seal" and "stream_socket env pending" and "undelivered lim seal pending plain c s"
    and "len \<le> length data" and "0 < len" and "length plain \<le> m"
  shows "\<exists>c' s'. recv_all env data len m c s = Some (plain, c', s')"
  using assms(3,4,6)
proof (induction m arbitrary: plain c s data)
  case 0
  then show ?case by simp
next
  case (Suc m)
  obtain n c1 s1 where r: "schannel_recv env data len c s = Some (int n, take n plain @ drop n data, c1, s1)" "n \<le> len"
    "n \<le> length plain" "undelivered lim seal pending (drop n plain) c1 s1" "n = 0 \<longrightarrow> len = 0 \<or> plain = []"
    using recv_delivers [OF assms(1,2) Suc.prems(1,2)] by blast
  have "length (drop n plain) \<le> m" using r(3,5) Suc.prems(3) assms(5) by (cases "n = 0") auto
  moreover have "len \<le> length (take n plain @ drop n data)" using r(2,3) Suc.prems(2) by simp
  ultimately obtain c' s' where "recv_all env (take n plain @ drop n data) len m c1 s1 = Some (drop n plain, c', s')"
    using Suc.IH [OF r(4)] by blast
  then show ?case using r(1,3) by simp
qed

text \<open>C19: A receive on a stream of records, however the network cuts it into pieces, returns without
  a trap and without looping; it hands out the next part of the plain text, in order, never
  more than was asked for, and it returns 0 only when the peer has closed and everything was
  handed out. What is left, decrypted or not, stays for the next call.\<close>
theorem schannel_recv_stream:
  assumes "record_layer env lim seal" and "stream_socket env pending" and "undelivered lim seal pending plain c s"
    and "len \<le> length data"
  shows "\<exists>n c' s'. schannel_recv env data len c s = Some (int n, take n plain @ drop n data, c', s') \<and> n \<le> len \<and>
    n \<le> length plain \<and> undelivered lim seal pending (drop n plain) c' s' \<and> (n = 0 \<longrightarrow> len = 0 \<or> plain = [])"
  by (rule recv_delivers [OF assms])

definition fresh_schannel :: "'k \<Rightarrow> stream_sizes \<Rightarrow> nat \<Rightarrow> 'k schannel_connection" where
  "fresh_schannel k sizes n = \<lparr>sc_hostname = ''peer'', sc_received = 0, sc_available = 0, sc_used = 0, sc_decrypted = None,
     sc_incoming = replicate n NUL, sc_sizes = sizes, sc_context = Some k, sc_handle = True, sc_wsa = 1\<rparr>"

text \<open>C18: What one side sends with \<^verbatim>\<open>pcll_send\<close> is what the other receives: data of any
  length is cut into records that fit the buffer of the sender, all of it is put on the wire,
  and enough receives with a buffer of any size return exactly that data, whatever pieces the
  network delivers. The two sides must agree on the messages and be in the same state.\<close>
theorem schannel_roundtrip:
  assumes "sender_layer env sizes seal" and "sink_socket env sent" and "0 < cb_maximum sizes"
    and "cb_header sizes + cb_maximum sizes + cb_trailer sizes \<le> n" and "n \<le> length wbuffer"
    and "record_layer env' (cb_maximum sizes) seal" and "stream_socket env' pending" and "0 < len" and "len \<le> length buf"
    and "length data \<le> m" and "sent s = []"
  shows "\<exists>c' s'. schannel_send env wbuffer data (fresh_schannel k sizes n) s = Some (PCLL_SUCCESS, c', s') \<and>
    (pending t = sent s' \<longrightarrow> (\<exists>c'' t'. recv_all env' buf len m (fresh_schannel k sizes n) t = Some (data, c'', t')))"
proof -
  let ?c = "fresh_schannel k sizes n" let ?ps = "chunks (cb_maximum sizes) data"
  have w: "cb_header sizes + cb_maximum sizes + cb_trailer sizes \<le> length wbuffer" using assms(4,5) by linarith
  have c: "sc_context ?c = Some k" "sc_sizes ?c = sizes" by (simp_all add: fresh_schannel_def)
  obtain c' s' where send: "schannel_send env wbuffer data ?c s = Some (PCLL_SUCCESS, c', s')" "sent s' = frames seal k ?ps"
    using schannel_send_all [OF assms(1-3) w c, of data s] assms(11) by auto
  have "length (fst (seal k p)) \<le> n" if l: "length p \<le> cb_maximum sizes" for k p
  proof -
    obtain h b t where "h @ b @ t = fst (seal k p)" "length h = cb_header sizes" "length b = length p" "length t \<le> cb_trailer sizes"
      using assms(1) l unfolding sender_layer_def by blast
    then have "length (fst (seal k p)) \<le> cb_header sizes + length p + cb_trailer sizes"
      by (metis add.assoc add_left_mono length_append)
    then show ?thesis using l assms(4) by linarith
  qed
  then have fit: "frames_fit seal (cb_maximum sizes) n k ?ps" by (rule chunks_fit) simp_all
  have "undelivered (cb_maximum sizes) seal pending data ?c t" if p: "pending t = sent s'"
  proof -
    have "holds_stream (cb_maximum sizes) seal pending k ?ps [] ?c t"
      using fit p send(2) assms(3,4) by (simp add: holds_stream_def fresh_schannel_def)
    then show ?thesis unfolding undelivered_def using concat_chunks [OF assms(3), of data] by fastforce
  qed
  then show ?thesis
    using send(1) recv_all_delivers [OF assms(6,7) _ assms(9,8,10)] by blast
qed

text \<open>A record that does not fit the buffer on the stack is copied behind its end: nothing compares
  the sizes of the security package with the size of the buffer.\<close>
theorem schannel_send_overrun:
  assumes "data \<noteq> []" and "length wbuffer < cb_header (sc_sizes c) + min (length data) (cb_maximum (sc_sizes c))"
  shows "schannel_send env wbuffer data c s = None"
proof -
  have "seal_record env wbuffer (take (cb_maximum (sc_sizes c)) data) c = None"
    using assms(2) by (auto simp: seal_record_def c_memcpy_int split: bind_splits)
  then show ?thesis using assms(1) by (subst schannel_send.simps) simp
qed

text \<open>A record larger than the buffer of the connection can never be received: once the buffer is
  full and the message still incomplete, every receive fails.\<close>
theorem schannel_recv_too_large:
  assumes "sc_decrypted c = None" and "sc_received c = length (sc_incoming c)" and "sc_incoming c \<noteq> []"
    and "sc_context c = Some k" and "se_decrypt env k (sc_incoming c) = (Dec_incomplete, k)" and "0 < len"
  shows "schannel_recv env data len c s = Some (PCLL_ERROR, data, c, s)"
proof -
  have "c\<lparr>sc_context := Some k\<rparr> = c" using assms(4) by simp
  then have "decrypt_turn env 0 c = Some (Needs_more c)" using assms(2-5) by (simp add: decrypt_turn_def)
  then show ?thesis using assms(1,2,6) unfolding schannel_recv_def by (subst recv_loop.simps) simp
qed

section \<open>The handshake\<close>

text \<open>A handshake message that arrives in two pieces loses the first: when the package reports the
  collected bytes as incomplete, the turn drops them all, although they must be kept, and goes
  on with only the bytes received next.\<close>
theorem schannel_connect_loses_part:
  assumes "sc_context c = Some k" and "se_init env (Some k) None (take (sc_received c) (sc_incoming c)) =
      (\<lparr>ia_status = Init_incomplete_message, ia_extra = None, ia_token = []\<rparr>, Some k)"
    and "se_recv env (length (sc_incoming c)) s = (Recv_data bs, s1)" and "bs \<noteq> []" and "length bs \<le> length (sc_incoming c)"
  shows "\<exists>c1. connect_loop env True c s = connect_loop env True c1 s1 \<and>
    take (sc_received c1) (sc_incoming c1) = bs"
proof -
  let ?c = "c\<lparr>sc_context := Some k, sc_received := 0\<rparr>"
  let ?c1 = "?c\<lparr>sc_incoming := bs @ drop (length bs) (sc_incoming c), sc_received := length bs\<rparr>"
  have turn: "connect_turn env True c s = Some (Inr (?c, s))"
    using assms(1,2) by (simp add: connect_turn_def keep_extra_def)
  have "sc_incoming c \<noteq> []" using assms(4,5) by auto
  then have recv: "connect_recv env ?c s = Some (Inr (?c1, s1))"
    using assms(3-5) by (simp add: connect_recv_def store_received_def c_memcpy_int)
  have "connect_loop env True c s = connect_loop env True ?c1 s1"
    by (subst connect_loop.simps) (simp add: turn recv)
  then show ?thesis by (intro exI [of _ ?c1]) simp
qed

text \<open>A peer that closes during the handshake makes \<^verbatim>\<open>pcll_connect\<close> report success: the
  first token was sent, nothing came back, and the connection is handed out without the sizes
  that sending needs.\<close>
theorem schannel_connect_closed:
  assumes "se_init env None (Some (sc_hostname c)) [] = (\<lparr>ia_status = Init_continue, ia_extra = x, ia_token = token\<rparr>, Some k)"
    and "send_bytes env token s = Some (True, s1)" and "sc_incoming c \<noteq> []"
    and "se_recv env (length (sc_incoming c)) s1 = (Recv_data [], s2)"
  shows "\<exists>c1. schannel_connect env c s = Some (PCLL_SUCCESS, c1, s2) \<and> sc_sizes c1 = sc_sizes c"
proof -
  let ?c = "c\<lparr>sc_context := Some k, sc_received := 0\<rparr>"
  have turn: "connect_turn env False c s = Some (Inr (?c, s1))"
    using assms(1,2) by (simp add: connect_turn_def keep_extra_def)
  have recv: "connect_recv env ?c s1 = Some (Inl (PCLL_SUCCESS, ?c, s2))"
    using assms(3,4) by (simp add: connect_recv_def)
  have "schannel_connect env c s = Some (PCLL_SUCCESS, ?c, s2)"
    unfolding schannel_connect_def by (subst connect_loop.simps) (simp add: turn recv)
  then show ?thesis by (intro exI [of _ ?c]) simp
qed

lemma PCLL_codes [simp]: "PCLL_SUCCESS \<noteq> PCLL_ERROR" "PCLL_ERROR \<noteq> PCLL_SUCCESS"
  by (simp_all add: PCLL_SUCCESS_def PCLL_ERROR_def)

text \<open>
  What the handshake relies on. The security package: a first call creates a context unless it
  fails, and cannot lack input, as it gets none; a later call keeps the context and reports at
  most what it was given as unused. The peer: \<open>budget\<close> bounds the bytes it will still
  deliver, whatever is sent to it, and a receive may fail at any time. The socket: a send
  accepts at most what it is offered, or fails.
\<close>

definition security_package :: "('k, 's) schannel_env \<Rightarrow> bool" where
  "security_package env \<longleftrightarrow>
     (\<forall>host. case se_init env None (Some host) [] of (a, k) \<Rightarrow>
        ia_status a \<noteq> Init_incomplete_message \<and> (k = None \<longleftrightarrow> ia_status a = Init_failed)) \<and>
     (\<forall>k x. case se_init env (Some k) None x of (a, k1) \<Rightarrow>
        k1 \<noteq> None \<and> (\<forall>n. ia_extra a = Some n \<longrightarrow> n \<le> length x))"

definition finite_peer :: "('k, 's) schannel_env \<Rightarrow> ('s \<Rightarrow> nat) \<Rightarrow> bool" where
  "finite_peer env budget \<longleftrightarrow>
     (\<forall>n s. case se_recv env n s of
        (Recv_failed, s1) \<Rightarrow> budget s1 \<le> budget s
      | (Recv_data bs, s1) \<Rightarrow> length bs \<le> n \<and> budget s1 + length bs \<le> budget s) \<and>
     (\<forall>bs s. case se_send env bs s of (ret, s1) \<Rightarrow> ret \<le> int (length bs) \<and> budget s1 \<le> budget s)"

text \<open>The two ways a handshake can end.\<close>

definition connected :: "int \<times> 'k schannel_connection \<times> 's \<Rightarrow> bool" where
  "connected res \<longleftrightarrow> (case res of (r, c, s) \<Rightarrow> r = PCLL_SUCCESS \<and> sc_context c \<noteq> None \<and> sc_handle c)"

definition failed :: "int \<times> 'k schannel_connection \<times> 's \<Rightarrow> bool" where
  "failed res \<longleftrightarrow> (case res of (r, c, s) \<Rightarrow> r = PCLL_ERROR \<and> sc_context c = None \<and> \<not> sc_handle c)"

text \<open>A connection between two turns of the loop.\<close>

definition in_handshake :: "'k schannel_connection \<Rightarrow> bool" where
  "in_handshake c \<longleftrightarrow> sc_context c \<noteq> None \<and> sc_handle c \<and> sc_received c \<le> length (sc_incoming c)"

lemma finite_peer_recv:
  assumes "finite_peer env budget" and "se_recv env n s = (Recv_data bs, s1)"
  shows "length bs \<le> n" and "budget s1 + length bs \<le> budget s"
proof -
  have "case se_recv env n s of (Recv_failed, s1) \<Rightarrow> budget s1 \<le> budget s
      | (Recv_data bs, s1) \<Rightarrow> length bs \<le> n \<and> budget s1 + length bs \<le> budget s"
    using assms(1) by (simp add: finite_peer_def)
  then show "length bs \<le> n" "budget s1 + length bs \<le> budget s" using assms(2) by simp_all
qed

lemma package_first:
  "security_package env \<Longrightarrow> se_init env None (Some host) [] = (a, k) \<Longrightarrow> k = None \<longleftrightarrow> ia_status a = Init_failed"
  unfolding security_package_def by (drule conjunct1, drule spec [of _ host]) simp

lemma package_later:
  "security_package env \<Longrightarrow>
   \<exists>a k1. se_init env (Some k) None x = (a, Some k1) \<and> (\<forall>n. ia_extra a = Some n \<longrightarrow> n \<le> length x)"
  unfolding security_package_def by (fastforce split: prod.splits)

lemma send_bytes_total:
  "finite_peer env budget \<Longrightarrow> \<exists>sent s1. send_bytes env bs s = Some (sent, s1) \<and> budget s1 \<le> budget s"
proof (induction env bs s rule: send_bytes.induct)
  case (1 env bs s)
  show ?case
  proof (cases "bs = []")
    case True
    then show ?thesis by (intro exI [of _ True] exI [of _ s]) (simp add: send_bytes.simps)
  next
    case False
    obtain ret s1 where e: "se_send env bs s = (ret, s1)" by fastforce
    have l: "ret \<le> int (length bs)" "budget s1 \<le> budget s"
      using "1.prems" e by (auto simp: finite_peer_def split: prod.splits)
    show ?thesis
    proof (cases "ret \<le> 0")
      case True
      then have "send_bytes env bs s = Some (False, s1)" using False e by (subst send_bytes.simps) simp
      then show ?thesis using l(2) by blast
    next
      case pos: False
      obtain sent s2 where "send_bytes env (drop (nat ret) bs) s1 = Some (sent, s2)" "budget s2 \<le> budget s1"
        using "1.IH" [OF False e [symmetric] pos _ "1.prems"] l(1) by auto
      then show ?thesis using False e l pos by (subst send_bytes.simps) simp
    qed
  qed
qed

lemma keep_extra_total:
  assumes "\<And>n. extra = Some n \<Longrightarrow> n \<le> sc_received c" and "sc_received c \<le> length (sc_incoming c)"
  shows "\<exists>c1. keep_extra extra c = Some c1 \<and> sc_received c1 \<le> length (sc_incoming c1) \<and> sc_context c1 = sc_context c \<and>
    sc_handle c1 = sc_handle c"
  using assms by (cases extra) (auto simp: keep_extra_def shift_incoming_def c_memcpy_int)

lemma connect_fail_failed: "in_handshake c \<Longrightarrow> \<exists>res. connect_fail c s = Some res \<and> failed res"
  by (auto simp: in_handshake_def connect_fail_def drop_context_def failed_def)

text \<open>A turn, once its call of the package has left a context.\<close>

lemma connect_turn_after_init:
  assumes "started \<longrightarrow> sc_context c \<noteq> None"
    and "se_init env (if started then sc_context c else None) (if started then None else Some (sc_hostname c))
      (if started then take (sc_received c) (sc_incoming c) else []) = (a, k)"
    and "keep_extra (if started then ia_extra a else None) (c\<lparr>sc_context := k\<rparr>) = Some c1"
  shows "connect_turn env started c s = (case ia_status a of
         Init_ok \<Rightarrow> map_option Inl (connect_done env c1 s)
       | Init_incomplete_credentials \<Rightarrow> map_option Inl (connect_done env c1 s)
       | Init_continue \<Rightarrow> do {
           (sent, s1) \<leftarrow> send_bytes env (ia_token a) s;
           if sent then Some (Inr (c1, s1)) else map_option Inl (connect_fail c1 s1) }
       | Init_incomplete_message \<Rightarrow> Some (Inr (c1, s))
       | Init_failed \<Rightarrow> map_option Inl (connect_fail c1 s))"
proof -
  have "\<not> (started \<and> sc_context c = None)" using assms(1) by blast
  then show ?thesis unfolding connect_turn_def assms(2) by (simp only: if_False prod.case assms(3) bind.bind_lunit)
qed

lemma connect_turn_total:
  assumes "finite_peer env budget" and "started \<longrightarrow> sc_context c \<noteq> None"
    and "se_init env (if started then sc_context c else None) (if started then None else Some (sc_hostname c))
      (if started then take (sc_received c) (sc_incoming c) else []) = (a, Some k)"
    and "keep_extra (if started then ia_extra a else None) (c\<lparr>sc_context := Some k\<rparr>) = Some c1" and "in_handshake c1"
  shows "(\<exists>res. connect_turn env started c s = Some (Inl res) \<and> (connected res \<or> failed res)) \<or>
    (\<exists>s1. connect_turn env started c s = Some (Inr (c1, s1)) \<and> budget s1 \<le> budget s)"
proof -
  note turn = connect_turn_after_init [OF assms(2) assms(3) assms(4), of s]
  obtain k1 where k1: "sc_context c1 = Some k1" "sc_handle c1" using assms(5) by (auto simp: in_handshake_def)
  define z where "z = (PCLL_SUCCESS, c1\<lparr>sc_sizes := se_sizes env k1\<rparr>, s)"
  have ended: "connect_done env c1 s = Some z" "connected z"
    using k1 by (simp_all add: connect_done_def connected_def z_def)
  obtain sent s1 where sent: "send_bytes env (ia_token a) s = Some (sent, s1)" "budget s1 \<le> budget s"
    using send_bytes_total [OF assms(1), of "ia_token a" s] by (elim exE conjE)
  obtain x where x: "connect_fail c1 s = Some x" "failed x"
    using connect_fail_failed [OF assms(5), of s] by (elim exE conjE)
  obtain y where y: "connect_fail c1 s1 = Some y" "failed y"
    using connect_fail_failed [OF assms(5), of s1] by (elim exE conjE)
  show ?thesis
  proof (cases "ia_status a")
    case Init_continue
    then show ?thesis using sent y by (cases sent) (simp_all add: turn)
  qed (simp_all add: turn ended x)
qed

lemma connect_recv_total:
  assumes "finite_peer env budget" and "in_handshake c"
  shows "(\<exists>res. connect_recv env c s = Some (Inl res) \<and> (connected res \<or> failed res)) \<or>
    (\<exists>c1 s1. connect_recv env c s = Some (Inr (c1, s1)) \<and> in_handshake c1 \<and> budget s1 < budget s)"
proof (cases "sc_received c = length (sc_incoming c)")
  case True
  then show ?thesis using connect_fail_failed [OF assms(2), of s] by (auto simp: connect_recv_def)
next
  case False
  obtain r s1 where e: "se_recv env (length (sc_incoming c) - sc_received c) s = (r, s1)" by fastforce
  show ?thesis
  proof (cases r)
    case Recv_failed
    then show ?thesis using connect_fail_failed [OF assms(2), of s1] False e by (auto simp: connect_recv_def)
  next
    case (Recv_data bs)
    note l = finite_peer_recv [OF assms(1) e [unfolded Recv_data]]
    show ?thesis
    proof (cases "bs = []")
      case True
      then show ?thesis using assms(2) False e Recv_data by (simp add: connect_recv_def connected_def in_handshake_def)
    next
      case ne: False
      then have "0 < length bs" by simp
      then have "budget s1 < budget s" using l(2) by linarith
      moreover have "\<exists>c1. store_received bs c = Some c1 \<and> in_handshake c1"
        using assms(2) l(1) by (simp add: store_received_def c_memcpy_int in_handshake_def le_diff_conv2 add.commute)
      ultimately show ?thesis using False e Recv_data ne by (auto simp: connect_recv_def)
    qed
  qed
qed

text \<open>A turn and the receive behind it: the loop ends, or goes on with less to come.\<close>

lemma connect_loop_step:
  assumes "finite_peer env budget" and "in_handshake c1"
    and "(\<exists>res. connect_turn env started c s = Some (Inl res) \<and> (connected res \<or> failed res)) \<or>
      (\<exists>s1. connect_turn env started c s = Some (Inr (c1, s1)) \<and> budget s1 \<le> budget s)"
    and loop: "\<And>c2 s2. in_handshake c2 \<Longrightarrow> budget s2 < budget s \<Longrightarrow>
      \<exists>res. connect_loop env True c2 s2 = Some res \<and> (connected res \<or> failed res)"
  shows "\<exists>res. connect_loop env started c s = Some res \<and> (connected res \<or> failed res)"
proof (cases "\<exists>res. connect_turn env started c s = Some (Inl res) \<and> (connected res \<or> failed res)")
  case True
  then obtain res where "connect_turn env started c s = Some (Inl res)" "connected res \<or> failed res" by blast
  then show ?thesis by (subst connect_loop.simps) simp
next
  case False
  then obtain s1 where turn: "connect_turn env started c s = Some (Inr (c1, s1))" "budget s1 \<le> budget s" using assms(3) by blast
  show ?thesis
  proof (cases "\<exists>res. connect_recv env c1 s1 = Some (Inl res) \<and> (connected res \<or> failed res)")
    case True
    then obtain res where "connect_recv env c1 s1 = Some (Inl res)" "connected res \<or> failed res" by blast
    then show ?thesis using turn(1) by (subst connect_loop.simps) simp
  next
    case False
    then obtain c2 s2 where recv: "connect_recv env c1 s1 = Some (Inr (c2, s2))" "in_handshake c2" "budget s2 < budget s1"
      using connect_recv_total [OF assms(1,2), of s1] by blast
    have "budget s2 < budget s" using recv(3) turn(2) by linarith
    from loop [OF recv(2) this] show ?thesis using turn(1) recv(1) by (subst connect_loop.simps) simp
  qed
qed

lemma connect_loop_total:
  assumes "security_package env" and "finite_peer env budget"
  shows "in_handshake c \<Longrightarrow> \<exists>res. connect_loop env True c s = Some res \<and> (connected res \<or> failed res)"
proof (induction "budget s" arbitrary: c s rule: less_induct)
  case less
  obtain k where k: "sc_context c = Some k" and h: "sc_handle c" "sc_received c \<le> length (sc_incoming c)"
    using less.prems by (auto simp: in_handshake_def)
  let ?x = "take (sc_received c) (sc_incoming c)"
  obtain a k1 where init: "se_init env (Some k) None ?x = (a, Some k1)" "\<forall>n. ia_extra a = Some n \<longrightarrow> n \<le> length ?x"
    using package_later [OF assms(1)] by blast
  obtain c1 where c1: "keep_extra (ia_extra a) (c\<lparr>sc_context := Some k1\<rparr>) = Some c1" "in_handshake c1"
    using keep_extra_total [of "ia_extra a" "c\<lparr>sc_context := Some k1\<rparr>"] init(2) h by (auto simp: in_handshake_def)
  have turn: "(\<exists>res. connect_turn env True c s = Some (Inl res) \<and> (connected res \<or> failed res)) \<or>
    (\<exists>s1. connect_turn env True c s = Some (Inr (c1, s1)) \<and> budget s1 \<le> budget s)"
    by (rule connect_turn_total [OF assms(2)]) (use k init(1) c1 in simp_all)
  show ?case by (rule connect_loop_step [OF assms(2) c1(2) turn]) (rule less.hyps)
qed

text \<open>C37: The outcome of a handshake with a peer that delivers finitely many bytes, in any parts, or fails at any
  time. When the first call of the security package fails, a context is deleted that was never
  created. Otherwise the loop ends: it reports success and keeps the context and the credentials,
  which closing the connection then deletes; or it reports the error and has deleted both, and
  closing the connection deletes them a second time, which is an invalid use of a handle.\<close>
theorem schannel_connect_outcome:
  assumes "security_package env" and "finite_peer env budget" and "sc_handle c"
  shows "if ia_status (fst (se_init env None (Some (sc_hostname c)) [])) = Init_failed
    then connect_turn env False c s = None \<and> schannel_connect env c s = None
    else \<exists>r c1 s1. schannel_connect env c s = Some (r, c1, s1) \<and>
      (r = PCLL_SUCCESS \<and> sc_context c1 \<noteq> None \<and> sc_handle c1 \<and>
         (\<exists>c2 s2. schannel_shutdown env c1 s1 = Some (c2, s2) \<and> sc_context c2 = None \<and> \<not> sc_handle c2) \<or>
       r = PCLL_ERROR \<and> sc_context c1 = None \<and> \<not> sc_handle c1 \<and> schannel_shutdown env c1 s1 = None)"
proof -
  obtain a ko where init: "se_init env None (Some (sc_hostname c)) [] = (a, ko)" by fastforce
  note first = package_first [OF assms(1) init]
  have keep: "keep_extra None (c\<lparr>sc_context := ko\<rparr>) = Some (c\<lparr>sc_context := ko, sc_received := 0\<rparr>)"
    by (simp add: keep_extra_def)
  show ?thesis
  proof (cases "ia_status a = Init_failed")
    case True
    then have "connect_turn env False c s = None"
      using first keep by (simp add: connect_turn_def init connect_fail_def drop_context_def)
    moreover from this have "schannel_connect env c s = None"
      unfolding schannel_connect_def by (subst connect_loop.simps) simp
    ultimately show ?thesis using True by (simp add: init)
  next
    case False
    then obtain k where k: "ko = Some k" using first by blast
    let ?c1 = "c\<lparr>sc_context := Some k, sc_received := 0\<rparr>"
    have h: "in_handshake ?c1" using assms(3) by (simp add: in_handshake_def)
    have turn: "(\<exists>res. connect_turn env False c s = Some (Inl res) \<and> (connected res \<or> failed res)) \<or>
      (\<exists>s1. connect_turn env False c s = Some (Inr (?c1, s1)) \<and> budget s1 \<le> budget s)"
      by (rule connect_turn_total [OF assms(2)]) (use init k keep h in simp_all)
    have "\<exists>res. schannel_connect env c s = Some res \<and> (connected res \<or> failed res)"
      unfolding schannel_connect_def
      by (rule connect_loop_step [OF assms(2) h turn]) (rule connect_loop_total [OF assms(1,2)])
    then obtain r c1 s1 where res: "schannel_connect env c s = Some (r, c1, s1)"
      "connected (r, c1, s1) \<or> failed (r, c1, s1)" by auto
    have "\<exists>c2 s2. schannel_shutdown env c1 s1 = Some (c2, s2) \<and> sc_context c2 = None \<and> \<not> sc_handle c2"
      if "connected (r, c1, s1)"
      using that by (auto simp: connected_def schannel_shutdown_def drop_context_def Let_def split: prod.splits)
    moreover have "schannel_shutdown env c1 s1 = None" if "failed (r, c1, s1)"
      using that by (simp add: failed_def schannel_shutdown_def)
    ultimately show ?thesis using res False by (auto simp: init connected_def failed_def)
  qed
qed

section \<open>A concrete message format\<close>

text \<open>For the witnesses: a message is a byte with the length and the text itself; the context counts
  messages. The network is the bytes on the wire, delivered three at a time.\<close>

definition demo_seal :: "nat \<Rightarrow> bytes \<Rightarrow> bytes \<times> nat" where
  "demo_seal k p = (char_of (length p) # p, k + 1)"

definition demo_decrypt :: "nat \<Rightarrow> bytes \<Rightarrow> decrypt_answer \<times> nat" where
  "demo_decrypt k x = (case x of
     [] \<Rightarrow> (Dec_incomplete, k)
   | c # r \<Rightarrow> if of_char c \<le> length r
       then (Dec_ok x 1 (of_char c) (if length r = of_char c then None else Some (length r - of_char c)), k + 1)
       else (Dec_incomplete, k))"

definition demo_schannel :: "(nat, bytes) schannel_env" where
  "demo_schannel = \<lparr>se_recv = (\<lambda>n s. (Recv_data (take (min n 3) s), drop (min n 3) s)),
     se_send = (\<lambda>bs s. (int (length (take 4 bs)), s @ take 4 bs)),
     se_init = (\<lambda>k host x. (\<lparr>ia_status = Init_continue, ia_extra = None, ia_token = ''hello''\<rparr>, Some 0)),
     se_close = (\<lambda>k. (\<lparr>ia_status = Init_ok, ia_extra = None, ia_token = ''bye''\<rparr>, k)),
     se_sizes = (\<lambda>k. \<lparr>cb_header = 1, cb_maximum = 5, cb_trailer = 0\<rparr>),
     se_encrypt = (\<lambda>k p. Some ([char_of (length p)], p, [], k + 1)),
     se_decrypt = demo_decrypt\<rparr>"

lemma demo_length: "length p \<le> lim \<Longrightarrow> lim < 256 \<Longrightarrow> of_char (char_of (length p) :: char) = length p"
  by simp

lemma demo_record_layer: "lim < 256 \<Longrightarrow> record_layer demo_schannel lim demo_seal"
proof -
  assume lim: "lim < 256"
  have dec: "\<exists>buffer off. se_decrypt demo_schannel k (fst (demo_seal k p) @ rest) =
       (Dec_ok buffer off (length p) (if rest = [] then None else Some (length rest)), snd (demo_seal k p)) \<and>
     length buffer = length (fst (demo_seal k p) @ rest) \<and> drop (length (fst (demo_seal k p))) buffer = rest \<and>
     off + length p \<le> length (fst (demo_seal k p)) \<and> take (length p) (drop off buffer) = p"
    if "length p \<le> lim" for k p rest
    by (intro exI [of _ "fst (demo_seal k p) @ rest"] exI [of _ 1])
      (use demo_length [OF that lim] in \<open>simp add: demo_schannel_def demo_seal_def demo_decrypt_def\<close>)
  have part: "se_decrypt demo_schannel k x = (Dec_incomplete, k)"
    if p: "length p \<le> lim" and x: "strict_prefix x (fst (demo_seal k p))" "x \<noteq> []" for k p x
  proof -
    obtain y where y: "x = char_of (length p) # y" "strict_prefix y p"
      using x by (cases x) (auto simp: demo_seal_def)
    have "\<not> length p \<le> length y" using prefix_length_less [OF y(2)] by simp
    then have "\<not> of_char (char_of (length p) :: char) \<le> length y" by (simp only: demo_length [OF p lim] not_False_eq_True)
    then show ?thesis by (simp add: demo_schannel_def demo_decrypt_def y(1) del: of_char_of)
  qed
  show ?thesis unfolding record_layer_def using dec part by (auto simp: demo_seal_def)
qed

lemma demo_sockets: "stream_socket demo_schannel (\<lambda>s. s)" "sink_socket demo_schannel (\<lambda>s. s)"
  by (auto simp: stream_socket_def sink_socket_def demo_schannel_def min_def)

definition demo_sizes :: stream_sizes where
  "demo_sizes = \<lparr>cb_header = 1, cb_maximum = 5, cb_trailer = 0\<rparr>"

lemma demo_sender: "sender_layer demo_schannel demo_sizes demo_seal"
  by (simp add: sender_layer_def demo_schannel_def demo_sizes_def demo_seal_def)

theorem schannel_roundtrip_witness:
  "\<exists>c' s'. schannel_send demo_schannel (replicate 10 NUL) ''hello, world'' (fresh_schannel 0 demo_sizes 8) [] = Some (PCLL_SUCCESS, c', s') \<and>
     (\<exists>c'' t'. recv_all demo_schannel (replicate 4 NUL) 4 12 (fresh_schannel 0 demo_sizes 8) s' = Some (''hello, world'', c'', t'))"
proof -
  have sizes: "0 < cb_maximum demo_sizes" "cb_header demo_sizes + cb_maximum demo_sizes + cb_trailer demo_sizes \<le> 8"
    "cb_maximum demo_sizes < 256"
    by (simp_all add: demo_sizes_def)
  have lens: "(8 :: nat) \<le> length (replicate 10 NUL)" "(0 :: nat) < 4" "4 \<le> length (replicate 4 NUL)"
    "length ''hello, world'' \<le> 12" by simp_all
  note rt = schannel_roundtrip [OF demo_sender demo_sockets(2) sizes(1,2) lens(1) demo_record_layer [OF sizes(3)]
    demo_sockets(1) lens(2-4) refl, where k = 0]
  obtain c' s' where s': "schannel_send demo_schannel (replicate 10 NUL) ''hello, world'' (fresh_schannel 0 demo_sizes 8) [] =
      Some (PCLL_SUCCESS, c', s')"
    using rt by blast
  then show ?thesis using rt [of s'] by simp
qed

theorem schannel_recv_stream_witness:
  "\<exists>n c' s'. schannel_recv demo_schannel (replicate 4 NUL) 4 (fresh_schannel 0 demo_sizes 8) (fst (demo_seal 0 ''hi'')) =
     Some (int n, take n ''hi'' @ drop n (replicate 4 NUL), c', s') \<and> 0 < n"
proof -
  have "holds_stream 5 demo_seal (\<lambda>s. s) 0 [''hi''] [] (fresh_schannel 0 demo_sizes 8) (fst (demo_seal 0 ''hi''))"
    by (simp add: holds_stream_def fresh_schannel_def demo_seal_def)
  then have u: "undelivered 5 demo_seal (\<lambda>s. s) ''hi'' (fresh_schannel 0 demo_sizes 8) (fst (demo_seal 0 ''hi''))"
    unfolding undelivered_def by (intro exI conjI) (assumption, simp)
  have l: "(5 :: nat) < 256" "4 \<le> length (replicate 4 NUL)" by simp_all
  obtain n c' s' where n: "schannel_recv demo_schannel (replicate 4 NUL) 4 (fresh_schannel 0 demo_sizes 8) (fst (demo_seal 0 ''hi'')) =
     Some (int n, take n ''hi'' @ drop n (replicate 4 NUL), c', s')" "n = 0 \<longrightarrow> (4 :: nat) = 0 \<or> ''hi'' = []"
    using schannel_recv_stream [OF demo_record_layer [OF l(1)] demo_sockets(1) u l(2)] by blast
  then show ?thesis by (intro exI conjI) (assumption, simp)
qed

theorem schannel_send_overrun_witness:
  "schannel_send demo_schannel (replicate 5 NUL) ''hello'' (fresh_schannel 0 demo_sizes 8) [] = None"
  by (rule schannel_send_overrun) (simp_all add: fresh_schannel_def demo_sizes_def)

theorem schannel_recv_too_large_witness:
  "schannel_recv demo_schannel (replicate 4 NUL) 4
     ((fresh_schannel 0 demo_sizes 2)\<lparr>sc_received := 2, sc_incoming := [char_of (9 :: nat), CHR ''x'']\<rparr>) ''abc'' =
   Some (PCLL_ERROR, replicate 4 NUL,
     (fresh_schannel 0 demo_sizes 2)\<lparr>sc_received := 2, sc_incoming := [char_of (9 :: nat), CHR ''x'']\<rparr>, ''abc'')"
  by (rule schannel_recv_too_large) (simp_all add: fresh_schannel_def demo_schannel_def demo_decrypt_def)

text \<open>A package that needs the whole of a handshake message of six bytes, in a network that
  has the second half of it.\<close>

definition demo_handshake :: "(nat, bytes) schannel_env" where
  "demo_handshake = demo_schannel\<lparr>se_init := (\<lambda>k host x.
     if k = None then (\<lparr>ia_status = Init_continue, ia_extra = None, ia_token = ''hello''\<rparr>, Some 0)
     else if length x < 6 then (\<lparr>ia_status = Init_incomplete_message, ia_extra = None, ia_token = []\<rparr>, Some 0)
     else (\<lparr>ia_status = Init_ok, ia_extra = None, ia_token = []\<rparr>, Some 0)),
     se_send := (\<lambda>bs s. (int (length bs), s))\<rparr>"

theorem schannel_connect_loses_part_witness:
  "\<exists>c1. connect_loop demo_handshake True ((fresh_schannel 0 demo_sizes 8)\<lparr>sc_received := 3\<rparr>) ''def'' =
     connect_loop demo_handshake True c1 [] \<and> take (sc_received c1) (sc_incoming c1) = ''def''"
  by (rule schannel_connect_loses_part) (simp_all add: demo_handshake_def demo_schannel_def fresh_schannel_def)

theorem schannel_connect_closed_witness:
  "\<exists>c1. schannel_connect demo_handshake (fresh_schannel 0 demo_sizes 8) [] = Some (PCLL_SUCCESS, c1, []) \<and> sc_sizes c1 = demo_sizes"
proof -
  let ?c = "fresh_schannel (0 :: nat) demo_sizes 8"
  have hello: "se_init demo_handshake None (Some (sc_hostname ?c)) [] =
      (\<lparr>ia_status = Init_continue, ia_extra = None, ia_token = ''hello''\<rparr>, Some 0)"
    "send_bytes demo_handshake ''hello'' [] = Some (True, [])"
    by (simp_all add: demo_handshake_def send_bytes.simps)
  have closed: "sc_incoming ?c \<noteq> []" "se_recv demo_handshake (length (sc_incoming ?c)) [] = (Recv_data [], [])"
    by (simp_all add: demo_handshake_def demo_schannel_def fresh_schannel_def)
  have "\<exists>c1. schannel_connect demo_handshake ?c [] = Some (PCLL_SUCCESS, c1, []) \<and> sc_sizes c1 = sc_sizes ?c"
    by (rule schannel_connect_closed [OF hello closed])
  then show ?thesis by (simp add: fresh_schannel_def)
qed

text \<open>A package that refuses the peer in its second call, and one that refuses at once.\<close>

definition demo_refused :: "(nat, bytes) schannel_env" where
  "demo_refused = demo_schannel\<lparr>se_init := (\<lambda>k host x.
     if k = None then (\<lparr>ia_status = Init_continue, ia_extra = None, ia_token = ''hello''\<rparr>, Some 0)
     else (\<lparr>ia_status = Init_failed, ia_extra = None, ia_token = []\<rparr>, k)),
     se_send := (\<lambda>bs s. (int (length bs), s))\<rparr>"

definition demo_no_context :: "(nat, bytes) schannel_env" where
  "demo_no_context = demo_refused\<lparr>se_init := (\<lambda>k host x. (\<lparr>ia_status = Init_failed, ia_extra = None, ia_token = []\<rparr>, k))\<rparr>"

lemma demo_contracts:
  "security_package demo_refused" "finite_peer demo_refused length" "security_package demo_handshake"
  "finite_peer demo_handshake length" "security_package demo_no_context" "finite_peer demo_no_context length"
  by (auto simp: security_package_def finite_peer_def demo_no_context_def demo_refused_def demo_handshake_def demo_schannel_def)

theorem schannel_connect_outcome_witness:
  "(\<exists>r c1 s1. schannel_connect demo_refused (fresh_schannel 0 demo_sizes 8) ''reply'' = Some (r, c1, s1)) \<and>
   (\<exists>r c1 s1. schannel_connect demo_handshake (fresh_schannel 0 demo_sizes 8) ''abcdef'' = Some (r, c1, s1)) \<and>
   schannel_connect demo_no_context (fresh_schannel 0 demo_sizes 8) [] = None"
proof -
  have h: "sc_handle (fresh_schannel (0 :: nat) demo_sizes 8)" by (simp add: fresh_schannel_def)
  show ?thesis
    using schannel_connect_outcome [OF demo_contracts(1,2) h, of "''reply''"]
      schannel_connect_outcome [OF demo_contracts(3,4) h, of "''abcdef''"]
      schannel_connect_outcome [OF demo_contracts(5,6) h, of "[]"]
    by (auto simp: demo_refused_def demo_handshake_def demo_no_context_def)
qed

end
