(* ===== verification/Spec2Isabelle.thy ===== *)
theory Spec2Isabelle
  imports Shop_Auth Tablec_Race Http_Race Http_Loop Http_Fragments Cthreads Pcll_Schannel
begin

text \<open>
  A verification development of the server of a pastry shop, the C program under
  \<^verbatim>\<open>src/server/\<close>: \<^verbatim>\<open>main.c\<close> and the libraries of \<^verbatim>\<open>libs/\<close>.

  \<^bold>\<open>The program.\<close> \<^verbatim>\<open>main\<close> creates three database tables, a hash table for the sessions
  and the HTTP server. The HTTP server accepts connections into a fixed array of slots and
  starts one thread per connection. The thread reads messages into one buffer, parses each with
  \<^verbatim>\<open>httpparser\<close> (which searches with \<^verbatim>\<open>libtstr\<close>) and hands it to \<^verbatim>\<open>callback\<close> of
  \<^verbatim>\<open>main.c\<close>. The callback parses the query string (\<^verbatim>\<open>queryparser\<close>), chooses a branch by the
  prefix of the path, looks up sessions (\<^verbatim>\<open>tablec\<close>, identifiers from \<^verbatim>\<open>fq_utils\<close>), sends
  statements through libpq, builds JSON (\<^verbatim>\<open>pjsonb\<close>) and sends a response. \<^verbatim>\<open>csocket-server\<close>,
  \<^verbatim>\<open>cthreads\<close> and \<^verbatim>\<open>pcll\<close> wrap sockets, threads and TLS libraries.

  \<^bold>\<open>Conventions.\<close> A C object is a list of bytes, and a definition that touches memory returns an
  option: \<^term>\<open>None\<close> is an access outside an object, a use of a null or freed pointer, or any
  other undefined behaviour, so a theorem that a result is \<open>Some\<close> also says that memory is
  respected. Bytes nobody has written are \<^term>\<open>None\<close> inside an output buffer. A call that may
  end the process returns an \<open>outcome\<close>. Loops over memory are recursions on the remaining bytes;
  no definition uses fuel. Integers are \<^typ>\<open>nat\<close> or \<^typ>\<open>int\<close> where the code's bounds keep them
  exact, and words where they wrap (the hash, the count of the table, seeds and ports):
  lengths and positions that the code keeps in an \<^verbatim>\<open>int\<close> (\<open>pj_position\<close>, the sums of
  \<open>calculate_response_length\<close>) are naturals and agree with it below \<open>2 ^ 31\<close>. A message is what
  one \<^verbatim>\<open>recv\<close> delivers: the definitions take any length for it and for the buffer, and those of
  at most \<^const>\<open>TCPLIMITS_PACKET_SIZE\<close> bytes are the ones of the program, whose buffer has that size
  and whose \<^verbatim>\<open>recv\<close> is bounded by it. An empty message is the end of the connection.

  \<^bold>\<open>Theories, in the order of the program.\<close>
  \<^item> \<^verbatim>\<open>Prelude\<close>: reads and writes of objects, \<^verbatim>\<open>memcpy\<close>, C strings, \<^verbatim>\<open>atoi\<close>, \<^verbatim>\<open>snprintf\<close>, and the
    rewrite collections \<open>mem_simps\<close> and \<open>cstr_simps\<close>.
  \<^item> \<^verbatim>\<open>Libtstr\<close> (\<^verbatim>\<open>libtstr.c\<close>): the search for a marked part, append, count. The results are compared
    with the first occurrence of the markers; the defects of the search are shown too.
  \<^item> \<^verbatim>\<open>Fq_Utils\<close> (\<^verbatim>\<open>fq_utils.c\<close>): the seeding on every platform and the identifiers. Seeding either
    returns what its source delivered or ends the process, an identifier has sixteen characters
    of the alphabet and is a function of a 32-bit seed.
  \<^item> \<^verbatim>\<open>Query_Parser\<close> (\<^verbatim>\<open>queryparser.c\<close>): the parser as a machine on one character at a time. Parsing a
    rendered query gives the pairs back, lookup finds the first value, and the limits of the
    fixed arrays are exact.
  \<^item> \<^verbatim>\<open>Http_Parser\<close> (\<^verbatim>\<open>httpparser.c\<close>): one definition per stage (method, path, version, headers,
    body). Parsing a rendered request gives its parts back, with and without a body; the result
    is well-formed whatever was received; the overruns of method and headers are shown.
  \<^item> \<^verbatim>\<open>Tablec\<close> (\<^verbatim>\<open>tablec.c\<close>): the hash table with its growing buckets. It refines a finite map; the
    locale \<open>session_store\<close> states the contract and is interpreted on the code.
  \<^item> \<^verbatim>\<open>Pjsonb\<close> (\<^verbatim>\<open>pjsonb.c\<close>): the JSON builder on a block that is reallocated. It refines the text of
    a document (locale \<open>json_builder\<close>); cut numbers and missing commas are shown.
  \<^item> \<^verbatim>\<open>Csocket_Server\<close> (\<^verbatim>\<open>csocket-server.c\<close>): the calls to the system, POSIX and Windows, without TLS.
  \<^item> \<^verbatim>\<open>Http_Server\<close> (\<^verbatim>\<open>httpserver.c\<close>): the slots and their free list, the accept loop, the
    responses, and the loop over one connection (\<open>listen_messages\<close>, the iteration of
    \<open>connection_turn\<close>, whose handler is an argument). \<open>sys_step\<close> interleaves accepting, storing and ending of connections; its
    reachable states are shown to own every slot, block and descriptor once, and stopping to
    release all. The locale \<open>slot_pool\<close> is the contract of the free list.
  \<^item> \<^verbatim>\<open>Main_App\<close>, \<^verbatim>\<open>Shop\<close>, \<^verbatim>\<open>Shop_Lists\<close> (\<^verbatim>\<open>main.c\<close>): the callback, one definition per branch; then what
    each request does, from its URL to statement, response and state: passwords, sessions,
    quotes, lists. Every login draws a seed of its own (\<open>env_getrandom\<close>, indexed by the number of
    draws). A callback returns the list of the responses it sent, none or several if a branch did
    so, and the builders of JSON text it has not freed are counted in the state.
  \<^item> \<^verbatim>\<open>Shop_Server\<close> (\<^verbatim>\<open>main.c\<close> and \<^verbatim>\<open>httpserver.c\<close>): the callback inside the connection loop: the grammar of
    the events of a connection (\<open>conversation\<close>), release of what a request acquires (locale
    \<open>connection_handler\<close>).
  \<^item> \<^verbatim>\<open>Shop_Answers\<close>: what each route takes for granted (\<open>answerable\<close>), the texts a route may
    answer with (\<open>route_answer\<close>), that every such request is answered with one of them, and that the
    connection loop refines the shop as a machine on URLs.
  \<^item> \<^verbatim>\<open>Shop_System\<close>: the accept loop, the connections and the shop together, as a step relation in which
    the messages and ends of different connections come in any order. Its reachable states keep
    every resource accounted for, every connection sees the protocol, a stored connection runs as
    \<open>listen_messages\<close> says, no cart is touched before a login, and the server can always be drained.
  \<^item> \<^verbatim>\<open>Shop_Auth\<close>: where sessions come from. The entries of the table of sessions, followed through every
    step of the server: each session that a lookup finds was issued in the answer to a login
    that the database confirmed in the state it was handled in, with the seed of that login, and
    a request for a cart acts for the address of such a login.
  \<^item> \<^verbatim>\<open>Http_Loop\<close> (\<^verbatim>\<open>httpserver.c\<close>): the accept loop on any number of connections, and how far it grows the
    table of slots.
  \<^item> \<^verbatim>\<open>Http_Fragments\<close> (\<^verbatim>\<open>httpserver.c\<close>, \<^verbatim>\<open>httpparser.c\<close>, \<^verbatim>\<open>tcplimits.h\<close>): what becomes of requests that do not
    arrive one per \<^verbatim>\<open>recv\<close>: cut between or inside headers, cut in the body, or several at once.
  \<^item> \<^verbatim>\<open>Tablec_Race\<close> (\<^verbatim>\<open>tablec.c\<close>) and \<^verbatim>\<open>Http_Race\<close> (\<^verbatim>\<open>httpserver.c\<close>): an insertion into the table of
    sessions, and the choice and the return of a slot, each as its reads and its writes, and what
    two of them at the same time do; for the slots also the reads and the writes of the count of
    connections.
  \<^item> \<^verbatim>\<open>Cthreads\<close> (\<^verbatim>\<open>cthreads.c\<close>, \<^verbatim>\<open>cthreads.h\<close>): the wrappers on pthread and on Windows.
  \<^item> \<^verbatim>\<open>Pcll\<close> (\<^verbatim>\<open>pcll.c\<close>, OpenSSL, wolfSSL and no library): the objects of the library as handles that
    must not be freed twice.
  \<^item> \<^verbatim>\<open>Pcll_Schannel\<close> (\<^verbatim>\<open>pcll.c\<close>, Schannel): handshake, sending and receiving on a stream of records.
    What one side sends the other receives, whatever pieces the network delivers.
  \<^item> This theory: requests as bytes on a connection, through all the components.

  \<^bold>\<open>Loops and termination.\<close> The loops over strings, headers, buckets and messages are total
  functions: structural, or with a measure on the bytes left. Three loops of the Schannel
  branch depend on what the peer sends and are partial functions; receiving is shown to
  return on every stream of records, sending on every socket that accepts at least a byte per
  call, and the handshake with every peer that delivers finitely many bytes, in pieces of any
  size, or fails.

  \<^bold>\<open>Parameters and assumptions.\<close> libpq and the database, the operating system, the TLS libraries
  and the random generator are functions of an environment record or arguments, with their
  documented behaviour as hypotheses (\<open>record_layer\<close>, \<open>stream_socket\<close>, \<open>sender_layer\<close>,
  \<open>sink_socket\<close>, \<open>security_package\<close> and \<open>finite_peer\<close> for Schannel). Allocation never fails. A step of the accept loop, or the ending of a connection, is
  atomic, and so is the handling of one message; the code has no lock around them, and
  \<^verbatim>\<open>Tablec_Race\<close> and \<^verbatim>\<open>Http_Race\<close> show what that costs. Inside \<open>serve\<close> a request that ends the process does
  not return. Definitions named \<open>demo_...\<close> are concrete instances for the witnesses.

  \<^bold>\<open>Not modelled.\<close> The TLS branches of \<^verbatim>\<open>csocket-server.c\<close>: they use fields of the connection and a
  function that are declared nowhere, so they have no meaning to translate. Log output. The macros of \<^verbatim>\<open>types.h\<close>. The interleaving of
  two threads inside one step, apart from those two cases. The memory
  of the output tokens of Schannel. The front end under \<^verbatim>\<open>src/web/\<close>.
\<close>

section \<open>From the bytes on the socket to the bytes on the socket\<close>

text \<open>C1: A GET request for the list of products, as bytes on a connection, is answered with
  the complete response text: the request is parsed, routed and answered with the JSON array
  of the rows, the path the parser allocated is freed, and the connection ends with one
  disconnect.\<close>
theorem products_over_http:
  assumes "blank_request (httpparser_init_request junk (take 30 (req_headers junk)) 30)"
    and "good_path (url ''/api/produtos/lista'' ps)" and "good_url ''/api/produtos/lista'' ps"
    and "list_all good_header hs" and "length hs \<le> 30" and "declared_length hs = 0"
    and "map_of (lowered hs) ''transfer-encoding'' = None"
    and "sql_result env True ''SELECT * FROM produtos;'' (app_db app) = (db, Inr rows)" and "list_all good_row rows"
    and "length (comma_list (map row_text rows)) + 2 < 10 ^ 9"
  shows "\<exists>q. listen_messages junk (serve env) payload [render_request ''GET'' (url ''/api/produtos/lista'' ps) hs] app =
    Some (app\<lparr>app_db := db\<rparr>, [Ev_request q,
      Ev_response (map Some (json_reply (''['' @ comma_list (map row_text rows) @ '']''))),
      Ev_freed (zt (url ''/api/produtos/lista'' ps)), Ev_disconnect])"
proof -
  have "\<exists>q. listen_messages junk (serve env) payload (render_request ''GET'' (url ''/api/produtos/lista'' ps) hs # []) app =
    Some (app\<lparr>app_db := db\<rparr>, [Ev_request q,
      Ev_response (map Some (json_reply (''['' @ comma_list (map row_text rows) @ '']''))),
      Ev_freed (zt (url ''/api/produtos/lista'' ps))] @ [Ev_disconnect])"
    by (rule connection_request [OF assms(1) _ _ assms(2,4,5,6,7) products_listing_result [OF _ assms(3,8-10)]])
      (simp_all add: http_methods_def)
  then show ?thesis by simp
qed

theorem products_over_http_witness:
  "\<exists>q. listen_messages request_30 (serve demo_env) (replicate 100 NUL)
      [render_request ''GET'' (url ''/api/produtos/lista'' []) [(''Host'', ''a:80'')]] demo_app =
    Some (demo_app\<lparr>app_db := [''SELECT * FROM produtos;'']\<rparr>, [Ev_request q,
      Ev_response (map Some (json_reply (''['' @ product_text ''Bolo'' ''doce'' ''/b.png'' 0 @ '']''))),
      Ev_freed (zt (url ''/api/produtos/lista'' [])), Ev_disconnect])"
proof -
  have "sql_result demo_env True ''SELECT * FROM produtos;'' (app_db demo_app) =
      ([''SELECT * FROM produtos;''], Inr [[''Bolo'', ''doce'', ''/b.png'', ''20'']])"
    by (simp add: sql_result_def demo_env_def demo_exec_def demo_app_def)
  moreover have "good_path (url ''/api/produtos/lista'' [])" "list_all good_header [(''Host'', ''a:80'')]"
    "declared_length [(''Host'', ''a:80'')] = 0" "map_of (lowered [(''Host'', ''a:80'')]) ''transfer-encoding'' = None"
    by code_simp+
  ultimately show ?thesis
    using products_over_http [of request_30 "[]" "[(''Host'', ''a:80'')]" demo_env demo_app _ _ "replicate 100 NUL"]
      demo_listing_short
    by (simp add: init_request_30 request_30_blank good_url_simps good_row_def demo_row_text demo_price)
qed

text \<open>C2: A login and an insertion into the cart, as two requests on one connection: the first response
  carries a session identifier, the second request uses it, and the statement it sends names
  the address of the login; the second answer is 204. Both paths are freed.\<close>
theorem login_and_cart_over_http:
  assumes "blank_request (httpparser_init_request junk (take 30 (req_headers junk)) 30)"
    and "list_all good_header hs" and "length hs \<le> 30" and "declared_length hs = 0"
    and "map_of (lowered hs) ''transfer-encoding'' = None"
    and "good_path (url ''/api/login'' ps)" and "good_url ''/api/login'' ps" and "table_ok (app_sessions app)"
    and "param ps ''email'' = Some e" and "param ps ''password'' = Some p"
    and "env_getrandom env (app_draws app) = Some seed" and "sid = session_id (env_srand env) (env_rand env) seed"
    and "sql_result env True (login_sql (norm e) (norm p)) (app_db app) = (db, Inr rows)" and "rows \<noteq> []"
    and "table_map (app_sessions app) sid = None"
    and "good_path (url ''/api/carrinho/add'' ps')" and "good_url ''/api/carrinho/add'' ps'"
    and "param ps' ''produto'' = Some q" and "param ps' ''session'' = Some sid"
    and "sql_result env False (cart_add_sql (norm e) (unplus (norm q))) db = (db', Inr rows')"
  shows "\<exists>q1 q2 app'. listen_messages junk (serve env) payload
      [render_request ''GET'' (url ''/api/login'' ps) hs, render_request ''GET'' (url ''/api/carrinho/add'' ps') hs] app =
    Some (app', [Ev_request q1, Ev_response (map Some (json_reply sid)), Ev_freed (zt (url ''/api/login'' ps)),
      Ev_request q2, Ev_response (map Some (response_text (cors_response 204))), Ev_freed (zt (url ''/api/carrinho/add'' ps')),
      Ev_disconnect]) \<and> app_db app' = db' \<and> table_map (app_sessions app') sid = Some (Some (norm e))"
proof -
  let ?P = "url ''/api/login'' ps" and ?P' = "url ''/api/carrinho/add'' ps'"
  let ?pay = "recv_into payload (render_request ''GET'' ?P hs)"
  obtain a where a: "callback env (demo_request ?P) app = Some (Ret (a, [map Some (json_reply sid)]))"
      "table_ok (app_sessions a)" "table_map (app_sessions a) = (table_map (app_sessions app))(sid \<mapsto> Some (norm e))"
      "app_db a = db"
    by (rule login_callback [OF demo_request_path assms(7-15)])
  let ?a' = "a\<lparr>app_db := db'\<rparr>"
  have first: "callback env q1 app = Some (Ret (a, [map Some (json_reply sid)]))" if "req_path q1 = Some (zt ?P)" for q1
    using callback_path [of q1 "demo_request ?P" env app] that a(1) by simp
  have second: "callback env q2 a = Some (Ret (?a', [map Some (response_text (cors_response 204))]))"
    if "req_path q2 = Some (zt ?P')" for q2
  proof -
    have "callback env q2 a = after_command env (cart_add_sql (norm e) (unplus (norm q))) (cors_response 204) a"
      by (rule cart_add_callback [OF that assms(17) a(2) assms(18,19)]) (simp add: a(3))
    then show ?thesis using assms(20) by (simp add: after_command_def a(4))
  qed
  have get: "''GET'' \<in> set http_methods" "length ''GET'' < 7" by (simp_all add: http_methods_def)
  obtain q2 where "listen_messages junk (serve env) ?pay (render_request ''GET'' ?P' hs # []) a =
      Some (?a', [Ev_request q2, Ev_response (map Some (response_text (cors_response 204))), Ev_freed (zt ?P')] @ [Ev_disconnect])"
    using connection_request [OF assms(1) get assms(16,2-5) second] by fastforce
  then show ?thesis
    using connection_request [OF assms(1) get assms(6,2-5) first, where recvs = "[render_request ''GET'' ?P' hs]"] a(3)
    by fastforce
qed

theorem login_and_cart_over_http_witness:
  "\<exists>q1 q2 app'. listen_messages request_30 (serve demo_env) (replicate 100 NUL)
      [render_request ''GET'' (url ''/api/login'' [(''email'', ''u@x''), (''password'', ''p'')]) [],
       render_request ''GET'' (url ''/api/carrinho/add'' [(''produto'', ''Bolo''), (''session'', ''ABCDEFGHIJKLMNOP'')]) []] demo_app =
    Some (app', [Ev_request q1, Ev_response (map Some (json_reply ''ABCDEFGHIJKLMNOP'')),
      Ev_freed (zt (url ''/api/login'' [(''email'', ''u@x''), (''password'', ''p'')])),
      Ev_request q2, Ev_response (map Some (response_text (cors_response 204))),
      Ev_freed (zt (url ''/api/carrinho/add'' [(''produto'', ''Bolo''), (''session'', ''ABCDEFGHIJKLMNOP'')])), Ev_disconnect]) \<and>
    table_map (app_sessions app') ''ABCDEFGHIJKLMNOP'' = Some (Some (norm ''u@x''))"
proof -
  have db: "sql_result demo_env True (login_sql (norm ''u@x'') (norm ''p'')) (app_db demo_app) =
      ([login_sql (norm ''u@x'') (norm ''p'')], Inr [[''Ana'', ''u@x'', ''p'']])"
    by (simp add: sql_result_def demo_env_def demo_exec_def demo_app_def login_sql_def c_snprintf_def)
  have db': "sql_result demo_env False (cart_add_sql (norm ''u@x'') (unplus (norm ''Bolo''))) [login_sql (norm ''u@x'') (norm ''p'')] =
      ([cart_add_sql (norm ''u@x'') (unplus (norm ''Bolo'')), login_sql (norm ''u@x'') (norm ''p'')], Inr [])"
    by (simp add: sql_result_def demo_env_def demo_exec_def cart_add_sql_def c_snprintf_def)
  have seed: "env_getrandom demo_env (app_draws demo_app) = Some 5" by (simp add: demo_env_def demo_app_def)
  have p: "good_path (url ''/api/login'' [(''email'', ''u@x''), (''password'', ''p'')])"
    "good_path (url ''/api/carrinho/add'' [(''produto'', ''Bolo''), (''session'', ''ABCDEFGHIJKLMNOP'')])" by code_simp+
  have b: "blank_request (httpparser_init_request request_30 (take 30 (req_headers request_30)) 30)"
    by (simp add: init_request_30 request_30_blank)
  show ?thesis
    using login_and_cart_over_http [where hs = "[]" and payload = "replicate 100 NUL" and q = "''Bolo''",
        OF b _ _ _ _ p(1) _ demo_sessions(1) _ _ seed demo_id [symmetric] db _ _ p(2) _ _ _ db']
    by (auto simp: demo declared_length_def lowered_def)
qed

end
